(* ===== verification/Prelude.thy ===== *)
theory Prelude
  imports Main "HOL-Library.Word" "HOL-Library.Sublist" "HOL-Library.Char_ord"
    "HOL-Library.List_Lexorder" "HOL-Library.Multiset" "HOL-Library.Code_Target_Nat"
begin

text \<open>
  The C++ vocabulary the components share. A \<^verbatim>\<open>std::string\<close> is a \<open>string\<close> (a list of
  bytes), \<^verbatim>\<open>size_t\<close> and \<^verbatim>\<open>uint64_t\<close> values whose wrap-around can be observed are
  \<open>64 word\<close>, positions inside a string are \<open>nat\<close> (a string is shorter than $2^{63}$
  bytes), and \<^verbatim>\<open>npos\<close> is \<open>None\<close>. A clock reading is an \<open>int\<close>, the nanoseconds of
  the steady clock. The numeric conversions of the standard library
  (\<^verbatim>\<open>std::to_string\<close>, \<^verbatim>\<open>std::stoull\<close>, \<^verbatim>\<open>std::stol\<close>, \<^verbatim>\<open>std::stoi\<close>) are written out
  with their whitespace, sign and range rules; a thrown exception is \<open>None\<close>.
\<close>

section \<open>Names and collections\<close>

type_synonym u64 = "64 word"

type_synonym time = int

named_theorems model_simps \<open>equations that unfold operations of the model\<close>

named_theorems inv_intros \<open>every operation of a component keeps its invariant\<close>

section \<open>Characters\<close>

definition tolower :: "char \<Rightarrow> char" where
  "tolower c = (let n = (of_char c :: nat) in if 65 \<le> n \<and> n \<le> 90 then char_of (n + 32) else c)"

definition isdigit :: "char \<Rightarrow> bool" where
  "isdigit c = (let n = (of_char c :: nat) in 48 \<le> n \<and> n \<le> 57)"

definition isspace :: "char \<Rightarrow> bool" where
  "isspace c = (let n = (of_char c :: nat) in n = 32 \<or> (9 \<le> n \<and> n \<le> 13))"

definition CR :: char where "CR = char_of (13 :: nat)"

definition LF :: char where "LF = char_of (10 :: nat)"

definition TAB :: char where "TAB = char_of (9 :: nat)"

definition crlf :: string where "crlf = [CR, LF]"

definition lower :: "string \<Rightarrow> string" where
  "lower s = map tolower s"

section \<open>Searching and cutting strings\<close>

definition find_if :: "(char \<Rightarrow> bool) \<Rightarrow> string \<Rightarrow> nat option" where
  "find_if P s = (let n = length (takeWhile (\<lambda>c. \<not> P c) s) in if n < length s then Some n else None)"

definition find_char :: "char \<Rightarrow> string \<Rightarrow> nat option" where
  "find_char c s = find_if (\<lambda>d. d = c) s"

fun find_sub :: "string \<Rightarrow> string \<Rightarrow> nat option" where
  "find_sub n [] = (if n = [] then Some 0 else None)"
| "find_sub n (c # cs) = (if prefix n (c # cs) then Some 0 else map_option Suc (find_sub n cs))"

definition find_from :: "string \<Rightarrow> string \<Rightarrow> nat \<Rightarrow> nat option" where
  "find_from n s p = (if p \<le> length s then map_option ((+) p) (find_sub n (drop p s)) else None)"

definition substr :: "string \<Rightarrow> nat \<Rightarrow> nat \<Rightarrow> string" where
  "substr s pos n = take n (drop pos s)"

text \<open>\<^verbatim>\<open>std::getline\<close> on a string stream whose unread part is \<open>s\<close>: the line and the new
  unread part, or \<open>None\<close> when it sets the fail bit (nothing is left to read).\<close>

definition getline :: "char \<Rightarrow> string \<Rightarrow> (string \<times> string) option" where
  "getline d s = (if s = [] then None
     else Some (takeWhile (\<lambda>c. c \<noteq> d) s, tl (dropWhile (\<lambda>c. c \<noteq> d) s)))"

text \<open>\<^verbatim>\<open>stream >> token\<close> for a string: skip white space, read up to the next white space;
  \<open>None\<close> when no character is left.\<close>

definition next_token :: "string \<Rightarrow> (string \<times> string) option" where
  "next_token s = (let t = dropWhile isspace s in
     if t = [] then None else Some (takeWhile (\<lambda>c. \<not> isspace c) t, dropWhile (\<lambda>c. \<not> isspace c) t))"

section \<open>Decimal numbers\<close>

definition digit_char :: "nat \<Rightarrow> char" where
  "digit_char d = char_of (48 + d)"

definition digit_val :: "char \<Rightarrow> nat" where
  "digit_val c = of_char c - 48"

fun show_nat :: "nat \<Rightarrow> string" where
  "show_nat n = (if n < 10 then [digit_char n] else show_nat (n div 10) @ [digit_char (n mod 10)])"

declare show_nat.simps [simp del]

definition show_int :: "int \<Rightarrow> string" where
  "show_int i = (if i < 0 then ''-'' @ show_nat (nat (- i)) else show_nat (nat i))"

definition digits_val :: "string \<Rightarrow> nat" where
  "digits_val ds = foldl (\<lambda>a c. 10 * a + digit_val c) 0 ds"

text \<open>The sign and the digits that \<^verbatim>\<open>strtol\<close> and its kin read: \<open>None\<close> when there is no digit.\<close>

definition scan_number :: "string \<Rightarrow> (bool \<times> nat) option" where
  "scan_number s =
     (let t = dropWhile isspace s;
          neg = (t \<noteq> [] \<and> hd t = CHR ''-'');
          u = (if t \<noteq> [] \<and> (hd t = CHR ''-'' \<or> hd t = CHR ''+'') then tl t else t);
          ds = takeWhile isdigit u
      in if ds = [] then None else Some (neg, digits_val ds))"

definition stoull :: "string \<Rightarrow> u64 option" where
  "stoull s = (case scan_number s of None \<Rightarrow> None
     | Some (neg, n) \<Rightarrow> if 2 ^ 64 \<le> n then None
         else Some (if neg then - of_nat n else of_nat n))"

definition signed_scan :: "nat \<Rightarrow> string \<Rightarrow> int option" where
  "signed_scan w s = (case scan_number s of None \<Rightarrow> None
     | Some (neg, n) \<Rightarrow> (let i = (if neg then - int n else int n) in
         if - (2 ^ (w - 1)) \<le> i \<and> i < 2 ^ (w - 1) then Some i else None))"

definition stol :: "string \<Rightarrow> int option" where "stol s = signed_scan 64 s"

definition stoi :: "string \<Rightarrow> int option" where "stoi s = signed_scan 32 s"

section \<open>Clock arithmetic\<close>

text \<open>\<^verbatim>\<open>std::chrono::duration_cast\<close> divides the 64-bit nanosecond count towards zero.\<close>

definition trunc_div :: "int \<Rightarrow> int \<Rightarrow> int" where
  "trunc_div a b = (if a < 0 then - ((- a) div b) else a div b)"

definition to_seconds :: "time \<Rightarrow> int" where "to_seconds d = trunc_div d 1000000000"

definition to_millis :: "time \<Rightarrow> int" where "to_millis d = trunc_div d 1000000"

section \<open>Shared lemmas\<close>

subsection \<open>Characters and searching\<close>

lemma of_char_le_255 [simp]: "(of_char c :: nat) \<le> 255"
proof -
  have "(of_char c :: nat) mod 256 < 256" by (rule mod_less_divisor) simp
  then show ?thesis unfolding of_char_mod_256 by linarith
qed

lemma tolower_idem [simp]: "tolower (tolower c) = tolower c"
  by (auto simp: tolower_def Let_def)

lemma lower_idem [simp]: "lower (lower s) = lower s"
  by (simp add: lower_def)

lemma length_lower [simp]: "length (lower s) = length s"
  by (simp add: lower_def)

lemma of_char_digit_char: "d < 10 \<Longrightarrow> of_char (digit_char d) = 48 + d"
  by (simp add: digit_char_def)

lemma digit_val_char [simp]: "d < 10 \<Longrightarrow> digit_val (digit_char d) = d"
  by (simp add: digit_val_def of_char_digit_char)

lemma isdigit_digit_char [simp]: "d < 10 \<Longrightarrow> isdigit (digit_char d)"
  by (simp add: isdigit_def of_char_digit_char Let_def)

lemma isdigit_not_space: "isdigit c \<Longrightarrow> \<not> isspace c"
  by (auto simp: isdigit_def isspace_def Let_def)

lemma isdigit_not_sign: "isdigit c \<Longrightarrow> c \<noteq> CHR ''-'' \<and> c \<noteq> CHR ''+''"
  by (auto simp: isdigit_def Let_def)

lemma LF_not_digit [simp]: "\<not> isdigit LF"
  by (simp add: LF_def isdigit_def Let_def)

lemma CR_not_digit [simp]: "\<not> isdigit CR"
  by (simp add: CR_def isdigit_def Let_def)

lemma CR_neq_LF [simp]: "CR \<noteq> LF" "LF \<noteq> CR"
  by (simp_all add: CR_def LF_def)

lemma LF_neq_char [simp]:
  "LF \<noteq> CHR '' ''" "CHR '' '' \<noteq> LF" "LF \<noteq> CHR '':''" "CHR '':'' \<noteq> LF"
  by code_simp+

lemma CR_neq_char [simp]:
  "CR \<noteq> CHR '' ''" "CHR '' '' \<noteq> CR" "CR \<noteq> CHR '':''" "CHR '':'' \<noteq> CR"
  by code_simp+

lemma find_if_eq_None: "find_if P s = None \<longleftrightarrow> (\<forall>c \<in> set s. \<not> P c)"
proof -
  have "length (takeWhile (\<lambda>c. \<not> P c) s) < length s \<longleftrightarrow> takeWhile (\<lambda>c. \<not> P c) s \<noteq> s"
    by (metis length_takeWhile_le le_neq_implies_less less_irrefl takeWhile_eq_take take_all order_refl)
  then show ?thesis
    by (auto simp: find_if_def Let_def takeWhile_eq_all_conv)
qed

lemma find_if_append: "\<forall>c \<in> set a. \<not> P c \<Longrightarrow> P d \<Longrightarrow> find_if P (a @ d # b) = Some (length a)"
  by (simp add: find_if_def)

lemma find_char_append: "c \<notin> set a \<Longrightarrow> find_char c (a @ c # b) = Some (length a)"
  by (auto simp: find_char_def intro: find_if_append)

lemma find_char_eq_None: "find_char c s = None \<longleftrightarrow> c \<notin> set s"
  by (auto simp: find_char_def find_if_eq_None)

lemma find_char_SomeE:
  assumes "find_char c s = Some n"
  obtains a b where "s = a @ c # b" "c \<notin> set a" "length a = n"
proof -
  from assms have "c \<in> set s"
    by (metis find_char_eq_None option.distinct(1))
  then obtain a b where s: "s = a @ c # b" "c \<notin> set a"
    by (meson split_list_first)
  with assms show thesis
    using that by (simp add: find_char_append)
qed

lemma find_sub_le: "find_sub n s = Some p \<Longrightarrow> p + length n \<le> length s"
  by (induction n s arbitrary: p rule: find_sub.induct)
    (auto split: if_splits dest: prefix_length_le)

lemma find_sub_at: "find_sub n s = Some p \<Longrightarrow> prefix n (drop p s)"
  by (induction n s arbitrary: p rule: find_sub.induct) (auto split: if_splits)

lemma find_sub_skip:
  "n \<noteq> [] \<Longrightarrow> \<forall>c \<in> set d. c \<noteq> hd n \<Longrightarrow> find_sub n (d @ s) = map_option ((+) (length d)) (find_sub n s)"
proof (induction d)
  case Nil
  then show ?case by (simp add: option.map_ident)
next
  case (Cons c d)
  then have "\<not> prefix n (c # d @ s)" by (cases n) auto
  with Cons show ?case by (simp add: option.map_comp comp_def)
qed

lemma find_sub_here: "find_sub n (n @ s) = Some 0"
proof (cases "n @ s")
  case (Cons c t)
  have "prefix n (n @ s)" by simp
  with Cons show ?thesis by (simp del: prefix_Cons)
qed auto

lemma find_sub_least: "find_sub n s = Some p \<Longrightarrow> q < p \<Longrightarrow> \<not> prefix n (drop q s)"
proof (induction n s arbitrary: p q rule: find_sub.induct)
  case (2 n c cs)
  then show ?case by (cases q) (auto split: if_splits simp del: prefix_Cons)
qed (auto split: if_splits)

lemma find_sub_None: "find_sub n s = None \<Longrightarrow> \<not> prefix n (drop q s)"
proof (induction n s arbitrary: q rule: find_sub.induct)
  case (2 n c cs)
  then show ?case by (cases q) (auto split: if_splits simp del: prefix_Cons)
qed (auto split: if_splits)

lemma find_from_bounds: "find_from n s p = Some q \<Longrightarrow> p \<le> q \<and> q + length n \<le> length s"
  by (auto simp: find_from_def split: if_splits dest: find_sub_le)

lemma getline_length: "getline d s = Some (l, r) \<Longrightarrow> length r < length s"
proof -
  assume a: "getline d s = Some (l, r)"
  then have "s \<noteq> []" and r: "r = tl (dropWhile (\<lambda>c. c \<noteq> d) s)"
    by (auto simp: getline_def split: if_splits)
  moreover have "length (dropWhile (\<lambda>c. c \<noteq> d) s) \<le> length s"
    by (rule length_dropWhile_le)
  ultimately show ?thesis
    by (cases s) (auto simp: less_Suc_eq_le)
qed

lemma getline_append: "d \<notin> set l \<Longrightarrow> getline d (l @ d # r) = Some (l, r)"
  by (auto simp: getline_def takeWhile_append dropWhile_append)

subsection \<open>Decimal round trips\<close>

lemma show_nat_digits: "\<forall>c \<in> set (show_nat n). isdigit c"
  by (induction n rule: show_nat.induct) (subst show_nat.simps, auto)

lemma show_nat_nonempty [simp]: "show_nat n \<noteq> []"
  by (subst show_nat.simps) simp

lemma digits_val_snoc [simp]: "digits_val (ds @ [c]) = 10 * digits_val ds + digit_val c"
  by (simp add: digits_val_def)

lemma digits_val_show_nat [simp]: "digits_val (show_nat n) = n"
proof (induction n rule: show_nat.induct)
  case (1 n)
  show ?case
  proof (cases "n < 10")
    case True
    then show ?thesis by (subst show_nat.simps) (simp add: digits_val_def)
  next
    case False
    with 1 show ?thesis by (subst show_nat.simps) simp
  qed
qed

lemma show_nat_hd: "isdigit (hd (show_nat n))"
  using show_nat_digits [of n] by (cases "show_nat n") auto

lemma scan_number_digits:
  assumes "ds \<noteq> []" "\<forall>c \<in> set ds. isdigit c"
  shows "scan_number ds = Some (False, digits_val ds)"
proof -
  from assms obtain d e where ds: "ds = d # e" and d: "isdigit d"
    by (cases ds) auto
  have "takeWhile isdigit ds = ds"
    using assms(2) by (simp add: takeWhile_eq_all_conv)
  moreover have "dropWhile isspace ds = ds" "hd ds \<noteq> CHR ''-''" "hd ds \<noteq> CHR ''+''"
    using ds isdigit_not_space [OF d] isdigit_not_sign [OF d] by simp_all
  ultimately show ?thesis
    using assms(1) by (simp add: scan_number_def Let_def del: takeWhile_eq_all_conv)
qed

lemma scan_number_show_nat [simp]: "scan_number (show_nat n) = Some (False, n)"
  using scan_number_digits [OF show_nat_nonempty show_nat_digits, of n] by simp

lemma stoull_show_nat: "n < 2 ^ 64 \<Longrightarrow> stoull (show_nat n) = Some (of_nat n)"
  by (simp add: stoull_def)

lemma stoull_show_unat [simp]: "stoull (show_nat (unat (w :: u64))) = Some w"
proof -
  have "unat w < 2 ^ 64" using unsigned_less [of w, where 'a = nat] by simp
  then show ?thesis by (simp add: stoull_show_nat)
qed

lemma show_nat_no_char: "\<not> isdigit c \<Longrightarrow> c \<notin> set (show_nat n)"
  using show_nat_digits [of n] by auto

lemma LF_not_in_show_nat [simp]: "LF \<notin> set (show_nat n)"
  by (simp add: show_nat_no_char)

lemma CR_not_in_show_nat [simp]: "CR \<notin> set (show_nat n)"
  by (simp add: show_nat_no_char)

subsection \<open>64-bit words\<close>

lemma unat_of_nat_u64: "n < 2 ^ 64 \<Longrightarrow> unat (of_nat n :: u64) = n"
  by (simp add: unat_of_nat)

lemma u64_of_nat_le: "a < 2 ^ 64 \<Longrightarrow> b < 2 ^ 64 \<Longrightarrow> (of_nat a :: u64) \<le> of_nat b \<longleftrightarrow> a \<le> b"
  by (simp add: word_le_nat_alt unat_of_nat_u64)

lemma unat_u64_less: "unat (w :: u64) < 2 ^ 64"
  using unsigned_less [of w, where 'a = nat] by simp

subsection \<open>Clock\<close>

lemma trunc_div_nonneg: "0 \<le> a \<Longrightarrow> 0 \<le> b \<Longrightarrow> 0 \<le> trunc_div a b"
  by (simp add: trunc_div_def pos_imp_zdiv_nonneg_iff div_int_pos_iff)

lemma trunc_div_mono: "0 < b \<Longrightarrow> 0 \<le> a \<Longrightarrow> a \<le> a' \<Longrightarrow> trunc_div a b \<le> trunc_div a' b"
  by (simp add: trunc_div_def zdiv_mono1)

lemma to_seconds_less: "0 \<le> d \<Longrightarrow> to_seconds d < n \<longleftrightarrow> d < n * 1000000000"
  by (simp add: to_seconds_def trunc_div_def) linarith

lemma to_millis_ge: "0 \<le> d \<Longrightarrow> n \<le> to_millis d \<longleftrightarrow> n * 1000000 \<le> d"
  by (simp add: to_millis_def trunc_div_def) linarith

end
