(* ===== verification/OrdMap.thy ===== *)
theory OrdMap
  imports Prelude
begin

text \<open>
  \<^verbatim>\<open>std::map<K, V, Compare>\<close>: the header tables of every message and the breaker registry.
  A map is the list of its entries in iteration order. \<open>omap_find\<close> and \<open>omap_set\<close>
  (\<^verbatim>\<open>m[k] = v\<close>) only ever use the comparator, as the tree does, and a key is found when the
  comparator orders it neither before nor after the stored one. The comparator's contract, a
  strict weak order, is the locale \<open>strict_weak_order\<close>; what a client relies on is the
  locale \<open>keyed_map\<close>, which the first gives for every comparator (\<^theory_text>\<open>sublocale\<close>).
\<close>

section \<open>Operations\<close>

fun omap_find :: "('k \<Rightarrow> 'k \<Rightarrow> bool) \<Rightarrow> ('k \<times> 'v) list \<Rightarrow> 'k \<Rightarrow> 'v option" where
  "omap_find lt [] q = None"
| "omap_find lt ((k, v) # m) q =
     (if lt k q then omap_find lt m q else if lt q k then None else Some v)"

fun omap_set :: "('k \<Rightarrow> 'k \<Rightarrow> bool) \<Rightarrow> ('k \<times> 'v) list \<Rightarrow> 'k \<Rightarrow> 'v \<Rightarrow> ('k \<times> 'v) list" where
  "omap_set lt [] q w = [(q, w)]"
| "omap_set lt ((k, v) # m) q w =
     (if lt k q then (k, v) # omap_set lt m q w
      else if lt q k then (q, w) # (k, v) # m
      else (k, w) # m)"

definition omap_inv :: "('k \<Rightarrow> 'k \<Rightarrow> bool) \<Rightarrow> ('k \<times> 'v) list \<Rightarrow> bool" where
  "omap_inv lt m = sorted_wrt (\<lambda>x y. lt (fst x) (fst y)) m"

definition omap_equiv :: "('k \<Rightarrow> 'k \<Rightarrow> bool) \<Rightarrow> 'k \<Rightarrow> 'k \<Rightarrow> bool" where
  "omap_equiv lt a b = (\<not> lt a b \<and> \<not> lt b a)"

definition omap_sets :: "('k \<Rightarrow> 'k \<Rightarrow> bool) \<Rightarrow> ('k \<times> 'v) list \<Rightarrow> ('k \<times> 'v) list \<Rightarrow> ('k \<times> 'v) list" where
  "omap_sets lt m kvs = foldl (\<lambda>m kv. omap_set lt m (fst kv) (snd kv)) m kvs"

lemma omap_inv_Nil [simp]: "omap_inv lt []"
  by (simp add: omap_inv_def)

lemma omap_inv_Cons:
  "omap_inv lt ((k, v) # m) \<longleftrightarrow> (\<forall>x \<in> set m. lt k (fst x)) \<and> omap_inv lt m"
  by (simp add: omap_inv_def)

lemma omap_sets_Nil [simp]: "omap_sets lt m [] = m"
  by (simp add: omap_sets_def)

lemma omap_sets_Cons [simp]:
  "omap_sets lt m (kv # kvs) = omap_sets lt (omap_set lt m (fst kv) (snd kv)) kvs"
  by (simp add: omap_sets_def)

lemma omap_sets_append: "omap_sets lt m (a @ b) = omap_sets lt (omap_sets lt m a) b"
  by (simp add: omap_sets_def)

lemma omap_set_keys: "x \<in> set (omap_set lt m q w) \<Longrightarrow> fst x = q \<or> fst x \<in> fst ` set m"
  by (induction m arbitrary: x) (fastforce split: if_splits intro: rev_image_eqI)+

lemma omap_set_append:
  "\<forall>x \<in> set m. lt (fst x) q \<Longrightarrow> omap_set lt m q w = m @ [(q, w)]"
  by (induction m) auto

text \<open>Writing the entries of a map back in iteration order rebuilds exactly that map.\<close>

lemma omap_sets_rebuild_from:
  "omap_inv lt (m @ kvs) \<Longrightarrow> omap_sets lt m kvs = m @ kvs"
proof (induction kvs arbitrary: m)
  case Nil
  then show ?case by simp
next
  case (Cons kv kvs)
  obtain k v where kv: "kv = (k, v)" by (cases kv)
  from Cons.prems have "\<forall>x \<in> set m. lt (fst x) k"
    by (auto simp: omap_inv_def sorted_wrt_append kv)
  then have "omap_set lt m k v = m @ [(k, v)]" by (rule omap_set_append)
  with Cons.IH [of "m @ [kv]"] Cons.prems show ?case by (simp add: kv)
qed

lemma omap_sets_rebuild: "omap_inv lt m \<Longrightarrow> omap_sets lt [] m = m"
  using omap_sets_rebuild_from [of lt "[]" m] by simp

section \<open>What a client relies on\<close>

locale keyed_map =
  fixes keq :: "'k \<Rightarrow> 'k \<Rightarrow> bool"
    and find :: "'m \<Rightarrow> 'k \<Rightarrow> 'v option"
    and put :: "'m \<Rightarrow> 'k \<Rightarrow> 'v \<Rightarrow> 'm"
    and inv :: "'m \<Rightarrow> bool"
    and empty :: "'m"
  assumes inv_empty: "inv empty"
    and inv_put: "inv m \<Longrightarrow> inv (put m k v)"
    and find_empty: "find empty q = None"
    and find_put: "inv m \<Longrightarrow> find (put m k v) q = (if keq k q then Some v else find m q)"
begin

lemma inv_puts: "inv m \<Longrightarrow> inv (foldl (\<lambda>m kv. put m (fst kv) (snd kv)) m kvs)"
  by (induction kvs arbitrary: m) (auto intro: inv_put)

lemma find_puts:
  assumes "inv m"
  shows "find (foldl (\<lambda>m kv. put m (fst kv) (snd kv)) m kvs) q =
    (case filter (\<lambda>kv. keq (fst kv) q) kvs of [] \<Rightarrow> find m q
     | x # xs \<Rightarrow> Some (snd (last (x # xs))))"
  using assms
proof (induction kvs rule: rev_induct)
  case Nil
  then show ?case by simp
next
  case (snoc kv kvs)
  have "inv (foldl (\<lambda>m kv. put m (fst kv) (snd kv)) m kvs)"
    using snoc.prems by (rule inv_puts)
  with snoc show ?case by (auto simp: find_put split: list.splits)
qed

end

section \<open>A strict weak order gives a map\<close>

locale strict_weak_order =
  fixes lt :: "'k \<Rightarrow> 'k \<Rightarrow> bool"
  assumes irrefl: "\<not> lt a a"
    and trans: "lt a b \<Longrightarrow> lt b c \<Longrightarrow> lt a c"
    and incomp_less: "omap_equiv lt a b \<Longrightarrow> lt b c \<Longrightarrow> lt a c"
    and less_incomp: "lt a b \<Longrightarrow> omap_equiv lt b c \<Longrightarrow> lt a c"
begin

lemma equiv_refl: "omap_equiv lt a a"
  by (simp add: omap_equiv_def irrefl)

lemma equiv_sym: "omap_equiv lt a b \<Longrightarrow> omap_equiv lt b a"
  by (auto simp: omap_equiv_def)

lemma asym: "lt a b \<Longrightarrow> \<not> lt b a"
  using irrefl trans by blast

lemma equiv_less_iff: "omap_equiv lt a b \<Longrightarrow> lt a c \<longleftrightarrow> lt b c"
  using incomp_less equiv_sym by blast

lemma equiv_less_iff': "omap_equiv lt a b \<Longrightarrow> lt c a \<longleftrightarrow> lt c b"
  using less_incomp equiv_sym by blast

lemma equiv_trans: "omap_equiv lt a b \<Longrightarrow> omap_equiv lt b c \<Longrightarrow> omap_equiv lt a c"
  using equiv_less_iff equiv_less_iff' by (metis omap_equiv_def)

lemma less_keys_trans: "lt k q \<Longrightarrow> \<forall>x \<in> set m. lt q (fst x) \<Longrightarrow> \<forall>x \<in> set m. lt k (fst x)"
  using trans by blast

lemma inv_set: "omap_inv lt m \<Longrightarrow> omap_inv lt (omap_set lt m q w)"
proof (induction m)
  case Nil
  then show ?case by (simp add: omap_inv_Cons)
next
  case (Cons kv m)
  obtain k v where kv: "kv = (k, v)" by (cases kv)
  have below: "lt k (fst x)" if "lt k q" "x \<in> set (omap_set lt m q w)" for x
    using omap_set_keys [OF that(2)] that(1) Cons.prems by (auto simp: kv omap_inv_Cons)
  have above: "lt q (fst x)" if "lt q k" "x \<in> set m" for x
    using Cons.prems that trans by (auto simp: kv omap_inv_Cons)
  show ?case
    using Cons below above by (auto simp: kv omap_inv_Cons)
qed

lemma find_above: "omap_inv lt m \<Longrightarrow> \<forall>x \<in> set m. lt q (fst x) \<Longrightarrow> omap_find lt m q = None"
  by (cases m) (auto simp: asym)

lemma find_set:
  "omap_inv lt m \<Longrightarrow>
     omap_find lt (omap_set lt m k v) q = (if omap_equiv lt k q then Some v else omap_find lt m q)"
proof (induction m)
  case Nil
  then show ?case by (simp add: omap_equiv_def)
next
  case (Cons kv m)
  obtain a b where kv: "kv = (a, b)" by (cases kv)
  note pre = Cons.prems [unfolded kv omap_inv_Cons]
  consider "lt a k" | "lt k a" | "omap_equiv lt a k"
    by (auto simp: omap_equiv_def)
  then show ?case
  proof cases
    case 1
    moreover have "\<not> omap_equiv lt k q" if "\<not> lt a q"
      using that 1 less_incomp by blast
    ultimately show ?thesis using Cons.IH pre by (auto simp: kv)
  next
    case 2
    then have "\<not> lt a k" by (rule asym)
    with 2 show ?thesis
      using trans [of k a q] by (auto simp: kv omap_equiv_def dest: trans)
  next
    case 3
    then have na: "\<not> lt a k" "\<not> lt k a" by (auto simp: omap_equiv_def)
    have "omap_equiv lt a q \<longleftrightarrow> omap_equiv lt k q"
      using 3 equiv_trans equiv_sym by blast
    moreover have "omap_find lt m q = None" if "\<not> lt a q" "lt q a"
      using that pre find_above less_keys_trans by blast
    ultimately show ?thesis
      using na by (auto simp: kv omap_equiv_def)
  qed
qed

lemma find_equiv_cong: "omap_equiv lt k q \<Longrightarrow> omap_find lt m k = omap_find lt m q"
  by (induction m) (auto simp: equiv_less_iff equiv_less_iff')

lemma find_mem:
  "omap_inv lt m \<Longrightarrow> omap_find lt m q = Some v \<longleftrightarrow> (\<exists>k. (k, v) \<in> set m \<and> omap_equiv lt k q)"
proof (induction m)
  case Nil
  then show ?case by simp
next
  case (Cons kv m)
  obtain a b where kv: "kv = (a, b)" by (cases kv)
  note pre = Cons.prems [unfolded kv omap_inv_Cons]
  have "False" if "\<not> lt a q" "(k, w) \<in> set m" "omap_equiv lt k q" for k w
    using that pre less_incomp by fastforce
  with Cons.IH pre show ?case by (auto simp: kv omap_equiv_def)
qed

end

sublocale strict_weak_order \<subseteq> km: keyed_map "omap_equiv lt" "omap_find lt" "omap_set lt" "omap_inv lt" "[]"
  by unfold_locales (auto simp: find_set inv_set)

end
