(* ===== verification/Http.thy ===== *)
theory Http
  imports OrdMap
begin

text \<open>
  \<^verbatim>\<open>proxy/src/http\<close>: the case-insensitive header table, requests, responses, the response
  writer and the incremental request parser. The parser's out-parameter is its \<open>Complete\<close>
  value; its only caller makes a fresh request for every call, so what a failed call leaves in
  it is never read.
\<close>

section \<open>The header table\<close>

fun ci_less :: "string \<Rightarrow> string \<Rightarrow> bool" where
  "ci_less [] [] = False"
| "ci_less [] (d # ds) = True"
| "ci_less (c # cs) [] = False"
| "ci_less (c # cs) (d # ds) =
     (if tolower c < tolower d then True
      else if tolower d < tolower c then False else ci_less cs ds)"

type_synonym headers = "(string \<times> string) list"

abbreviation hfind :: "headers \<Rightarrow> string \<Rightarrow> string option" where
  "hfind h k \<equiv> omap_find ci_less h k"

abbreviation hset :: "headers \<Rightarrow> string \<Rightarrow> string \<Rightarrow> headers" where
  "hset h k v \<equiv> omap_set ci_less h k v"

abbreviation hinv :: "headers \<Rightarrow> bool" where
  "hinv h \<equiv> omap_inv ci_less h"

lemma ci_less_lower: "ci_less a b \<longleftrightarrow> lower a < lower b"
  by (induction a b rule: ci_less.induct) (auto simp: lower_def)

lemma ci_equiv_lower: "omap_equiv ci_less a b \<longleftrightarrow> lower a = lower b"
  by (auto simp: omap_equiv_def ci_less_lower)

interpretation ci: strict_weak_order ci_less
  by unfold_locales (auto simp: ci_equiv_lower, auto simp: ci_less_lower)

lemma hfind_hset [model_simps]:
  "hinv h \<Longrightarrow> hfind (hset h k v) q = (if lower k = lower q then Some v else hfind h q)"
  by (simp add: ci.find_set ci_equiv_lower)

lemma hinv_hset [inv_intros]: "hinv h \<Longrightarrow> hinv (hset h k v)"
  by (rule ci.inv_set)

section \<open>Small helpers of Http.cpp\<close>

definition blank :: "char \<Rightarrow> bool" where
  "blank c = (c = CHR '' '' \<or> c = TAB)"

definition find_last_if :: "(char \<Rightarrow> bool) \<Rightarrow> string \<Rightarrow> nat option" where
  "find_last_if P s = map_option (\<lambda>i. length s - 1 - i) (find_if P (rev s))"

text \<open>When only the last search fails, \<^verbatim>\<open>e - b + 1\<close> wraps: to 0 for \<open>b = 0\<close>, and to a
  length beyond the end of the string otherwise.\<close>

definition trim :: "string \<Rightarrow> string" where
  "trim s = (case find_if (\<lambda>c. \<not> blank c) s of None \<Rightarrow> []
     | Some b \<Rightarrow> (case find_last_if (\<lambda>c. \<not> (blank c \<or> c = CR)) s of
           None \<Rightarrow> (if b = 0 then [] else drop b s)
         | Some e \<Rightarrow> substr s b (e - b + 1)))"

fun iequals :: "string \<Rightarrow> string \<Rightarrow> bool" where
  "iequals [] [] = True"
| "iequals (c # cs) (d # ds) = (if tolower c \<noteq> tolower d then False else iequals cs ds)"
| "iequals _ _ = False"

lemma iequals_lower: "iequals a b \<longleftrightarrow> lower a = lower b"
  by (induction a b rule: iequals.induct) (auto simp: lower_def)

definition reasonFor :: "int \<Rightarrow> string" where
  "reasonFor status =
     (if status = 200 then ''OK''
      else if status = 204 then ''No Content''
      else if status = 304 then ''Not Modified''
      else if status = 400 then ''Bad Request''
      else if status = 401 then ''Unauthorized''
      else if status = 404 then ''Not Found''
      else if status = 500 then ''Internal Server Error''
      else if status = 502 then ''Bad Gateway''
      else if status = 503 then ''Service Unavailable''
      else if status = 504 then ''Gateway Timeout''
      else ''OK'')"

section \<open>Messages\<close>

record http_request =
  req_method :: string
  req_target :: string
  req_version :: string
  req_headers :: headers
  req_body :: string
  req_path :: string
  req_query :: string

record http_response =
  resp_status :: int
  resp_reason :: string
  resp_version :: string
  resp_headers :: headers
  resp_body :: string

definition empty_request :: http_request where
  "empty_request = \<lparr>req_method = [], req_target = [], req_version = ''HTTP/1.1'',
     req_headers = [], req_body = [], req_path = [], req_query = []\<rparr>"

definition empty_response :: http_response where
  "empty_response = \<lparr>resp_status = 200, resp_reason = ''OK'', resp_version = ''HTTP/1.1'',
     resp_headers = [], resp_body = []\<rparr>"

definition header_or :: "headers \<Rightarrow> string \<Rightarrow> string \<Rightarrow> string" where
  "header_or h name d = (case hfind h name of None \<Rightarrow> d | Some v \<Rightarrow> v)"

definition req_header :: "http_request \<Rightarrow> string \<Rightarrow> string \<Rightarrow> string" where
  "req_header r name d = header_or (req_headers r) name d"

definition resp_header :: "http_response \<Rightarrow> string \<Rightarrow> string \<Rightarrow> string" where
  "resp_header r name d = header_or (resp_headers r) name d"

definition keepAlive :: "http_request \<Rightarrow> bool" where
  "keepAlive r = (let conn = req_header r ''Connection'' [] in
     if req_version r = ''HTTP/1.0'' then iequals (trim conn) ''keep-alive''
     else \<not> iequals (trim conn) ''close'')"

definition isCacheableMethod :: "http_request \<Rightarrow> bool" where
  "isCacheableMethod r = (req_method r = ''GET'' \<or> req_method r = ''HEAD'')"

section \<open>Writing a response\<close>

definition framing_header :: "string \<Rightarrow> bool" where
  "framing_header n = (iequals n ''Connection'' \<or> iequals n ''Content-Length'' \<or>
     iequals n ''Transfer-Encoding'')"

fun header_lines :: "headers \<Rightarrow> string" where
  "header_lines [] = []"
| "header_lines (kv # h) =
     (if framing_header (fst kv) then header_lines h
      else fst kv @ '': '' @ snd kv @ crlf @ header_lines h)"

definition serialize :: "http_response \<Rightarrow> bool \<Rightarrow> string" where
  "serialize r keep =
     resp_version r @ '' '' @ show_int (resp_status r) @ '' '' @
     (if resp_reason r = [] then reasonFor (resp_status r) else resp_reason r) @ crlf @
     header_lines (resp_headers r) @
     ''Content-Length: '' @ show_nat (length (resp_body r)) @ crlf @
     ''Connection: '' @ (if keep then ''keep-alive'' else ''close'') @ crlf @
     crlf @ resp_body r"

definition simple :: "int \<Rightarrow> string \<Rightarrow> string \<Rightarrow> string \<Rightarrow> http_response" where
  "simple status reason body contentType =
     empty_response\<lparr>resp_status := status,
       resp_reason := (if reason = [] then reasonFor status else reason),
       resp_headers := hset [] ''Content-Type'' contentType,
       resp_body := body\<rparr>"

section \<open>Parsing a request\<close>

datatype parse_result = NeedMore | Complete http_request | ParseError

definition strip_cr :: "string \<Rightarrow> string" where
  "strip_cr l = (if l \<noteq> [] \<and> last l = CR then butlast l else l)"

definition request_line :: "string \<Rightarrow> http_request option" where
  "request_line l =
     (case next_token l of None \<Rightarrow> None | Some (m, r1) \<Rightarrow>
       (case next_token r1 of None \<Rightarrow> None | Some (t, r2) \<Rightarrow>
         (case next_token r2 of None \<Rightarrow> None | Some (v, _) \<Rightarrow>
            Some (empty_request\<lparr>req_method := m, req_target := t, req_version := v\<rparr>))))"

function headers_loop :: "headers \<Rightarrow> string \<Rightarrow> headers" where
  "headers_loop h s =
     (case getline LF s of None \<Rightarrow> h
      | Some (l, r) \<Rightarrow>
         (let line = strip_cr l in
          if line = [] then h
          else (case find_char CHR '':'' line of None \<Rightarrow> headers_loop h r
            | Some colon \<Rightarrow>
               (let name = trim (take colon line); value = trim (drop (colon + 1) line)
                in headers_loop (if name \<noteq> [] then hset h name value else h) r))))"
  by pat_completeness auto
termination
  by (relation "measure (\<lambda>(h, s). length s)") (auto dest: getline_length)

declare headers_loop.simps [simp del]

definition content_length :: "headers \<Rightarrow> u64 option" where
  "content_length h = (case hfind h ''Content-Length'' of None \<Rightarrow> Some 0 | Some v \<Rightarrow> stoull v)"

definition split_target :: "http_request \<Rightarrow> http_request" where
  "split_target r = (case find_char CHR ''?'' (req_target r) of
       None \<Rightarrow> r\<lparr>req_path := req_target r, req_query := []\<rparr>
     | Some q \<Rightarrow> r\<lparr>req_path := take q (req_target r), req_query := drop (q + 1) (req_target r)\<rparr>)"

definition max_header :: nat where "max_header = 64 * 1024"

definition parse :: "string \<Rightarrow> parse_result \<times> string" where
  "parse buf =
     (case find_sub (crlf @ crlf) buf of
        None \<Rightarrow> (if max_header < length buf then ParseError else NeedMore, buf)
      | Some headerEnd \<Rightarrow>
         (case getline LF (take headerEnd buf) of None \<Rightarrow> (ParseError, buf)
          | Some (line, rest) \<Rightarrow>
             (case request_line (strip_cr line) of None \<Rightarrow> (ParseError, buf)
              | Some req \<Rightarrow>
                 (let h = headers_loop [] rest in
                  if hfind h ''Transfer-Encoding'' \<noteq> None then (ParseError, buf)
                  else (case content_length h of None \<Rightarrow> (ParseError, buf)
                    | Some bodyLen \<Rightarrow>
                       (let total = of_nat headerEnd + 4 + bodyLen :: u64 in
                        if (of_nat (length buf) :: u64) < total then (NeedMore, buf)
                        else (Complete (split_target (req\<lparr>req_headers := h,
                                req_body := substr buf (headerEnd + 4) (unat bodyLen)\<rparr>)),
                              drop (unat total) buf)))))))"

definition feed :: "string \<Rightarrow> string \<Rightarrow> string" where
  "feed buf data = buf @ data"

section \<open>Where the header block ends\<close>

lemma find_sub_append: "find_sub n s = Some p \<Longrightarrow> find_sub n (s @ t) = Some p"
proof (induction n s arbitrary: p rule: find_sub.induct)
  case (1 n)
  then show ?case by (cases t) (auto split: if_splits)
next
  case (2 n c cs)
  show ?case
  proof (cases "prefix n (c # cs)")
    case True
    then have "prefix n ((c # cs) @ t)" by (rule prefix_prefix)
    with True 2 show ?thesis by (simp del: prefix_Cons)
  next
    case False
    with 2 obtain q where q: "find_sub n cs = Some q" "p = Suc q" by auto
    then have "length n \<le> length (c # cs)" using find_sub_le by fastforce
    moreover have "prefix (c # cs) (c # cs @ t)" by simp
    ultimately have "\<not> prefix n (c # cs @ t)"
      using False prefix_length_prefix by blast
    with 2 False q show ?thesis by (simp del: prefix_Cons)
  qed
qed

lemma crlf_crlf: "crlf @ crlf = [CR, LF, CR, LF]"
  by (simp add: crlf_def)

lemma find_end_skip:
  "LF \<notin> set l \<Longrightarrow> \<not> prefix crlf t \<Longrightarrow>
     find_sub (crlf @ crlf) (l @ crlf @ t) = map_option ((+) (length l + 2)) (find_sub (crlf @ crlf) t)"
proof (induction l)
  case Nil
  then show ?case
    by (auto simp: crlf_def option.map_comp comp_def)
next
  case (Cons c l)
  then have "\<not> prefix (crlf @ crlf) (c # l @ crlf @ t)"
    by (cases l) (auto simp: crlf_def)
  with Cons show ?case
    by (simp add: option.map_comp comp_def)
qed

lemma find_end_here:
  "LF \<notin> set l \<Longrightarrow> find_sub (crlf @ crlf) (l @ crlf @ crlf @ t) = Some (length l)"
proof (induction l)
  case Nil
  then show ?case by (simp add: crlf_def)
next
  case (Cons c l)
  then have "\<not> prefix (crlf @ crlf) (c # l @ crlf @ crlf @ t)"
    by (cases l) (auto simp: crlf_def)
  with Cons show ?case by simp
qed

text \<open>The lines of a header block, each ended by CR LF; the block ends at the empty line.\<close>

definition line_block :: "string list \<Rightarrow> string" where
  "line_block ls = concat (map (\<lambda>l. l @ crlf) ls)"

lemma line_block_simps [simp]:
  "line_block [] = []" "line_block (l # ls) = l @ crlf @ line_block ls"
  by (simp_all add: line_block_def)

definition plain_line :: "string \<Rightarrow> bool" where
  "plain_line l = (l \<noteq> [] \<and> LF \<notin> set l)"

lemma plain_line_not_crlf: "plain_line l \<Longrightarrow> \<not> prefix crlf (l @ crlf @ t)"
  by (cases l rule: remdups_adj.cases) (auto simp: plain_line_def crlf_def)

lemma find_end_block:
  "\<forall>l \<in> set (l0 # ls). plain_line l \<Longrightarrow>
     find_sub (crlf @ crlf) (line_block (l0 # ls) @ crlf @ t) = Some (length (line_block (l0 # ls)) - 2)"
proof (induction ls arbitrary: l0)
  case Nil
  then show ?case
    using find_end_here [of l0 t] by (simp add: plain_line_def crlf_def)
next
  case (Cons l ls)
  then have "find_sub (crlf @ crlf) (l0 @ crlf @ (line_block (l # ls) @ crlf @ t)) =
      map_option ((+) (length l0 + 2)) (find_sub (crlf @ crlf) (line_block (l # ls) @ crlf @ t))"
    using plain_line_not_crlf [of l] by (intro find_end_skip) (auto simp: plain_line_def)
  with Cons.IH [of l] Cons.prems show ?case
    by (simp add: crlf_def)
qed

section \<open>What the parser reads\<close>

lemma strip_cr_snoc [simp]: "strip_cr (l @ [CR]) = l"
  by (simp add: strip_cr_def)

lemma getline_line_block:
  "plain_line l \<Longrightarrow> getline LF (line_block (l # ls) @ t) = Some (l @ [CR], line_block ls @ t)"
  using getline_append [of LF "l @ [CR]" "line_block ls @ t"] by (simp add: plain_line_def crlf_def)

lemma getline_last:
  assumes "LF \<notin> set l" "l \<noteq> []"
  shows "getline LF l = Some (l, [])"
proof -
  from assms(1) have t: "takeWhile (\<lambda>c. c \<noteq> LF) l = l" and d: "dropWhile (\<lambda>c. c \<noteq> LF) l = []"
    by (auto simp: takeWhile_eq_all_conv dropWhile_eq_Nil_conv)
  show ?thesis
    unfolding getline_def t d using assms(2) by simp
qed

lemma parse_CompleteD:
  assumes "parse buf = (Complete r, rest)"
  obtains e line tl0 r0 n where
    "find_sub (crlf @ crlf) buf = Some e" "getline LF (take e buf) = Some (line, tl0)"
    "request_line (strip_cr line) = Some r0" "req_headers r = headers_loop [] tl0"
    "hfind (req_headers r) ''Transfer-Encoding'' = None"
    "content_length (req_headers r) = Some n"
    "of_nat e + 4 + n \<le> (of_nat (length buf) :: u64)"
    "r = split_target (r0\<lparr>req_headers := headers_loop [] tl0, req_body := substr buf (e + 4) (unat n)\<rparr>)"
    "rest = drop (unat (of_nat e + 4 + n :: u64)) buf"
proof -
  have keep [simp]: "req_headers (split_target q) = req_headers q" for q
    by (simp add: split_target_def split: option.splits)
  show thesis
    using assms that
    by (auto simp: parse_def Let_def linorder_not_less split: option.splits prod.splits if_splits)
qed

subsection \<open>Feeding more bytes\<close>

text \<open>A request whose announced body was really present stays the same when bytes follow.\<close>

lemma parse_append:
  assumes p: "parse buf = (Complete r, rest)"
    and cl: "content_length (req_headers r) = Some n" "length (req_body r) = unat n"
    and bound: "length (buf @ ext) < 2 ^ 64"
  shows "parse (buf @ ext) = (Complete r, rest @ ext)"
    and "length rest < length buf"
proof -
  obtain e line tl0 r0 n' where *:
    "find_sub (crlf @ crlf) buf = Some e" "getline LF (take e buf) = Some (line, tl0)"
    "request_line (strip_cr line) = Some r0" "req_headers r = headers_loop [] tl0"
    "hfind (req_headers r) ''Transfer-Encoding'' = None"
    "content_length (req_headers r) = Some n'"
    "of_nat e + 4 + n' \<le> (of_nat (length buf) :: u64)"
    "r = split_target (r0\<lparr>req_headers := headers_loop [] tl0, req_body := substr buf (e + 4) (unat n')\<rparr>)"
    "rest = drop (unat (of_nat e + 4 + n' :: u64)) buf"
    using p by (rule parse_CompleteD)
  have n': "n' = n" using * cl by simp
  have body: "req_body r = substr buf (e + 4) (unat n)"
    using * n' by (simp add: split_target_def split: option.splits)
  have e4: "e + 4 \<le> length buf"
    using find_sub_le [OF *(1)] by (simp add: crlf_def)
  have fits: "e + 4 + unat n \<le> length buf"
    using body cl(2) e4 by (simp add: substr_def min_def split: if_splits)
  have total: "unat (of_nat e + 4 + n :: u64) = e + 4 + unat n"
  proof -
    have "of_nat e + 4 + n = (of_nat (e + 4 + unat n) :: u64)" by simp
    moreover have "e + 4 + unat n < 2 ^ 64" using fits bound by simp
    ultimately show ?thesis by (metis unat_of_nat_u64)
  qed
  have le: "of_nat e + 4 + n \<le> (of_nat (length buf + length ext) :: u64)"
    using fits bound total unat_of_nat_u64 [of "length buf + length ext"]
    by (simp add: word_le_nat_alt del: of_nat_add)
  have "find_sub (crlf @ crlf) (buf @ ext) = Some e" "take e (buf @ ext) = take e buf"
    using *(1) e4 by (auto intro: find_sub_append)
  moreover have "substr (buf @ ext) (e + 4) (unat n) = substr buf (e + 4) (unat n)"
    using fits by (simp add: substr_def)
  ultimately show "parse (buf @ ext) = (Complete r, rest @ ext)"
    using * n' le total fits by (simp add: parse_def Let_def linorder_not_less del: of_nat_add)
  show "length rest < length buf"
    using * n' total e4 by (simp add: substr_def)
qed

subsection \<open>Reading back a written request\<close>

definition clean :: "string \<Rightarrow> bool" where
  "clean x = (x = [] \<or> (\<not> blank (hd x) \<and> \<not> blank (last x) \<and> last x \<noteq> CR))"

definition token :: "string \<Rightarrow> bool" where
  "token t = (t \<noteq> [] \<and> (\<forall>c \<in> set t. \<not> isspace c))"

definition header_ok :: "string \<times> string \<Rightarrow> bool" where
  "header_ok kv = (fst kv \<noteq> [] \<and> CHR '':'' \<notin> set (fst kv) \<and> LF \<notin> set (fst kv) \<and> LF \<notin> set (snd kv)
     \<and> clean (fst kv) \<and> clean (snd kv))"

definition header_line :: "string \<times> string \<Rightarrow> string" where
  "header_line kv = fst kv @ '': '' @ snd kv"

fun join_lines :: "string list \<Rightarrow> string" where
  "join_lines [] = []"
| "join_lines [l] = l"
| "join_lines (l # l' # ls) = l @ crlf @ join_lines (l' # ls)"

definition wire_request :: "string \<Rightarrow> string \<Rightarrow> string \<Rightarrow> headers \<Rightarrow> string \<Rightarrow> string" where
  "wire_request m t v hs body =
     line_block ((m @ '' '' @ t @ '' '' @ v) # map header_line hs) @ crlf @ body"

lemma blank_space [simp]: "blank (CHR '' '')"
  by (simp add: blank_def)

lemma find_last_if_last: "x \<noteq> [] \<Longrightarrow> P (last x) \<Longrightarrow> find_last_if P x = Some (length x - 1)"
  by (cases x rule: rev_cases) (auto simp: find_last_if_def find_if_def Let_def)

lemma trim_clean: "clean x \<Longrightarrow> trim x = x"
proof (cases "x = []")
  case True
  then show ?thesis by (simp add: trim_def find_if_def)
next
  case False
  assume "clean x"
  with False have h: "\<not> blank (hd x)" and l: "\<not> blank (last x)" "last x \<noteq> CR"
    by (auto simp: clean_def)
  have "find_if (\<lambda>c. \<not> blank c) x = Some 0"
    using False h by (cases x) (auto simp: find_if_def)
  moreover have "find_last_if (\<lambda>c. \<not> (blank c \<or> c = CR)) x = Some (length x - 1)"
    using False l by (intro find_last_if_last) auto
  ultimately show ?thesis
    using False by (simp add: trim_def substr_def)
qed

lemma trim_space: "clean x \<Longrightarrow> trim (CHR '' '' # x) = x"
proof (cases "x = []")
  case True
  then show ?thesis by (simp add: trim_def find_if_def)
next
  case False
  assume "clean x"
  with False have h: "\<not> blank (hd x)" and l: "\<not> blank (last x)" "last x \<noteq> CR"
    by (auto simp: clean_def)
  have "find_if (\<lambda>c. \<not> blank c) (CHR '' '' # x) = Some 1"
    using False h by (cases x) (auto simp: find_if_def)
  moreover have "find_last_if (\<lambda>c. \<not> (blank c \<or> c = CR)) (CHR '' '' # x) = Some (length x)"
    using False l find_last_if_last [of "CHR '' '' # x"] by simp
  ultimately show ?thesis
    using False by (simp add: trim_def substr_def)
qed

lemma header_line_parts:
  assumes "header_ok kv"
  shows "plain_line (header_line kv)" "strip_cr (header_line kv) = header_line kv"
    "find_char CHR '':'' (header_line kv) = Some (length (fst kv))"
    "trim (take (length (fst kv)) (header_line kv)) = fst kv"
    "trim (drop (length (fst kv) + 1) (header_line kv)) = snd kv"
proof -
  show "plain_line (header_line kv)"
    using assms by (auto simp: plain_line_def header_line_def header_ok_def)
  show "strip_cr (header_line kv) = header_line kv"
    using assms by (auto simp: strip_cr_def header_line_def header_ok_def clean_def last_append)
  show "find_char CHR '':'' (header_line kv) = Some (length (fst kv))"
    using assms find_char_append [of "CHR '':''" "fst kv" "CHR '' '' # snd kv"]
    by (simp add: header_line_def header_ok_def)
  show "trim (take (length (fst kv)) (header_line kv)) = fst kv"
    using assms by (simp add: header_line_def header_ok_def trim_clean)
  show "trim (drop (length (fst kv) + 1) (header_line kv)) = snd kv"
    using assms by (simp add: header_line_def header_ok_def trim_space)
qed

lemma take_line_block:
  "take (length (line_block (l # ls)) - 2) (line_block (l # ls) @ t) = join_lines (l # ls)"
proof (induction ls arbitrary: l)
  case Nil
  then show ?case by (simp add: crlf_def)
next
  case (Cons l' ls)
  have "length (line_block (l # l' # ls)) - 2 = length (l @ crlf) + (length (line_block (l' # ls)) - 2)"
    by (simp add: crlf_def)
  then show ?case
    using Cons.IH [of l'] by (simp add: crlf_def)
qed

lemma getline_join:
  assumes "plain_line l"
  shows "getline LF (join_lines (l # ls)) =
    (case ls of [] \<Rightarrow> Some (l, []) | _ \<Rightarrow> Some (l @ [CR], join_lines ls))"
proof (cases ls)
  case Nil
  with assms show ?thesis by (simp add: getline_last plain_line_def)
next
  case (Cons a as)
  with assms getline_append [of LF "l @ [CR]" "join_lines ls"] show ?thesis
    by (simp add: plain_line_def crlf_def)
qed

lemma getline_Nil [simp]: "getline d [] = None"
  by (simp add: getline_def)

lemma headers_loop_lines:
  "\<forall>kv \<in> set hs. header_ok kv \<Longrightarrow> headers_loop h (join_lines (map header_line hs)) = omap_sets ci_less h hs"
proof (induction hs arbitrary: h)
  case Nil
  then show ?case by (simp add: headers_loop.simps)
next
  case (Cons kv hs)
  then have ok: "header_ok kv" by simp
  note p = header_line_parts [OF ok]
  have ne: "fst kv \<noteq> []" "header_line kv \<noteq> []"
    using ok by (auto simp: header_ok_def header_line_def)
  obtain r where r: "r = header_line kv \<or> r = header_line kv @ [CR]"
    and g: "getline LF (join_lines (map header_line (kv # hs))) = Some (r, join_lines (map header_line hs))"
    using getline_join [OF p(1), of "map header_line hs"] by (cases hs) auto
  from r p(2) have "strip_cr r = header_line kv" by auto
  with g p ne Cons show ?case
    by (subst headers_loop.simps) (simp add: Let_def)
qed

lemma next_token_here: "token t \<Longrightarrow> next_token (t @ CHR '' '' # r) = Some (t, CHR '' '' # r)"
  by (cases t) (auto simp: token_def next_token_def Let_def isspace_def takeWhile_append dropWhile_append)

lemma next_token_skip: "next_token (CHR '' '' # s) = next_token s"
  by (simp add: next_token_def isspace_def)

lemma next_token_all:
  assumes "token t"
  shows "next_token t = Some (t, [])"
proof -
  have "dropWhile isspace t = t" "takeWhile (\<lambda>c. \<not> isspace c) t = t" "t \<noteq> []"
    using assms by (cases t; auto simp: token_def takeWhile_eq_all_conv)+
  moreover have "dropWhile (\<lambda>c. \<not> isspace c) t = []"
    using assms by (auto simp: token_def dropWhile_eq_Nil_conv)
  ultimately show ?thesis unfolding next_token_def Let_def by metis
qed

lemma request_line_tokens:
  "token m \<Longrightarrow> token t \<Longrightarrow> token v \<Longrightarrow>
     request_line (m @ '' '' @ t @ '' '' @ v) =
       Some (empty_request\<lparr>req_method := m, req_target := t, req_version := v\<rparr>)"
  by (simp add: request_line_def next_token_here next_token_skip next_token_all)

lemma token_not: "token t \<Longrightarrow> LF \<notin> set t \<and> CR \<notin> set t"
  by (auto simp: token_def isspace_def LF_def CR_def)

lemma token_line:
  assumes "token m" "token t" "token v"
  shows "plain_line (m @ '' '' @ t @ '' '' @ v)" "strip_cr (m @ '' '' @ t @ '' '' @ v) = m @ '' '' @ t @ '' '' @ v"
proof -
  have ne: "v \<noteq> []" using assms(3) by (simp add: token_def)
  moreover have "last v \<noteq> CR"
    using token_not [OF assms(3)] last_in_set [OF ne] by metis
  ultimately have "last v \<noteq> CR" "v \<noteq> []" by simp_all
  then show "strip_cr (m @ '' '' @ t @ '' '' @ v) = m @ '' '' @ t @ '' '' @ v"
    by (simp add: strip_cr_def)
  show "plain_line (m @ '' '' @ t @ '' '' @ v)"
    using assms [THEN token_not] by (simp add: plain_line_def)
qed

text \<open>The announced length of a header list, as the parser will see it.\<close>

lemma parse_wire_request:
  assumes tok: "token m" "token t" "token v"
    and hs: "\<forall>kv \<in> set hs. header_ok kv"
    and te: "hfind (omap_sets ci_less [] hs) ''Transfer-Encoding'' = None"
    and cl: "content_length (omap_sets ci_less [] hs) = Some n" "length body = unat n"
    and bound: "length (wire_request m t v hs body @ rest) < 2 ^ 64"
  shows "parse (wire_request m t v hs body @ rest) =
    (Complete (split_target (empty_request\<lparr>req_method := m, req_target := t, req_version := v,
       req_headers := omap_sets ci_less [] hs, req_body := body\<rparr>)), rest)"
proof -
  let ?l0 = "m @ '' '' @ t @ '' '' @ v"
  let ?ls = "?l0 # map header_line hs"
  let ?buf = "wire_request m t v hs body @ rest"
  let ?e = "length (line_block ?ls) - 2"
  have buf: "?buf = line_block ?ls @ crlf @ (body @ rest)"
    by (simp add: wire_request_def)
  have "\<forall>l \<in> set ?ls. plain_line l"
    using token_line(1) [OF tok] hs by (auto intro: header_line_parts)
  then have e: "find_sub (crlf @ crlf) ?buf = Some ?e"
    unfolding buf by (intro find_end_block) simp
  have len: "length (line_block ?ls) = ?e + 2"
    by (simp add: crlf_def)
  have tk: "take ?e ?buf = join_lines ?ls"
    unfolding buf by (rule take_line_block)
  obtain r where r: "r = ?l0 \<or> r = ?l0 @ [CR]"
    and g: "getline LF (join_lines ?ls) = Some (r, join_lines (map header_line hs))"
    using getline_join [OF token_line(1) [OF tok], of "map header_line hs"] by (cases hs) auto
  have rl: "request_line (strip_cr r) = Some (empty_request\<lparr>req_method := m, req_target := t, req_version := v\<rparr>)"
  proof -
    have "strip_cr r = ?l0" using r token_line(2) [OF tok] strip_cr_snoc [of ?l0] by metis
    then show ?thesis using request_line_tokens [OF tok] by simp
  qed
  have hl: "headers_loop [] (join_lines (map header_line hs)) = omap_sets ci_less [] hs"
    using hs by (rule headers_loop_lines)
  have tot: "unat (of_nat ?e + 4 + n :: u64) = ?e + 4 + length body"
  proof -
    have "of_nat ?e + 4 + n = (of_nat (?e + 4 + length body) :: u64)"
      using cl(2) by simp
    moreover have "?e + 4 + length body < 2 ^ 64"
      using bound len unfolding buf by (simp add: crlf_def)
    ultimately show ?thesis by (metis unat_of_nat_u64)
  qed
  have fit: "\<not> of_nat (length ?buf) < (of_nat ?e + 4 + n :: u64)"
    using unat_of_nat_u64 [OF bound] tot len
    by (simp add: word_less_nat_alt buf crlf_def del: of_nat_add)
  have d: "drop (?e + 4) ?buf = body @ rest"
  proof -
    have "?buf = (line_block ?ls @ crlf) @ (body @ rest)" "length (line_block ?ls @ crlf) = ?e + 4"
      using len unfolding buf by (simp_all add: crlf_def)
    then show ?thesis by (metis append_eq_conv_conj)
  qed
  have "substr ?buf (?e + 4) (unat n) = body"
    using cl(2) by (simp only: substr_def d) simp
  moreover have "drop (?e + 4 + length body) ?buf = rest"
    using d by (metis add.commute append_eq_conv_conj drop_drop)
  ultimately show ?thesis
    using e g rl hl te cl fit tot
    by (simp only: parse_def tk option.case prod.case Let_def if_False not_False_eq_True if_True simp_thms)
qed

section \<open>Properties\<close>

lemma split_target_fields:
  "req_method (split_target q) = req_method q" "req_headers (split_target q) = req_headers q"
  "req_body (split_target q) = req_body q" "req_target (split_target q) = req_target q"
  "req_version (split_target q) = req_version q"
  by (simp_all add: split_target_def split: option.splits)

lemma split_target_join:
  "req_target q = req_path (split_target q) \<or>
   req_target q = req_path (split_target q) @ CHR ''?'' # req_query (split_target q)"
  by (auto simp: split_target_def split: option.splits elim: find_char_SomeE)



text \<open>The parser is incremental: once a request whose announced body has arrived is
  complete, feeding further bytes before or after the call gives the same request and only
  extends what is left in the buffer.\<close>

lemma parse_incremental:
  assumes "parse buf = (Complete r, rest)"
    and "content_length (req_headers r) = Some n" "length (req_body r) = unat n"
    and "length (feed buf data) < 2 ^ 64"
  shows "parse (feed buf data) = (Complete r, feed rest data) \<and> length rest < length buf"
  using parse_append [OF assms(1-3), of data] assms(4) by (simp add: feed_def)

lemma parse_incremental_witness:
  "parse (feed (''GET / HTTP/1.1'' @ crlf @ crlf) ''GET'') =
     (Complete \<lparr>req_method = ''GET'', req_target = ''/'', req_version = ''HTTP/1.1'',
        req_headers = [], req_body = [], req_path = ''/'', req_query = []\<rparr>, feed [] ''GET'')"
proof -
  have "parse (''GET / HTTP/1.1'' @ crlf @ crlf) =
     (Complete \<lparr>req_method = ''GET'', req_target = ''/'', req_version = ''HTTP/1.1'',
        req_headers = [], req_body = [], req_path = ''/'', req_query = []\<rparr>, [])"
    by code_simp
  from parse_incremental [OF this, of 0 "''GET''"] show ?thesis
    by (simp add: content_length_def feed_def crlf_def)
qed

text \<open>The sum of the header size and the announced body length is computed modulo
  $2^{64}$ (\<^verbatim>\<open>std::stoull\<close> accepts a minus sign), so a request that announces a length of
  minus the size of its own header is complete without taking a single byte from the buffer.\<close>

lemma parse_wrapped_length_consumes_nothing:
  assumes "parse buf = (Complete r, rest)" "find_sub (crlf @ crlf) buf = Some e"
    and "content_length (req_headers r) = Some (- of_nat (e + 4))"
  shows "rest = buf"
proof -
  from assms(1) obtain e' n where "find_sub (crlf @ crlf) buf = Some e'"
    "content_length (req_headers r) = Some n" "rest = drop (unat (of_nat e' + 4 + n :: u64)) buf"
    by (elim parse_CompleteD)
  with assms(2,3) show ?thesis by simp
qed

definition stuck_request :: string where
  "stuck_request = ''GET / HTTP/1.1'' @ crlf @ ''Content-Length: -39'' @ crlf @ crlf"

definition stuck_parsed :: http_request where
  "stuck_parsed = \<lparr>req_method = ''GET'', req_target = ''/'', req_version = ''HTTP/1.1'',
     req_headers = [(''Content-Length'', ''-39'')], req_body = [], req_path = ''/'', req_query = []\<rparr>"

lemma stuck_parse: "fst (parse stuck_request) = Complete stuck_parsed"
  by code_simp

lemma parse_wrapped_length_witness: "parse stuck_request = (Complete stuck_parsed, stuck_request)"
proof -
  obtain rest where r: "parse stuck_request = (Complete stuck_parsed, rest)"
    using stuck_parse by (metis prod.collapse)
  have "find_sub (crlf @ crlf) stuck_request = Some 35" by code_simp
  moreover have "content_length (req_headers stuck_parsed) = Some (- of_nat (35 + 4))" by code_simp
  ultimately show ?thesis
    using r parse_wrapped_length_consumes_nothing [OF r] by simp
qed

end
