(* ===== verification/CacheKey.thy ===== *)
theory CacheKey
  imports Http
begin

text \<open>
  \<^verbatim>\<open>proxy/src/cache/CacheKey\<close>, the purge matcher of \<^verbatim>\<open>cache/LRUCache.cpp\<close>, and its
  TypeScript mirror \<^verbatim>\<open>l2PathMatches\<close> of the control plane. The properties: two requests
  share a cache key exactly when method, host, path and the multiset of query parameters agree,
  and a purge pattern is decided by the path alone.
\<close>

section \<open>Computing a key\<close>

function query_params :: "string \<Rightarrow> string list" where
  "query_params s = (case getline CHR ''&'' s of None \<Rightarrow> []
     | Some (cur, r) \<Rightarrow> (if cur \<noteq> [] then cur # query_params r else query_params r))"
  by pat_completeness auto
termination
  by (relation "measure length") (auto dest: getline_length)

declare query_params.simps [simp del]

fun join_amp :: "string list \<Rightarrow> string" where
  "join_amp [] = []"
| "join_amp [p] = p"
| "join_amp (p # p' # ps) = p @ CHR ''&'' # join_amp (p' # ps)"

definition normalizeQuery :: "string \<Rightarrow> string" where
  "normalizeQuery q = (if q = [] then [] else join_amp (sort (query_params q)))"

definition fromRequest :: "http_request \<Rightarrow> string \<Rightarrow> string" where
  "fromRequest req host =
     (let q = normalizeQuery (req_query req);
          v = req_method req @ ''|'' @ host @ ''|'' @ req_path req
      in if q \<noteq> [] then v @ ''?'' @ q else v)"

section \<open>Matching a purge pattern\<close>

definition pathOfKey :: "string \<Rightarrow> string" where
  "pathOfKey key =
     (case find_char CHR ''|'' key of None \<Rightarrow> key
      | Some p1 \<Rightarrow> (case find_char CHR ''|'' (drop (p1 + 1) key) of None \<Rightarrow> key
          | Some p2 \<Rightarrow> (let start = p1 + 1 + p2 + 1 in
              (case find_char CHR ''?'' (drop start key) of None \<Rightarrow> drop start key
               | Some q \<Rightarrow> substr key start q))))"

definition purgeMatches :: "string \<Rightarrow> string \<Rightarrow> bool" where
  "purgeMatches pattern key =
     (let path = pathOfKey key in
      if pattern = ''*'' \<or> pattern = ''/*'' then True
      else if pattern \<noteq> [] \<and> last pattern = CHR ''*''
      then substr path 0 (length pattern - 1) = substr pattern 0 (length pattern - 1)
      else path = pattern)"

text \<open>The control plane deletes the shared tier's keys with its own copy of the matcher.\<close>

definition l2PathMatches :: "string \<Rightarrow> string \<Rightarrow> string \<Rightarrow> bool" where
  "l2PathMatches l2Prefix key pattern =
     (let rest = drop (length l2Prefix) key;
          path0 = (case find_char CHR ''|'' rest of None \<Rightarrow> rest
             | Some first \<Rightarrow> (case find_char CHR ''|'' (drop (first + 1) rest) of None \<Rightarrow> rest
                 | Some second \<Rightarrow> drop (first + 1 + second + 1) rest));
          path = (case find_char CHR ''?'' path0 of None \<Rightarrow> path0 | Some q \<Rightarrow> take q path0)
      in if pattern = ''*'' \<or> pattern = ''/*'' then True
         else if pattern \<noteq> [] \<and> last pattern = CHR ''*'' then prefix (butlast pattern) path
         else path = pattern)"

section \<open>What a pattern promises\<close>

text \<open>The abstract meaning of a pattern, the same for purges and for override rules.\<close>

definition wild_spec :: "string \<Rightarrow> string \<Rightarrow> bool" where
  "wild_spec pattern path = (pattern = ''*'' \<or> pattern = ''/*'' \<or> pattern = path \<or>
     (\<exists>pre post. pattern = pre @ ''*'' \<and> path = pre @ post))"

lemma substr_0 [simp]: "substr s 0 n = take n s"
  by (simp add: substr_def)

lemma take_eq_prefix: "take n s = take n p \<longleftrightarrow> prefix p s" if "length p = n"
  using that by (metis append_eq_conv_conj prefix_def append_take_drop_id take_all order_refl)

lemma wild_code:
  "(if pattern = ''*'' \<or> pattern = ''/*'' then True
    else if pattern \<noteq> [] \<and> last pattern = CHR ''*''
    then take (length pattern - 1) path = take (length pattern - 1) pattern
    else path = pattern) \<longleftrightarrow> wild_spec pattern path"
proof (cases "pattern \<noteq> [] \<and> last pattern = CHR ''*''")
  case True
  then obtain pre where p: "pattern = pre @ ''*''"
    by (metis append_butlast_last_id)
  have "take (length pattern - 1) path = take (length pattern - 1) pattern \<longleftrightarrow> prefix pre path"
    using take_eq_prefix [of pre "length pre" path] by (simp add: p)
  moreover have "wild_spec pattern path \<longleftrightarrow> pattern = ''*'' \<or> pattern = ''/*'' \<or> prefix pre path"
    by (auto simp: wild_spec_def p prefix_def)
  ultimately show ?thesis using True by auto
next
  case False
  then have "\<not> (\<exists>pre post. pattern = pre @ ''*'' \<and> path = pre @ post)" by auto
  with False show ?thesis by (auto simp: wild_spec_def)
qed

lemma purgeMatches_spec: "purgeMatches pattern key \<longleftrightarrow> wild_spec pattern (pathOfKey key)"
  by (simp only: purgeMatches_def Let_def substr_0 wild_code)

section \<open>Queries\<close>

definition param :: "string \<Rightarrow> bool" where
  "param p = (p \<noteq> [] \<and> CHR ''&'' \<notin> set p)"

lemma getline_params:
  "getline d s = Some (l, r) \<Longrightarrow> d \<notin> set l"
  by (auto simp: getline_def dest: set_takeWhileD split: if_splits)

lemma query_params_param: "\<forall>p \<in> set (query_params s). param p"
proof (induction s rule: query_params.induct)
  case (1 s)
  show ?case
  proof (cases "getline CHR ''&'' s")
    case None
    then show ?thesis by (simp add: query_params.simps [of s])
  next
    case (Some lr)
    obtain l r where lr: "lr = (l, r)" by (cases lr)
    have "\<forall>p \<in> set (query_params r). param p"
      using "1.IH"(1) [OF Some lr [symmetric]] "1.IH"(2) [OF Some lr [symmetric]] by blast
    moreover have "CHR ''&'' \<notin> set l"
      using Some lr by (simp add: getline_params)
    ultimately show ?thesis
      using Some lr by (simp add: query_params.simps [of s] param_def)
  qed
qed

lemma getline_whole:
  assumes "d \<notin> set l" "l \<noteq> []"
  shows "getline d l = Some (l, [])"
proof -
  from assms(1) have t: "takeWhile (\<lambda>c. c \<noteq> d) l = l" and w: "dropWhile (\<lambda>c. c \<noteq> d) l = []"
    by (auto simp: takeWhile_eq_all_conv dropWhile_eq_Nil_conv)
  show ?thesis unfolding getline_def t w using assms(2) by simp
qed

lemma query_params_Nil [simp]: "query_params [] = []"
  by (simp add: query_params.simps)

lemma query_params_join: "\<forall>p \<in> set ps. param p \<Longrightarrow> query_params (join_amp ps) = ps"
proof (induction ps rule: join_amp.induct)
  case 1
  then show ?case by simp
next
  case (2 p)
  then show ?case
    by (subst query_params.simps) (simp add: getline_whole param_def)
next
  case (3 p p' ps)
  then show ?case
    by (subst query_params.simps) (simp add: getline_append param_def)
qed

lemma join_amp_eq_Nil: "\<forall>p \<in> set ps. param p \<Longrightarrow> join_amp ps = [] \<longleftrightarrow> ps = []"
  by (induction ps rule: join_amp.induct) (auto simp: param_def)

lemma normalizeQuery_eq: "normalizeQuery q = join_amp (sort (query_params q))"
  by (simp add: normalizeQuery_def)

lemma params_normalize: "query_params (normalizeQuery q) = sort (query_params q)"
  using query_params_join [of "sort (query_params q)"] query_params_param [of q]
  by (simp add: normalizeQuery_eq)

lemma normalizeQuery_iff:
  "normalizeQuery q = normalizeQuery q' \<longleftrightarrow> mset (query_params q) = mset (query_params q')"
proof
  assume "normalizeQuery q = normalizeQuery q'"
  then have "sort (query_params q) = sort (query_params q')" by (metis params_normalize)
  then show "mset (query_params q) = mset (query_params q')" by (metis mset_sort)
next
  assume "mset (query_params q) = mset (query_params q')"
  then have "sort (query_params q) = sort (query_params q')"
    by (metis properties_for_sort sorted_sort mset_sort)
  then show "normalizeQuery q = normalizeQuery q'" by (simp add: normalizeQuery_eq)
qed

section \<open>Keys\<close>

lemma fromRequest_eq:
  "fromRequest r host = req_method r @ CHR ''|'' # host @ CHR ''|'' # req_path r @
     (if normalizeQuery (req_query r) = [] then [] else CHR ''?'' # normalizeQuery (req_query r))"
  by (simp add: fromRequest_def Let_def)

lemma split_at_unique:
  "a @ (c :: char) # b = a' @ c # b' \<Longrightarrow> c \<notin> set a \<Longrightarrow> c \<notin> set a' \<Longrightarrow> a = a' \<and> b = b'"
proof -
  assume eq: "a @ c # b = a' @ c # b'" and "c \<notin> set a" "c \<notin> set a'"
  then have "Some (length a) = Some (length a')"
    using find_char_append [of c a b] find_char_append [of c a' b'] by simp
  with eq show "a = a' \<and> b = b'" by simp
qed

lemma split_opt_unique:
  assumes "a @ (if q = [] then [] else (c :: char) # q) = a' @ (if q' = [] then [] else c # q')"
    and "c \<notin> set a" "c \<notin> set a'"
  shows "a = a' \<and> q = q'"
  using assms split_at_unique [of a c q a' q'] by (auto split: if_splits)

lemma pathOfKey_parts:
  assumes "CHR ''|'' \<notin> set m" "CHR ''|'' \<notin> set host" "CHR ''?'' \<notin> set path"
  shows "pathOfKey (m @ CHR ''|'' # host @ CHR ''|'' # path @ (if q = [] then [] else CHR ''?'' # q)) = path"
proof -
  let ?t = "path @ (if q = [] then [] else CHR ''?'' # q)"
  have "find_char CHR ''|'' (m @ CHR ''|'' # host @ CHR ''|'' # ?t) = Some (length m)"
    "find_char CHR ''|'' (host @ CHR ''|'' # ?t) = Some (length host)"
    using find_char_append [OF assms(1)] find_char_append [OF assms(2)] by simp_all
  moreover have "find_char CHR ''?'' ?t = (if q = [] then None else Some (length path))"
    using assms(3) by (auto simp: find_char_append find_char_eq_None)
  ultimately show ?thesis
    by (auto simp: pathOfKey_def Let_def substr_def)
qed

lemma pathOfKey_fromRequest:
  "CHR ''|'' \<notin> set (req_method r) \<Longrightarrow> CHR ''|'' \<notin> set host \<Longrightarrow> CHR ''?'' \<notin> set (req_path r) \<Longrightarrow>
     pathOfKey (fromRequest r host) = req_path r"
  unfolding fromRequest_eq by (rule pathOfKey_parts)

lemma cacheable_method_no_bar: "isCacheableMethod r \<Longrightarrow> CHR ''|'' \<notin> set (req_method r)"
  by (auto simp: isCacheableMethod_def)

lemma split_target_path: "CHR ''?'' \<notin> set (req_path (split_target q))"
  by (auto simp: split_target_def find_char_eq_None split: option.splits elim: find_char_SomeE)

lemma wild_code_prefix:
  "(if pattern = ''*'' \<or> pattern = ''/*'' then True
    else if pattern \<noteq> [] \<and> last pattern = CHR ''*'' then prefix (butlast pattern) path
    else path = pattern) \<longleftrightarrow> wild_spec pattern path"
proof -
  have "prefix (butlast pattern) path \<longleftrightarrow>
      take (length pattern - 1) path = take (length pattern - 1) pattern"
    using take_eq_prefix [of "butlast pattern" "length pattern - 1" path] by (simp add: butlast_conv_take)
  then show ?thesis by (simp only: wild_code)
qed

lemma l2PathMatches_fromRequest:
  assumes "CHR ''|'' \<notin> set (req_method r)" "CHR ''|'' \<notin> set host" "CHR ''?'' \<notin> set (req_path r)"
  shows "l2PathMatches l2Prefix (l2Prefix @ fromRequest r host) pattern = wild_spec pattern (req_path r)"
proof -
  define Q where "Q = (if normalizeQuery (req_query r) = [] then [] else CHR ''?'' # normalizeQuery (req_query r))"
  define t where "t = req_path r @ Q"
  have k: "fromRequest r host = req_method r @ CHR ''|'' # host @ CHR ''|'' # t"
    by (simp add: fromRequest_eq t_def Q_def)
  have q: "(case find_char CHR ''?'' t of None \<Rightarrow> t | Some q \<Rightarrow> take q t) = req_path r"
    using assms(3) find_char_eq_None [THEN iffD2, OF assms(3)]
    by (simp add: t_def Q_def find_char_append)
  have d: "drop (length l2Prefix) (l2Prefix @ s) = s" for s
    by simp
  have p0: "(case find_char CHR ''|'' (req_method r @ CHR ''|'' # host @ CHR ''|'' # t) of
      None \<Rightarrow> req_method r @ CHR ''|'' # host @ CHR ''|'' # t
    | Some first \<Rightarrow>
        (case find_char CHR ''|'' (drop (first + 1) (req_method r @ CHR ''|'' # host @ CHR ''|'' # t)) of
           None \<Rightarrow> req_method r @ CHR ''|'' # host @ CHR ''|'' # t
         | Some second \<Rightarrow> drop (first + 1 + second + 1)
             (req_method r @ CHR ''|'' # host @ CHR ''|'' # t))) = t"
    by (simp add: find_char_append [OF assms(1)] find_char_append [OF assms(2)])
  show ?thesis
    unfolding l2PathMatches_def k Let_def d p0 q by (rule wild_code_prefix)
qed

section \<open>Properties\<close>

text \<open>C22: two requests get the same cache key exactly when their methods, paths and the
  multisets of their query parameters agree: parameter order never splits an entry, and no header,
  body or version can make two different resources share one.\<close>

theorem cache_key_identity:
  assumes "CHR ''|'' \<notin> set (req_method r)" "CHR ''|'' \<notin> set (req_method r')" "CHR ''|'' \<notin> set host"
    and "CHR ''?'' \<notin> set (req_path r)" "CHR ''?'' \<notin> set (req_path r')"
  shows "fromRequest r host = fromRequest r' host \<longleftrightarrow>
    req_method r = req_method r' \<and> req_path r = req_path r' \<and>
    mset (query_params (req_query r)) = mset (query_params (req_query r'))"
proof
  assume "fromRequest r host = fromRequest r' host"
  then have "req_method r = req_method r' \<and> host @ CHR ''|'' # req_path r @
       (if normalizeQuery (req_query r) = [] then [] else CHR ''?'' # normalizeQuery (req_query r))
     = host @ CHR ''|'' # req_path r' @
       (if normalizeQuery (req_query r') = [] then [] else CHR ''?'' # normalizeQuery (req_query r'))"
    unfolding fromRequest_eq using assms(1,2) by (rule split_at_unique)
  then have m: "req_method r = req_method r'" and
    "req_path r @ (if normalizeQuery (req_query r) = [] then [] else CHR ''?'' # normalizeQuery (req_query r))
     = req_path r' @ (if normalizeQuery (req_query r') = [] then [] else CHR ''?'' # normalizeQuery (req_query r'))"
    by auto
  then have "req_path r = req_path r' \<and> normalizeQuery (req_query r) = normalizeQuery (req_query r')"
    using assms(4,5) by (intro split_opt_unique)
  with m show "req_method r = req_method r' \<and> req_path r = req_path r' \<and>
      mset (query_params (req_query r)) = mset (query_params (req_query r'))"
    by (simp add: normalizeQuery_iff)
next
  assume "req_method r = req_method r' \<and> req_path r = req_path r' \<and>
    mset (query_params (req_query r)) = mset (query_params (req_query r'))"
  then show "fromRequest r host = fromRequest r' host"
    by (metis fromRequest_eq normalizeQuery_iff)
qed

theorem cache_key_identity_witness:
  "fromRequest (empty_request\<lparr>req_method := ''GET'', req_path := ''/p'', req_query := ''b=2&a=1''\<rparr>) ''h'' =
   fromRequest (empty_request\<lparr>req_method := ''GET'', req_path := ''/p'', req_query := ''a=1&&b=2''\<rparr>) ''h''"
proof -
  have "mset (query_params ''b=2&a=1'') = mset (query_params ''a=1&&b=2'')" by code_simp
  then show ?thesis
    by (subst cache_key_identity) (simp_all add: empty_request_def)
qed

text \<open>A purge pattern decides a key by its path alone, whatever the method, the host and the
  query: \<open>*\<close> and \<open>/*\<close> match every key, a trailing \<open>*\<close> matches the paths with that prefix and
  any other pattern exactly its own path. The control plane's copy of the matcher takes the same
  decision on the key of the shared tier, so one purge removes the same objects from both.\<close>

lemma purge_decides_by_path:
  assumes "CHR ''|'' \<notin> set (req_method r)" "CHR ''|'' \<notin> set host" "CHR ''?'' \<notin> set (req_path r)"
  shows "(purgeMatches pattern (fromRequest r host) \<longleftrightarrow>
      pattern = ''*'' \<or> pattern = ''/*'' \<or> pattern = req_path r \<or>
      (\<exists>pre post. pattern = pre @ ''*'' \<and> req_path r = pre @ post)) \<and>
    l2PathMatches l2Prefix (l2Prefix @ fromRequest r host) pattern =
      purgeMatches pattern (fromRequest r host)"
proof -
  have p: "pathOfKey (fromRequest r host) = req_path r"
    using assms by (rule pathOfKey_fromRequest)
  have "l2PathMatches l2Prefix (l2Prefix @ fromRequest r host) pattern = wild_spec pattern (req_path r)"
    using assms by (rule l2PathMatches_fromRequest)
  then show ?thesis
    by (simp add: purgeMatches_spec p) (simp add: wild_spec_def)
qed

lemma purge_decides_by_path_witness:
  "purgeMatches ''/a/*'' (fromRequest (empty_request\<lparr>req_method := ''GET'', req_path := ''/a/b'', req_query := ''x=1''\<rparr>) ''h'')"
  using purge_decides_by_path [of "empty_request\<lparr>req_method := ''GET'', req_path := ''/a/b'', req_query := ''x=1''\<rparr>" "''h''" "''/a/*''"]
  by (simp add: empty_request_def)

end
