(* ===== verification/CacheEntry.thy ===== *)
theory CacheEntry
  imports CacheKey
begin

text \<open>
  \<^verbatim>\<open>cache/CacheEntry.h\<close>: what the cache stores, its size in bytes and its two lifetimes.
  Sizes and lifetimes are \<open>64 word\<close>; an age is the truncated number of seconds between two
  readings of the steady clock, read as unsigned.
\<close>

section \<open>Entries\<close>

record cache_entry =
  ce_status :: int
  ce_reason :: string
  ce_headers :: headers
  ce_body :: string
  ce_storedAt :: time
  ce_ttl :: u64
  ce_swr :: u64
  ce_etag :: string

definition empty_entry :: cache_entry where
  "empty_entry = \<lparr>ce_status = 200, ce_reason = [], ce_headers = [], ce_body = [],
     ce_storedAt = 0, ce_ttl = 0, ce_swr = 0, ce_etag = []\<rparr>"

fun headers_bytes :: "u64 \<Rightarrow> headers \<Rightarrow> u64" where
  "headers_bytes n [] = n"
| "headers_bytes n (kv # h) =
     headers_bytes (n + (of_nat (length (fst kv)) + of_nat (length (snd kv)) + 8)) h"

definition sizeBytes :: "cache_entry \<Rightarrow> u64" where
  "sizeBytes e = headers_bytes
     (of_nat (length (ce_body e)) + of_nat (length (ce_reason e)) + of_nat (length (ce_etag e)) + 64)
     (ce_headers e)"

text \<open>The age is a signed count of seconds that the comparison reads as unsigned; the sum of the
  two lifetimes wraps.\<close>

definition isFresh :: "cache_entry \<Rightarrow> time \<Rightarrow> bool" where
  "isFresh e now = ((of_int (to_seconds (now - ce_storedAt e)) :: u64) < ce_ttl e)"

definition isServeableStale :: "cache_entry \<Rightarrow> time \<Rightarrow> bool" where
  "isServeableStale e now =
     ((of_int (to_seconds (now - ce_storedAt e)) :: u64) < ce_ttl e + ce_swr e)"

definition toResponse :: "cache_entry \<Rightarrow> http_response" where
  "toResponse e = empty_response\<lparr>resp_status := ce_status e, resp_reason := ce_reason e,
     resp_headers := ce_headers e, resp_body := ce_body e\<rparr>"

section \<open>Lifetimes\<close>

lemma age_less:
  assumes "0 \<le> d" "to_seconds d < 2 ^ 63"
  shows "(of_int (to_seconds d) :: u64) < w \<longleftrightarrow> d < int (unat w) * 1000000000"
proof -
  let ?n = "nat (to_seconds d)"
  have d0: "0 \<le> to_seconds d" using assms(1) by (simp add: to_seconds_def trunc_div_nonneg)
  then have "(of_int (to_seconds d) :: u64) = of_nat ?n" by (simp add: of_nat_nat)
  moreover have "unat (of_nat ?n :: u64) = ?n"
    using assms(2) d0 by (intro unat_of_nat_u64) (simp add: nat_less_iff)
  ultimately have "(of_int (to_seconds d) :: u64) < w \<longleftrightarrow> to_seconds d < int (unat w)"
    using d0 by (simp add: word_less_nat_alt nat_less_iff)
  then show ?thesis using to_seconds_less [OF assms(1)] by simp
qed

lemma isFresh_iff:
  "ce_storedAt e \<le> now \<Longrightarrow> to_seconds (now - ce_storedAt e) < 2 ^ 63 \<Longrightarrow>
     isFresh e now \<longleftrightarrow> now < ce_storedAt e + int (unat (ce_ttl e)) * 1000000000"
  using age_less [of "now - ce_storedAt e" "ce_ttl e"] by (auto simp: isFresh_def)

lemma isServeableStale_iff:
  "ce_storedAt e \<le> now \<Longrightarrow> to_seconds (now - ce_storedAt e) < 2 ^ 63 \<Longrightarrow>
     isServeableStale e now \<longleftrightarrow>
       now < ce_storedAt e + int (unat (ce_ttl e + ce_swr e)) * 1000000000"
  using age_less [of "now - ce_storedAt e" "ce_ttl e + ce_swr e"] by (auto simp: isServeableStale_def)

lemma isFresh_serveable:
  assumes "unat (ce_ttl e) + unat (ce_swr e) < 2 ^ 64" "isFresh e now"
  shows "isServeableStale e now"
proof -
  have "ce_ttl e \<le> ce_ttl e + ce_swr e"
    using assms(1) by (simp add: word_le_nat_alt unat_plus_if')
  with assms(2) show ?thesis by (auto simp: isFresh_def isServeableStale_def)
qed

section \<open>Properties\<close>

text \<open>While no lifetime sum overflows, an entry is fresh for exactly its \<open>ttl\<close> seconds after it
  was stored and may be served stale for exactly \<open>swr\<close> further seconds; a fresh entry is never
  beyond its stale window.\<close>

lemma entry_lifetimes:
  assumes "ce_storedAt e \<le> now" "to_seconds (now - ce_storedAt e) < 2 ^ 63"
    and "unat (ce_ttl e) + unat (ce_swr e) < 2 ^ 64"
  shows "(isFresh e now \<longleftrightarrow> now < ce_storedAt e + int (unat (ce_ttl e)) * 1000000000) \<and>
    (isServeableStale e now \<longleftrightarrow>
       now < ce_storedAt e + int (unat (ce_ttl e) + unat (ce_swr e)) * 1000000000) \<and>
    (isFresh e now \<longrightarrow> isServeableStale e now)"
proof -
  have "unat (ce_ttl e + ce_swr e) = unat (ce_ttl e) + unat (ce_swr e)"
    using assms(3) by (simp add: unat_plus_if')
  with isServeableStale_iff [OF assms(1,2)]
  have "isServeableStale e now \<longleftrightarrow>
      now < ce_storedAt e + int (unat (ce_ttl e) + unat (ce_swr e)) * 1000000000"
    by (simp only:)
  then show ?thesis
    using isFresh_iff [OF assms(1,2)] isFresh_serveable [OF assms(3)] by blast
qed

lemma entry_lifetimes_witness:
  "isFresh (empty_entry\<lparr>ce_ttl := 60, ce_swr := 30\<rparr>) 59999999999 \<and>
   \<not> isFresh (empty_entry\<lparr>ce_ttl := 60, ce_swr := 30\<rparr>) 60000000000 \<and>
   isServeableStale (empty_entry\<lparr>ce_ttl := 60, ce_swr := 30\<rparr>) 60000000000"
  using entry_lifetimes [of "empty_entry\<lparr>ce_ttl := 60, ce_swr := 30\<rparr>" 59999999999]
    entry_lifetimes [of "empty_entry\<lparr>ce_ttl := 60, ce_swr := 30\<rparr>" 60000000000]
  by (simp add: empty_entry_def to_seconds_def trunc_div_def)

text \<open>The sum of the two lifetimes wraps: with \<open>ttl\<close> seconds of freshness and a stale window of
  \<open>2 ^ 64 - ttl\<close> seconds (what \<^verbatim>\<open>"swr":-60\<close> in a rule with \<^verbatim>\<open>"ttl":60\<close> is read as) an entry that
  is still fresh counts as past its stale window, so the periodic sweep drops it at once.\<close>

lemma lifetime_sum_wraps: "ce_swr e = - ce_ttl e \<Longrightarrow> \<not> isServeableStale e now"
  by (simp add: isServeableStale_def)

lemma lifetime_sum_wraps_example:
  "isFresh (empty_entry\<lparr>ce_ttl := 60, ce_swr := - 60\<rparr>) 0 \<and>
   \<not> isServeableStale (empty_entry\<lparr>ce_ttl := 60, ce_swr := - 60\<rparr>) 0"
  using lifetime_sum_wraps [of "empty_entry\<lparr>ce_ttl := 60, ce_swr := - 60\<rparr>" 0]
  by (simp add: empty_entry_def isFresh_def to_seconds_def trunc_div_def)

end
