(* ===== verification/CacheStore.thy ===== *)
theory CacheStore
  imports CacheEntry
begin

text \<open>
  The interface between a cache and its clients. The operations are those of
  \<^verbatim>\<open>LRUCache\<close> and \<^verbatim>\<open>ShardedCache\<close>; \<open>spec_op\<close> is their effect on an unbounded map.
  The locale \<open>cache_store\<close> states what a client may rely on: every operation is defined, a
  lookup returns the current content and leaves it unchanged, an operation never leaves more than
  the unbounded map would hold (it may hold less: eviction), and what was just put is there
  when it fits. \<^verbatim>\<open>LRUCache\<close> and \<^verbatim>\<open>ShardedCache\<close> both interpret it.
\<close>

datatype cache_op =
    OpGet string
  | OpPut string cache_entry
  | OpErase string
  | OpPurge string
  | OpSweep time

fun spec_op :: "(string \<Rightarrow> cache_entry option) \<Rightarrow> cache_op \<Rightarrow> (string \<Rightarrow> cache_entry option)" where
  "spec_op m (OpGet k) = m"
| "spec_op m (OpPut k e) = m(k \<mapsto> e)"
| "spec_op m (OpErase k) = m(k := None)"
| "spec_op m (OpPurge p) = (\<lambda>k. if purgeMatches p k then None else m k)"
| "spec_op m (OpSweep now) =
     (\<lambda>k. case m k of None \<Rightarrow> None | Some e \<Rightarrow> if isServeableStale e now then Some e else None)"

fun run_ops :: "('c \<Rightarrow> cache_op \<Rightarrow> 'c option) \<Rightarrow> 'c \<Rightarrow> cache_op list \<Rightarrow> 'c option" where
  "run_ops ap c [] = Some c"
| "run_ops ap c (x # xs) = (case ap c x of None \<Rightarrow> None | Some c' \<Rightarrow> run_ops ap c' xs)"

lemma spec_op_mono: "m \<subseteq>\<^sub>m m' \<Longrightarrow> spec_op m x \<subseteq>\<^sub>m spec_op m' x"
proof (cases x)
  case (OpPut k e)
  assume "m \<subseteq>\<^sub>m m'"
  with OpPut show ?thesis by (simp add: map_le_def)
qed (auto simp: map_le_def dom_def split: option.splits if_splits)

locale cache_store =
  fixes apply_op :: "'c \<Rightarrow> cache_op \<Rightarrow> 'c option"
    and get :: "'c \<Rightarrow> string \<Rightarrow> ('c \<times> cache_entry option) option"
    and look :: "'c \<Rightarrow> string \<Rightarrow> cache_entry option"
    and inv :: "'c \<Rightarrow> bool"
    and room :: "'c \<Rightarrow> cache_op \<Rightarrow> bool"
    and fits :: "'c \<Rightarrow> string \<Rightarrow> cache_entry \<Rightarrow> bool"
  assumes op_step: "inv c \<Longrightarrow> room c x \<Longrightarrow>
      \<exists>c'. apply_op c x = Some c' \<and> inv c' \<and> look c' \<subseteq>\<^sub>m spec_op (look c) x \<and> room c' = room c"
    and get_step: "inv c \<Longrightarrow> \<exists>c'. get c k = Some (c', look c k) \<and> inv c' \<and> look c' = look c"
    and put_hit: "inv c \<Longrightarrow> room c (OpPut k e) \<Longrightarrow> fits c k e \<Longrightarrow>
      apply_op c (OpPut k e) = Some c' \<Longrightarrow> look c' k = Some e"
begin

lemma run_sound:
  "inv c \<Longrightarrow> look c \<subseteq>\<^sub>m m \<Longrightarrow> \<forall>x \<in> set xs. room c x \<Longrightarrow>
     \<exists>c'. run_ops apply_op c xs = Some c' \<and> inv c' \<and> look c' \<subseteq>\<^sub>m foldl spec_op m xs"
proof (induction xs arbitrary: c m)
  case Nil
  then show ?case by simp
next
  case (Cons x xs)
  then obtain c1 where c1: "apply_op c x = Some c1" "inv c1" "look c1 \<subseteq>\<^sub>m spec_op (look c) x"
    "room c1 = room c"
    using op_step [of c x] by auto
  have "look c1 \<subseteq>\<^sub>m spec_op m x"
    using c1(3) spec_op_mono [OF Cons.prems(2)] map_le_trans by blast
  with Cons.IH [OF c1(2), of "spec_op m x"] Cons.prems c1 show ?case by simp
qed

text \<open>A lookup after any history returns nothing, or what the history last put under the key.\<close>

lemma get_after_run:
  assumes "inv c" "look c = Map.empty" "\<forall>x \<in> set xs. room c x"
  shows "\<exists>c' c'' r. run_ops apply_op c xs = Some c' \<and> get c' k = Some (c'', r) \<and>
    (r = None \<or> r = foldl spec_op Map.empty xs k)"
proof -
  from run_sound [OF assms(1) _ assms(3), of Map.empty] assms(2)
  obtain c' where c': "run_ops apply_op c xs = Some c'" "inv c'" "look c' \<subseteq>\<^sub>m foldl spec_op Map.empty xs"
    by auto
  obtain c'' where "get c' k = Some (c'', look c' k)"
    using get_step [OF c'(2), of k] by auto
  moreover have "look c' k = None \<or> look c' k = foldl spec_op Map.empty xs k"
    using c'(3) by (auto simp: map_le_def dom_def)
  ultimately show ?thesis using c'(1) by blast
qed

end

end
