(* ===== verification/LRUCache.thy ===== *)
theory LRUCache
  imports CacheStore "HOL-Library.AList"
begin

text \<open>
  \<^verbatim>\<open>cache/LRUCache\<close>. The recency list \<^verbatim>\<open>order_\<close> is a list of
  nodes that carry their address; \<^verbatim>\<open>index_\<close> maps a key to an address, which is what a
  \<^verbatim>\<open>std::list\<close> iterator is. Dereferencing an iterator whose node is gone is undefined in C++
  and \<open>None\<close> here, so that the invariant (no dangling iterator, the byte counter is the sum of the
  nodes) proves each operation defined. Byte counts are \<open>64 word\<close>.
\<close>

section \<open>The cache\<close>

record node =
  n_id :: nat
  n_key :: string
  n_entry :: cache_entry
  n_bytes :: u64

record lru =
  order :: "node list"
  index :: "(string \<times> nat) list"
  maxBytes :: u64
  curBytes :: u64
  evictions :: u64
  next_id :: nat

definition lru_new :: "u64 \<Rightarrow> lru" where
  "lru_new cap = \<lparr>order = [], index = [], maxBytes = cap, curBytes = 0, evictions = 0, next_id = 0\<rparr>"

definition deref :: "node list \<Rightarrow> nat \<Rightarrow> node option" where
  "deref ns a = List.find (\<lambda>n. n_id n = a) ns"

definition without :: "node list \<Rightarrow> nat \<Rightarrow> node list" where
  "without ns a = filter (\<lambda>n. n_id n \<noteq> a) ns"

definition lru_get :: "lru \<Rightarrow> string \<Rightarrow> (lru \<times> cache_entry option) option" where
  "lru_get c key = (case map_of (index c) key of None \<Rightarrow> Some (c, None)
     | Some it \<Rightarrow> (case deref (order c) it of None \<Rightarrow> None
         | Some n \<Rightarrow> Some (c\<lparr>order := n # without (order c) it\<rparr>, Some (n_entry n))))"

function evictToFit :: "lru \<Rightarrow> lru" where
  "evictToFit c = (if maxBytes c < curBytes c \<and> order c \<noteq> []
     then (let back = last (order c) in
       evictToFit (c\<lparr>curBytes := curBytes c - n_bytes back,
         index := AList.delete (n_key back) (index c),
         order := butlast (order c),
         evictions := evictions c + 1\<rparr>))
     else c)"
  by pat_completeness auto
termination
  by (relation "measure (\<lambda>c. length (order c))") auto

declare evictToFit.simps [simp del]

definition lru_put :: "lru \<Rightarrow> string \<Rightarrow> cache_entry \<Rightarrow> lru option" where
  "lru_put c key entry =
     (let bytes = sizeBytes entry in
      case map_of (index c) key of
        Some it \<Rightarrow> (case deref (order c) it of None \<Rightarrow> None
          | Some n \<Rightarrow> Some (evictToFit (c\<lparr>curBytes := curBytes c - n_bytes n + bytes,
              order := n\<lparr>n_entry := entry, n_bytes := bytes\<rparr> # without (order c) it\<rparr>)))
      | None \<Rightarrow> Some (evictToFit (c\<lparr>
          order := \<lparr>n_id = next_id c, n_key = key, n_entry = entry, n_bytes = bytes\<rparr> # order c,
          index := AList.update key (next_id c) (index c),
          curBytes := curBytes c + bytes,
          next_id := next_id c + 1\<rparr>)))"

definition lru_erase :: "lru \<Rightarrow> string \<Rightarrow> (lru \<times> bool) option" where
  "lru_erase c key = (case map_of (index c) key of None \<Rightarrow> Some (c, False)
     | Some it \<Rightarrow> (case deref (order c) it of None \<Rightarrow> None
         | Some n \<Rightarrow> Some (c\<lparr>curBytes := curBytes c - n_bytes n,
             order := without (order c) it,
             index := AList.delete key (index c)\<rparr>, True)))"

text \<open>The loop of \<^verbatim>\<open>purge\<close> and of \<^verbatim>\<open>sweepExpired\<close>: unlink every node that satisfies \<open>P\<close>.\<close>

fun remove_loop :: "(node \<Rightarrow> bool) \<Rightarrow> node list \<Rightarrow> (string \<times> nat) list \<Rightarrow> u64 \<Rightarrow> u64
    \<Rightarrow> node list \<times> (string \<times> nat) list \<times> u64 \<times> u64" where
  "remove_loop P [] idx cur removed = ([], idx, cur, removed)"
| "remove_loop P (n # ns) idx cur removed =
     (if P n then remove_loop P ns (AList.delete (n_key n) idx) (cur - n_bytes n) (removed + 1)
      else (let (kept, idx', cur', removed') = remove_loop P ns idx cur removed
            in (n # kept, idx', cur', removed')))"

definition remove_where :: "(node \<Rightarrow> bool) \<Rightarrow> lru \<Rightarrow> lru \<times> u64" where
  "remove_where P c =
     (let (kept, idx, cur, removed) = remove_loop P (order c) (index c) (curBytes c) 0
      in (c\<lparr>order := kept, index := idx, curBytes := cur\<rparr>, removed))"

definition lru_purge :: "lru \<Rightarrow> string \<Rightarrow> lru \<times> u64" where
  "lru_purge c pattern = remove_where (\<lambda>n. purgeMatches pattern (n_key n)) c"

definition lru_sweepExpired :: "lru \<Rightarrow> time \<Rightarrow> lru \<times> u64" where
  "lru_sweepExpired c now = remove_where (\<lambda>n. \<not> isServeableStale (n_entry n) now) c"

definition lru_sizeBytes :: "lru \<Rightarrow> u64" where "lru_sizeBytes c = curBytes c"

definition lru_count :: "lru \<Rightarrow> u64" where "lru_count c = of_nat (length (index c))"

section \<open>The invariant\<close>

definition node_bytes :: "node list \<Rightarrow> nat" where
  "node_bytes ns = (\<Sum>n\<leftarrow>ns. unat (n_bytes n))"

definition node_index :: "node list \<Rightarrow> (string \<times> nat) list" where
  "node_index ns = map (\<lambda>n. (n_key n, n_id n)) ns"

definition nodes_ok :: "nat \<Rightarrow> node list \<Rightarrow> bool" where
  "nodes_ok fresh ns = (distinct (map n_id ns) \<and> distinct (map n_key ns) \<and>
     (\<forall>n \<in> set ns. n_id n < fresh \<and> n_bytes n = sizeBytes (n_entry n)))"

text \<open>Everything but the byte bound, which \<^verbatim>\<open>put\<close> breaks until the eviction has run.\<close>

definition lru_core :: "lru \<Rightarrow> bool" where
  "lru_core c = (nodes_ok (next_id c) (order c) \<and> distinct (map fst (index c)) \<and>
     map_of (index c) = map_of (node_index (order c)) \<and> node_bytes (order c) = unat (curBytes c))"

definition lru_inv :: "lru \<Rightarrow> bool" where
  "lru_inv c = (lru_core c \<and> curBytes c \<le> maxBytes c)"

definition content :: "lru \<Rightarrow> string \<Rightarrow> cache_entry option" where
  "content c = map_of (map (\<lambda>n. (n_key n, n_entry n)) (order c))"

section \<open>Lists of nodes\<close>

lemma node_bytes_simps [simp]:
  "node_bytes [] = 0" "node_bytes (n # ns) = unat (n_bytes n) + node_bytes ns"
  "node_bytes (ns @ ms) = node_bytes ns + node_bytes ms"
  by (simp_all add: node_bytes_def)

lemma deref_mem: "distinct (map n_id ns) \<Longrightarrow> n \<in> set ns \<Longrightarrow> deref ns (n_id n) = Some n"
  by (induction ns) (auto simp: deref_def)

lemma map_of_key_filter:
  "map_of (map (\<lambda>n. (f n, g n)) (filter (\<lambda>n. P (f n)) ns)) k =
     (if P k then map_of (map (\<lambda>n. (f n, g n)) ns) k else None)"
  by (induction ns) auto

lemma map_of_keyed:
  "distinct (map f ns) \<Longrightarrow> map_of (map (\<lambda>n. (f n, g n)) ns) k = Some v \<longleftrightarrow> (\<exists>n \<in> set ns. f n = k \<and> g n = v)"
  by (induction ns) (auto simp: image_iff)

lemma map_of_keyed_None: "map_of (map (\<lambda>n. (f n, g n)) ns) k = None \<longleftrightarrow> k \<notin> f ` set ns"
  by (simp add: map_of_eq_None_iff image_image)

text \<open>Ids and keys of the list determine each other, so unlinking by id is unlinking by key.\<close>

lemma without_key:
  assumes "nodes_ok f ns" "n \<in> set ns"
  shows "without ns (n_id n) = filter (\<lambda>m. n_key m \<noteq> n_key n) ns"
proof -
  have "n_id m = n_id n \<longleftrightarrow> n_key m = n_key n" if "m \<in> set ns" for m
    using assms that unfolding nodes_ok_def distinct_map by (metis inj_onD)
  then show ?thesis unfolding without_def by (intro filter_cong) auto
qed

lemma node_bytes_filter: "node_bytes ns = node_bytes (filter P ns) + node_bytes (filter (\<lambda>n. \<not> P n) ns)"
  by (induction ns) auto

lemma node_bytes_without:
  "nodes_ok f ns \<Longrightarrow> n \<in> set ns \<Longrightarrow> node_bytes ns = unat (n_bytes n) + node_bytes (without ns (n_id n))"
proof (induction ns)
  case Nil
  then show ?case by simp
next
  case (Cons m ns)
  show ?case
  proof (cases "m = n")
    case True
    then have "filter (\<lambda>k. n_id k \<noteq> n_id n) ns = ns"
      using Cons.prems by (auto simp: nodes_ok_def filter_id_conv image_iff)
    with True show ?thesis by (simp add: without_def)
  next
    case False
    then have "n_id m \<noteq> n_id n" "nodes_ok f ns" "n \<in> set ns"
      using Cons.prems by (auto simp: nodes_ok_def image_iff)
    with Cons.IH show ?thesis by (simp add: without_def)
  qed
qed

lemma nodes_ok_filter: "nodes_ok f ns \<Longrightarrow> nodes_ok f (filter P ns)"
  by (auto simp: nodes_ok_def distinct_map_filter)

lemma nodes_ok_mono: "nodes_ok f ns \<Longrightarrow> f \<le> g \<Longrightarrow> nodes_ok g ns"
  by (auto simp: nodes_ok_def)

lemma nodes_ok_front:
  assumes "nodes_ok f ns" "n \<in> set ns" "n_id m = n_id n" "n_key m = n_key n"
    and "n_bytes m = sizeBytes (n_entry m)"
  shows "nodes_ok f (m # without ns (n_id n))"
proof -
  have "nodes_ok f (without ns (n_id n))"
    using assms(1) unfolding without_def by (rule nodes_ok_filter)
  moreover have "n_id m \<notin> n_id ` set (without ns (n_id n))"
    using assms(3) by (auto simp: without_def)
  moreover have "n_key m \<notin> n_key ` set (without ns (n_id n))"
    using assms(4) by (auto simp: without_key [OF assms(1,2)])
  ultimately show ?thesis
    using assms by (auto simp: nodes_ok_def)
qed

lemma index_Some:
  assumes "lru_core c" "map_of (index c) k = Some a"
  obtains n where "n \<in> set (order c)" "n_key n = k" "n_id n = a" "deref (order c) a = Some n"
proof -
  from assms have "map_of (node_index (order c)) k = Some a" "nodes_ok (next_id c) (order c)"
    by (simp_all add: lru_core_def)
  then obtain n where "n \<in> set (order c)" "n_key n = k" "n_id n = a"
    by (auto simp: node_index_def nodes_ok_def map_of_keyed)
  with assms that deref_mem show thesis
    by (fastforce simp: lru_core_def nodes_ok_def)
qed

lemma index_None: "lru_core c \<Longrightarrow> map_of (index c) k = None \<longleftrightarrow> k \<notin> n_key ` set (order c)"
  by (simp add: lru_core_def node_index_def map_of_keyed_None)

lemma content_Some:
  "lru_core c \<Longrightarrow> content c k = Some e \<longleftrightarrow> (\<exists>n \<in> set (order c). n_key n = k \<and> n_entry n = e)"
  by (simp add: content_def lru_core_def nodes_ok_def map_of_keyed)

lemma content_front:
  assumes "nodes_ok f ns" "n \<in> set ns" "n_key m = n_key n"
  shows "map_of (map (\<lambda>n. (n_key n, g n)) (m # without ns (n_id n))) =
     (map_of (map (\<lambda>n. (n_key n, g n)) ns))(n_key n \<mapsto> g m)"
  by (rule ext)
    (simp add: without_key [OF assms(1,2)] assms(3) map_of_key_filter [where P = "\<lambda>k. k \<noteq> n_key n"])

section \<open>Eviction\<close>

text \<open>The longest prefix of the recency list whose bytes fit.\<close>

fun fit :: "nat \<Rightarrow> node list \<Rightarrow> node list" where
  "fit m [] = []"
| "fit m (n # ns) = (if unat (n_bytes n) \<le> m then n # fit (m - unat (n_bytes n)) ns else [])"

lemma fit_all: "node_bytes ns \<le> m \<Longrightarrow> fit m ns = ns"
  by (induction ns arbitrary: m) auto

lemma fit_snoc: "m < node_bytes (ns @ [x]) \<Longrightarrow> fit m (ns @ [x]) = fit m ns"
  by (induction ns arbitrary: m) auto

lemma fit_prefix: "\<exists>rest. ns = fit m ns @ rest"
  by (induction ns arbitrary: m) auto

lemma fit_bytes: "node_bytes (fit m ns) \<le> m"
proof (induction ns arbitrary: m)
  case (Cons n ns)
  from Cons.IH [of "m - unat (n_bytes n)"] show ?case by auto
qed simp

lemma fit_next: "ns = fit m ns @ x # rest \<Longrightarrow> m < node_bytes (fit m ns) + unat (n_bytes x)"
proof (induction ns arbitrary: m)
  case (Cons n ns)
  show ?case
  proof (cases "unat (n_bytes n) \<le> m")
    case True
    with Cons.prems have "ns = fit (m - unat (n_bytes n)) ns @ x # rest" by simp
    from Cons.IH [OF this] True show ?thesis by auto
  next
    case False
    with Cons.prems show ?thesis by auto
  qed
qed simp

lemma delete_index:
  assumes "map_of idx = map_of (node_index ns)" "distinct (map fst idx)"
  shows "map_of (AList.delete k idx) = map_of (node_index (filter (\<lambda>n. n_key n \<noteq> k) ns))"
proof
  fix q
  show "map_of (AList.delete k idx) q = map_of (node_index (filter (\<lambda>n. n_key n \<noteq> k) ns)) q"
    using assms map_of_key_filter [of n_key n_id "\<lambda>q. q \<noteq> k" ns q]
    by (simp add: delete_conv' node_index_def)
qed

lemma evict_step_core:
  assumes "lru_core c" "order c \<noteq> []"
  defines "back \<equiv> last (order c)"
  shows "lru_core (c\<lparr>curBytes := curBytes c - n_bytes back, index := AList.delete (n_key back) (index c),
     order := butlast (order c), evictions := ev\<rparr>)"
proof -
  obtain ns where o: "order c = ns @ [back]"
    using assms(2) back_def by (metis append_butlast_last_id)
  have ok: "nodes_ok (next_id c) (ns @ [back])" and sum: "node_bytes (ns @ [back]) = unat (curBytes c)"
    using assms(1) by (simp_all add: lru_core_def o)
  then have "filter (\<lambda>n. n_key n \<noteq> n_key back) (ns @ [back]) = ns"
    by (auto simp: nodes_ok_def filter_id_conv image_iff)
  then have "map_of (AList.delete (n_key back) (index c)) = map_of (node_index ns)"
    using assms(1) delete_index [of "index c" "order c" "n_key back"] by (simp add: lru_core_def o)
  moreover have "nodes_ok (next_id c) ns"
    using ok by (auto simp: nodes_ok_def)
  moreover have "node_bytes ns = unat (curBytes c - n_bytes back)"
    using sum by (simp add: unat_sub_if_size)
  ultimately show ?thesis
    using assms(1) by (simp add: lru_core_def o distinct_delete)
qed

lemma evictToFit_spec:
  "lru_core c \<Longrightarrow> lru_inv (evictToFit c) \<and> order (evictToFit c) = fit (unat (maxBytes c)) (order c) \<and>
    maxBytes (evictToFit c) = maxBytes c \<and>
    evictions (evictToFit c) = evictions c + of_nat (length (order c) - length (order (evictToFit c)))"
proof (induction c rule: evictToFit.induct)
  case (1 c)
  let ?oldest = "last (order c)"
  let ?d = "c\<lparr>curBytes := curBytes c - n_bytes ?oldest, index := AList.delete (n_key ?oldest) (index c),
     order := butlast (order c), evictions := evictions c + 1\<rparr>"
  show ?case
  proof (cases "maxBytes c < curBytes c \<and> order c \<noteq> []")
    case True
    have core: "lru_core ?d"
      using "1.prems" True by (intro evict_step_core) auto
    have ev: "evictToFit c = evictToFit ?d"
      using True by (subst evictToFit.simps) (simp add: Let_def)
    have IH: "lru_inv (evictToFit ?d)" "order (evictToFit ?d) = fit (unat (maxBytes c)) (butlast (order c))"
      "maxBytes (evictToFit ?d) = maxBytes c"
      "evictions (evictToFit ?d) = evictions c + 1 + of_nat (length (butlast (order c)) - length (order (evictToFit ?d)))"
      using "1.IH" [OF True refl core] by simp_all
    obtain ns x where o: "order c = ns @ [x]" using True by (metis append_butlast_last_id)
    have "unat (maxBytes c) < node_bytes (order c)"
      using True "1.prems" by (simp add: lru_core_def word_less_nat_alt)
    then have fit: "fit (unat (maxBytes c)) (order c) = fit (unat (maxBytes c)) (butlast (order c))"
      by (simp add: o fit_snoc)
    have "length (fit (unat (maxBytes c)) ns) \<le> length ns"
      using fit_prefix [of ns] by (metis length_append le_add1)
    then show ?thesis
      using IH fit by (simp add: ev o Suc_diff_le)
  next
    case False
    have c: "evictToFit c = c" by (subst evictToFit.simps) (simp only: if_not_P [OF False])
    have "curBytes c \<le> maxBytes c"
      using False "1.prems" by (cases "order c = []") (auto simp: lru_core_def word_le_nat_alt word_less_nat_alt)
    then show ?thesis
      using "1.prems" by (simp add: c lru_inv_def fit_all lru_core_def word_le_nat_alt)
  qed
qed

section \<open>The abstract cache: a recency list of keys and entries\<close>

type_synonym alru = "(string \<times> cache_entry) list"

definition abs_lru :: "lru \<Rightarrow> alru" where
  "abs_lru c = map (\<lambda>n. (n_key n, n_entry n)) (order c)"

definition a_get :: "string \<Rightarrow> alru \<Rightarrow> alru" where
  "a_get k xs = (case map_of xs k of None \<Rightarrow> xs | Some e \<Rightarrow> (k, e) # filter (\<lambda>p. fst p \<noteq> k) xs)"

fun a_fit :: "nat \<Rightarrow> alru \<Rightarrow> alru" where
  "a_fit m [] = []"
| "a_fit m (p # ps) = (if unat (sizeBytes (snd p)) \<le> m
     then p # a_fit (m - unat (sizeBytes (snd p))) ps else [])"

definition a_put :: "nat \<Rightarrow> string \<Rightarrow> cache_entry \<Rightarrow> alru \<Rightarrow> alru" where
  "a_put m k e xs = a_fit m ((k, e) # filter (\<lambda>p. fst p \<noteq> k) xs)"

lemma content_abs: "content c = map_of (abs_lru c)"
  by (simp add: content_def abs_lru_def)

lemma abs_front:
  assumes "nodes_ok f ns" "n \<in> set ns"
  shows "map (\<lambda>n. (n_key n, n_entry n)) (without ns (n_id n)) =
    filter (\<lambda>p. fst p \<noteq> n_key n) (map (\<lambda>n. (n_key n, n_entry n)) ns)"
  by (simp add: without_key [OF assms] filter_map comp_def)

lemma abs_fit:
  "\<forall>n \<in> set ns. n_bytes n = sizeBytes (n_entry n) \<Longrightarrow>
     map (\<lambda>n. (n_key n, n_entry n)) (fit m ns) = a_fit m (map (\<lambda>n. (n_key n, n_entry n)) ns)"
  by (induction ns arbitrary: m) auto

lemma core_front:
  assumes core: "lru_core c" and n: "n \<in> set (order c)"
    and m: "n_id m = n_id n" "n_key m = n_key n" "n_bytes m = sizeBytes (n_entry m)"
    and sum: "unat cur = unat (n_bytes m) + node_bytes (without (order c) (n_id n))"
  shows "lru_core (c\<lparr>curBytes := cur, order := m # without (order c) (n_id n)\<rparr>)"
proof -
  have ok: "nodes_ok (next_id c) (order c)" using core by (simp add: lru_core_def)
  have "map_of (node_index (order c)) (n_key n) = Some (n_id m)"
    unfolding node_index_def using ok n m(1) by (subst map_of_keyed) (auto simp: nodes_ok_def)
  then have "map_of (node_index (m # without (order c) (n_id n))) = map_of (node_index (order c))"
    using content_front [OF ok n m(2), of n_id] by (simp add: node_index_def fun_upd_idem)
  then show ?thesis
    using core nodes_ok_front [OF ok n m] sum by (simp add: lru_core_def)
qed

section \<open>Each operation\<close>

lemma lru_get_refines:
  assumes "lru_inv c"
  shows "\<exists>c'. lru_get c k = Some (c', map_of (abs_lru c) k) \<and> lru_inv c' \<and>
    abs_lru c' = a_get k (abs_lru c) \<and> maxBytes c' = maxBytes c \<and> evictions c' = evictions c"
proof (cases "map_of (index c) k")
  case None
  then have "map_of (abs_lru c) k = None"
    using assms index_None [of c k] by (simp add: abs_lru_def lru_inv_def map_of_keyed_None)
  with None assms show ?thesis by (simp add: lru_get_def a_get_def)
next
  case (Some a)
  have core: "lru_core c" and ok: "nodes_ok (next_id c) (order c)"
    using assms by (simp_all add: lru_inv_def lru_core_def)
  obtain n where n: "n \<in> set (order c)" "n_key n = k" "n_id n = a" "deref (order c) a = Some n"
    using index_Some [OF core Some] .
  have m: "map_of (abs_lru c) k = Some (n_entry n)"
    using content_Some [OF core, of k "n_entry n"] n by (auto simp: content_abs)
  have "lru_core (c\<lparr>curBytes := curBytes c, order := n # without (order c) (n_id n)\<rparr>)"
    using core n ok node_bytes_without [OF ok n(1)]
    by (intro core_front) (auto simp: nodes_ok_def lru_core_def)
  then have "lru_inv (c\<lparr>order := n # without (order c) a\<rparr>)"
    using assms n by (simp add: lru_inv_def)
  then show ?thesis
    using Some n m abs_front [OF ok n(1)] by (simp add: lru_get_def a_get_def abs_lru_def)
qed

definition put_room :: "lru \<Rightarrow> cache_entry \<Rightarrow> bool" where
  "put_room c e = (unat (maxBytes c) + unat (sizeBytes e) < 2 ^ 64)"

lemma put_tail:
  assumes "lru_core d" "order d = m # rest" "maxBytes d = cap"
    and "map (\<lambda>n. (n_key n, n_entry n)) (m # rest) = (k, e) # filter (\<lambda>p. fst p \<noteq> k) xs"
  shows "lru_inv (evictToFit d) \<and> abs_lru (evictToFit d) = a_put (unat cap) k e xs \<and>
    maxBytes (evictToFit d) = cap \<and>
    evictions (evictToFit d) = evictions d +
      of_nat (Suc (length (filter (\<lambda>p. fst p \<noteq> k) xs)) - length (abs_lru (evictToFit d)))"
proof -
  have "length (m # rest) = Suc (length (filter (\<lambda>p. fst p \<noteq> k) xs))"
    using arg_cong [OF assms(4), of length] by simp
  then have len: "length (order d) = Suc (length (filter (\<lambda>p. fst p \<noteq> k) xs))"
    using assms(2) by simp
  have "\<forall>n \<in> set (m # rest). n_bytes n = sizeBytes (n_entry n)"
    using assms(1,2) by (simp add: lru_core_def nodes_ok_def)
  from abs_fit [OF this, of "unat cap"]
  have "abs_lru (evictToFit d) = a_put (unat cap) k e xs"
    using evictToFit_spec [OF assms(1)] assms(2-4) by (simp add: abs_lru_def a_put_def)
  moreover have "length (abs_lru (evictToFit d)) = length (order (evictToFit d))"
    by (simp add: abs_lru_def)
  ultimately show ?thesis
    using evictToFit_spec [OF assms(1)] assms(3) len by metis
qed

lemma lru_put_refines:
  assumes inv: "lru_inv c" and room: "put_room c e"
  shows "\<exists>c'. lru_put c k e = Some c' \<and> lru_inv c' \<and>
    abs_lru c' = a_put (unat (maxBytes c)) k e (abs_lru c) \<and> maxBytes c' = maxBytes c \<and>
    evictions c' = evictions c +
      of_nat (Suc (length (filter (\<lambda>p. fst p \<noteq> k) (abs_lru c))) - length (abs_lru c'))"
proof -
  have core: "lru_core c" and ok: "nodes_ok (next_id c) (order c)"
    and sum: "node_bytes (order c) = unat (curBytes c)" "unat (curBytes c) \<le> unat (maxBytes c)"
    using inv by (simp_all add: lru_inv_def lru_core_def word_le_nat_alt)
  show ?thesis
  proof (cases "map_of (index c) k")
    case None
    let ?m = "\<lparr>n_id = next_id c, n_key = k, n_entry = e, n_bytes = sizeBytes e\<rparr>"
    let ?d = "c\<lparr>order := ?m # order c, index := AList.update k (next_id c) (index c),
      curBytes := curBytes c + sizeBytes e, next_id := next_id c + 1\<rparr>"
    have new: "k \<notin> n_key ` set (order c)" using None index_None [OF core] by simp
    have "nodes_ok (next_id c + 1) (?m # order c)"
      using ok new by (auto simp: nodes_ok_def less_Suc_eq)
    moreover have "unat (curBytes c + sizeBytes e) = unat (curBytes c) + unat (sizeBytes e)"
      using room sum by (simp add: put_room_def unat_plus_if')
    ultimately have "lru_core ?d"
      using core sum by (simp add: lru_core_def update_conv' node_index_def distinct_update)
    moreover have "filter (\<lambda>p. fst p \<noteq> k) (abs_lru c) = abs_lru c"
      using new by (auto simp: filter_id_conv abs_lru_def)
    ultimately have "lru_inv (evictToFit ?d) \<and>
        abs_lru (evictToFit ?d) = a_put (unat (maxBytes c)) k e (abs_lru c) \<and>
        maxBytes (evictToFit ?d) = maxBytes c \<and>
        evictions (evictToFit ?d) = evictions ?d +
          of_nat (Suc (length (filter (\<lambda>p. fst p \<noteq> k) (abs_lru c))) - length (abs_lru (evictToFit ?d)))"
      by (intro put_tail) (auto simp: abs_lru_def)
    then show ?thesis
      by (simp add: lru_put_def None Let_def)
  next
    case (Some a)
    obtain n where n: "n \<in> set (order c)" "n_key n = k" "n_id n = a" "deref (order c) a = Some n"
      using index_Some [OF core Some] .
    let ?m = "n\<lparr>n_entry := e, n_bytes := sizeBytes e\<rparr>"
    let ?cur = "curBytes c - n_bytes n + sizeBytes e"
    note nb = node_bytes_without [OF ok n(1)]
    have "unat (curBytes c - n_bytes n) = node_bytes (without (order c) (n_id n))"
      using nb sum by (simp add: unat_sub_if_size)
    then have "unat ?cur = unat (n_bytes ?m) + node_bytes (without (order c) (n_id n))"
      using nb sum room by (simp add: put_room_def unat_plus_if')
    then have "lru_core (c\<lparr>curBytes := ?cur, order := ?m # without (order c) (n_id n)\<rparr>)"
      using core n by (intro core_front) auto
    from put_tail [OF this, of ?m "without (order c) a" "maxBytes c" k e "abs_lru c"]
    show ?thesis
      using n abs_front [OF ok n(1)] by (simp add: lru_put_def Some Let_def abs_lru_def)
  qed
qed

lemma lru_erase_refines:
  assumes inv: "lru_inv c"
  shows "\<exists>c'. lru_erase c k = Some (c', map_of (abs_lru c) k \<noteq> None) \<and> lru_inv c' \<and>
    abs_lru c' = filter (\<lambda>p. fst p \<noteq> k) (abs_lru c) \<and> maxBytes c' = maxBytes c"
proof -
  have core: "lru_core c" and ok: "nodes_ok (next_id c) (order c)"
    and sum: "node_bytes (order c) = unat (curBytes c)" "unat (curBytes c) \<le> unat (maxBytes c)"
    using inv by (simp_all add: lru_inv_def lru_core_def word_le_nat_alt)
  show ?thesis
  proof (cases "map_of (index c) k")
    case None
    then have new: "k \<notin> n_key ` set (order c)" using index_None [OF core] by simp
    then have "map_of (abs_lru c) k = None" "filter (\<lambda>p. fst p \<noteq> k) (abs_lru c) = abs_lru c"
      by (auto simp: abs_lru_def map_of_keyed_None filter_id_conv)
    then show ?thesis using None inv by (simp add: lru_erase_def)
  next
    case (Some a)
    obtain n where n: "n \<in> set (order c)" "n_key n = k" "n_id n = a" "deref (order c) a = Some n"
      using index_Some [OF core Some] .
    let ?d = "c\<lparr>curBytes := curBytes c - n_bytes n, order := without (order c) a,
       index := AList.delete k (index c)\<rparr>"
    have "map_of (abs_lru c) k \<noteq> None"
      using n by (auto simp: abs_lru_def map_of_keyed_None)
    moreover have "node_bytes (without (order c) a) = unat (curBytes c - n_bytes n)"
      using node_bytes_without [OF ok n(1)] n(3) sum by (simp add: unat_sub_if_size)
    moreover have "map_of (AList.delete k (index c)) = map_of (node_index (without (order c) a))"
      using delete_index [of "index c" "order c" k] core without_key [OF ok n(1)] n(2,3)
      by (simp add: lru_core_def)
    moreover have "nodes_ok (next_id c) (without (order c) a)"
      using ok unfolding without_def by (rule nodes_ok_filter)
    ultimately have "lru_core ?d" "unat (curBytes ?d) \<le> unat (maxBytes c)"
      using core sum by (simp_all add: lru_core_def distinct_delete unat_sub_if_size
          node_bytes_without [OF ok n(1)])
    then show ?thesis
      using Some n abs_front [OF ok n(1)] \<open>map_of (abs_lru c) k \<noteq> None\<close>
      by (simp add: lru_erase_def abs_lru_def lru_inv_def word_le_nat_alt)
  qed
qed

lemma remove_loop_spec:
  assumes "distinct (map fst idx)" "node_bytes (filter P ns) \<le> unat cur"
    and "remove_loop P ns idx cur r = (kept, idx', cur', r')"
  shows "kept = filter (\<lambda>n. \<not> P n) ns \<and> distinct (map fst idx') \<and>
    map_of idx' = (\<lambda>k. if k \<in> n_key ` set (filter P ns) then None else map_of idx k) \<and>
    unat cur' = unat cur - node_bytes (filter P ns) \<and> r' = r + of_nat (length (filter P ns))"
  using assms
proof (induction P ns idx cur r arbitrary: kept rule: remove_loop.induct)
  case (1 P idx cur removed)
  then show ?case by simp
next
  case (2 P n ns idx cur removed)
  show ?case
  proof (cases "P n")
    case True
    with "2.prems" have "distinct (map fst (AList.delete (n_key n) idx))"
      "node_bytes (filter P ns) \<le> unat (cur - n_bytes n)"
      "remove_loop P ns (AList.delete (n_key n) idx) (cur - n_bytes n) (removed + 1) = (kept, idx', cur', r')"
      by (simp_all add: distinct_delete unat_sub_if_size)
    from "2.IH"(1) [OF True this] True "2.prems"(2) show ?thesis
      by (auto simp: delete_conv' unat_sub_if_size fun_eq_iff)
  next
    case False
    then obtain kept0 where r: "remove_loop P ns idx cur removed = (kept0, idx', cur', r')"
      and k: "kept = n # kept0"
      using "2.prems"(3) by (auto simp: Let_def split: prod.splits)
    from "2.IH"(2) [OF False "2.prems"(1) _ r] "2.prems"(2) False k show ?thesis by simp
  qed
qed

lemma remove_where_refines:
  assumes inv: "lru_inv c"
    and P: "\<And>n. n \<in> set (order c) \<Longrightarrow> P n \<longleftrightarrow> Q (n_key n, n_entry n)"
    and r: "remove_where P c = (c', removed)"
  shows "lru_inv c' \<and> abs_lru c' = filter (\<lambda>p. \<not> Q p) (abs_lru c) \<and>
    removed = of_nat (length (filter Q (abs_lru c))) \<and> maxBytes c' = maxBytes c"
proof -
  have core: "lru_core c" and ok: "nodes_ok (next_id c) (order c)"
    and sum: "node_bytes (order c) = unat (curBytes c)" "unat (curBytes c) \<le> unat (maxBytes c)"
    using inv by (simp_all add: lru_inv_def lru_core_def word_le_nat_alt)
  obtain kept idx' cur' where l: "remove_loop P (order c) (index c) (curBytes c) 0 = (kept, idx', cur', removed)"
    and c': "c' = c\<lparr>order := kept, index := idx', curBytes := cur'\<rparr>"
    using r by (auto simp: remove_where_def Let_def split: prod.splits)
  note split = node_bytes_filter [of "order c" P]
  have spec: "kept = filter (\<lambda>n. \<not> P n) (order c) \<and> distinct (map fst idx') \<and>
    map_of idx' = (\<lambda>k. if k \<in> n_key ` set (filter P (order c)) then None else map_of (index c) k) \<and>
    unat cur' = unat (curBytes c) - node_bytes (filter P (order c)) \<and>
    removed = 0 + of_nat (length (filter P (order c)))"
    using core split sum by (intro remove_loop_spec [OF _ _ l]) (auto simp: lru_core_def)
  have inj: "m = n" if "m \<in> set (order c)" "n \<in> set (order c)" "n_key m = n_key n" for m n
    using ok that unfolding nodes_ok_def distinct_map by (metis inj_onD)
  have "map_of idx' = map_of (node_index kept)"
  proof
    fix k
    show "map_of idx' k = map_of (node_index kept) k"
    proof (cases "map_of (node_index kept) k")
      case None
      then have "k \<in> n_key ` set (filter P (order c)) \<or> k \<notin> n_key ` set (order c)"
        using spec by (auto simp: node_index_def map_of_keyed_None)
      with None spec core index_None [OF core, of k] show ?thesis by auto
    next
      case (Some a)
      have dk: "distinct (map n_key kept)" using ok spec by (simp add: nodes_ok_def distinct_map_filter)
      then obtain n where n: "n \<in> set kept" "n_key n = k" "n_id n = a"
        using Some by (auto simp: node_index_def map_of_keyed)
      then have "k \<notin> n_key ` set (filter P (order c))" using spec inj by auto
      moreover have "map_of (node_index (order c)) k = Some a"
        unfolding node_index_def using ok n spec by (subst map_of_keyed) (auto simp: nodes_ok_def)
      ultimately show ?thesis using spec core Some by (simp add: lru_core_def)
    qed
  qed
  moreover have "abs_lru c' = filter (\<lambda>p. \<not> Q p) (abs_lru c)"
    using spec P by (simp add: abs_lru_def c' filter_map comp_def cong: filter_cong)
  moreover have "length (filter P (order c)) = length (filter Q (abs_lru c))"
    using P by (simp add: abs_lru_def filter_map comp_def cong: filter_cong)
  ultimately show ?thesis
    using spec core sum split nodes_ok_filter [OF ok]
    by (auto simp: lru_inv_def lru_core_def c' word_le_nat_alt)
qed

lemma lru_purge_refines:
  "lru_inv c \<Longrightarrow> lru_purge c p = (c', removed) \<Longrightarrow>
     lru_inv c' \<and> abs_lru c' = filter (\<lambda>q. \<not> purgeMatches p (fst q)) (abs_lru c) \<and>
     removed = of_nat (length (filter (\<lambda>q. purgeMatches p (fst q)) (abs_lru c))) \<and> maxBytes c' = maxBytes c"
  using remove_where_refines [of c "\<lambda>n. purgeMatches p (n_key n)" "\<lambda>q. purgeMatches p (fst q)" c' removed]
  by (simp add: lru_purge_def)

lemma lru_sweep_refines:
  "lru_inv c \<Longrightarrow> lru_sweepExpired c now = (c', removed) \<Longrightarrow>
     lru_inv c' \<and> abs_lru c' = filter (\<lambda>q. isServeableStale (snd q) now) (abs_lru c) \<and>
     removed = of_nat (length (filter (\<lambda>q. \<not> isServeableStale (snd q) now) (abs_lru c))) \<and>
     maxBytes c' = maxBytes c"
  using remove_where_refines [of c "\<lambda>n. \<not> isServeableStale (n_entry n) now"
      "\<lambda>q. \<not> isServeableStale (snd q) now" c' removed]
  by (simp add: lru_sweepExpired_def)

section \<open>Runs of operations\<close>

fun lru_apply :: "lru \<Rightarrow> cache_op \<Rightarrow> lru option" where
  "lru_apply c (OpGet k) = map_option fst (lru_get c k)"
| "lru_apply c (OpPut k e) = lru_put c k e"
| "lru_apply c (OpErase k) = map_option fst (lru_erase c k)"
| "lru_apply c (OpPurge p) = Some (fst (lru_purge c p))"
| "lru_apply c (OpSweep now) = Some (fst (lru_sweepExpired c now))"

fun a_op :: "nat \<Rightarrow> alru \<Rightarrow> cache_op \<Rightarrow> alru" where
  "a_op m xs (OpGet k) = a_get k xs"
| "a_op m xs (OpPut k e) = a_put m k e xs"
| "a_op m xs (OpErase k) = filter (\<lambda>q. fst q \<noteq> k) xs"
| "a_op m xs (OpPurge p) = filter (\<lambda>q. \<not> purgeMatches p (fst q)) xs"
| "a_op m xs (OpSweep now) = filter (\<lambda>q. isServeableStale (snd q) now) xs"

text \<open>The byte counter cannot wrap while the capacity and each stored entry together stay below
  $2^{64}$.\<close>

definition op_room :: "u64 \<Rightarrow> cache_op \<Rightarrow> bool" where
  "op_room cap x = (case x of OpPut k e \<Rightarrow> unat cap + unat (sizeBytes e) < 2 ^ 64 | _ \<Rightarrow> True)"

definition lru_room :: "lru \<Rightarrow> cache_op \<Rightarrow> bool" where
  "lru_room c = op_room (maxBytes c)"

definition lru_fits :: "lru \<Rightarrow> string \<Rightarrow> cache_entry \<Rightarrow> bool" where
  "lru_fits c k e = (sizeBytes e \<le> maxBytes c)"

lemma lru_apply_refines:
  assumes "lru_inv c" "lru_room c x"
  shows "\<exists>c'. lru_apply c x = Some c' \<and> lru_inv c' \<and>
    abs_lru c' = a_op (unat (maxBytes c)) (abs_lru c) x \<and> maxBytes c' = maxBytes c"
proof (cases x)
  case (OpGet k)
  with lru_get_refines [OF assms(1), of k] show ?thesis by auto
next
  case (OpPut k e)
  with lru_put_refines [OF assms(1), of e k] assms(2) show ?thesis
    by (auto simp: lru_room_def op_room_def put_room_def)
next
  case (OpErase k)
  with lru_erase_refines [OF assms(1), of k] show ?thesis by auto
next
  case (OpPurge p)
  with lru_purge_refines [OF assms(1), of p] show ?thesis by (cases "lru_purge c p") simp
next
  case (OpSweep now)
  with lru_sweep_refines [OF assms(1), of now] show ?thesis by (cases "lru_sweepExpired c now") simp
qed

lemma lru_run_refines:
  "lru_inv c \<Longrightarrow> \<forall>x \<in> set xs. op_room (maxBytes c) x \<Longrightarrow>
     \<exists>c'. run_ops lru_apply c xs = Some c' \<and> lru_inv c' \<and>
       abs_lru c' = foldl (a_op (unat (maxBytes c))) (abs_lru c) xs \<and> maxBytes c' = maxBytes c"
proof (induction xs arbitrary: c)
  case Nil
  then show ?case by simp
next
  case (Cons x xs)
  obtain c1 where c1: "lru_apply c x = Some c1" "lru_inv c1"
    "abs_lru c1 = a_op (unat (maxBytes c)) (abs_lru c) x" "maxBytes c1 = maxBytes c"
    using lru_apply_refines [of c x] Cons.prems by (auto simp: lru_room_def)
  with Cons.IH [of c1] Cons.prems show ?case by simp
qed

lemma lru_new_inv: "lru_inv (lru_new cap)"
  by (simp add: lru_new_def lru_inv_def lru_core_def nodes_ok_def node_index_def)

lemma lru_new_abs: "abs_lru (lru_new cap) = []" "maxBytes (lru_new cap) = cap"
  by (simp_all add: lru_new_def abs_lru_def)

section \<open>The cache interface\<close>

lemma a_fit_prefix: "\<exists>rest. xs = a_fit m xs @ rest"
  by (induction xs arbitrary: m) auto

lemma a_fit_le: "map_of (a_fit m xs) \<subseteq>\<^sub>m map_of xs"
proof -
  obtain rest where "xs = a_fit m xs @ rest" using a_fit_prefix by blast
  then have "map_of xs = map_of rest ++ map_of (a_fit m xs)" by (metis map_of_append)
  then show ?thesis by simp
qed

lemma map_of_filter_key:
  "map_of (filter (\<lambda>q. P (fst q)) xs) k = (if P k then map_of xs k else None)"
  by (induction xs) auto

lemma map_of_filter_val:
  "distinct (map fst xs) \<Longrightarrow> map_of (filter (\<lambda>q. P (snd q)) xs) k =
     (case map_of xs k of None \<Rightarrow> None | Some v \<Rightarrow> if P v then Some v else None)"
  by (induction xs) (auto split: option.splits simp: map_of_eq_None_iff dest: map_of_SomeD image_eqI)

lemma a_get_look: "map_of (a_get k xs) = map_of xs"
  by (rule ext) (auto simp: a_get_def map_of_filter_key [where P = "\<lambda>q. q \<noteq> k"] split: option.splits)

lemma a_op_spec:
  assumes "distinct (map fst xs)"
  shows "map_of (a_op m xs x) \<subseteq>\<^sub>m spec_op (map_of xs) x"
proof (cases x)
  case (OpPut k e)
  have "map_of ((k, e) # filter (\<lambda>q. fst q \<noteq> k) xs) = (map_of xs)(k \<mapsto> e)"
    by (rule ext) (simp add: map_of_filter_key [where P = "\<lambda>q. q \<noteq> k"])
  then show ?thesis
    using a_fit_le [of m "(k, e) # filter (\<lambda>q. fst q \<noteq> k) xs"] OpPut by (simp add: a_put_def)
next
  case (OpErase k)
  then show ?thesis
    by (simp add: map_le_def map_of_filter_key [where P = "\<lambda>q. q \<noteq> k"])
next
  case (OpPurge p)
  then show ?thesis
    by (simp add: map_le_def map_of_filter_key [where P = "\<lambda>q. \<not> purgeMatches p q"])
next
  case (OpSweep now)
  then show ?thesis
    by (simp add: map_le_def map_of_filter_val [OF assms, where P = "\<lambda>e. isServeableStale e now"])
qed (simp add: a_get_look)

lemma abs_distinct: "lru_inv c \<Longrightarrow> distinct (map fst (abs_lru c))"
  by (simp add: lru_inv_def lru_core_def nodes_ok_def abs_lru_def comp_def)

interpretation lru_store: cache_store lru_apply lru_get content lru_inv lru_room lru_fits
proof
  fix c x
  assume "lru_inv c" "lru_room c x"
  then show "\<exists>c'. lru_apply c x = Some c' \<and> lru_inv c' \<and> content c' \<subseteq>\<^sub>m spec_op (content c) x \<and>
      lru_room c' = lru_room c"
    using lru_apply_refines [of c x] a_op_spec [OF abs_distinct, of c]
    by (auto simp: content_abs lru_room_def)
next
  fix c k
  assume "lru_inv c"
  then show "\<exists>c'. lru_get c k = Some (c', content c k) \<and> lru_inv c' \<and> content c' = content c"
    using lru_get_refines [of c k] by (auto simp: content_abs a_get_look)
next
  fix c k e c'
  assume a: "lru_inv c" "lru_room c (OpPut k e)" "lru_fits c k e" "lru_apply c (OpPut k e) = Some c'"
  then have "abs_lru c' = a_put (unat (maxBytes c)) k e (abs_lru c)"
    using lru_apply_refines [OF a(1,2)] by simp
  then show "content c' k = Some e"
    using a(3) by (simp add: content_abs a_put_def lru_fits_def word_le_nat_alt)
qed

lemma length_card_dom: "distinct (map fst idx) \<Longrightarrow> length idx = card (dom (map_of idx))"
  using distinct_card [of "map fst idx"] by (simp add: dom_map_of_conv_image_fst)

section \<open>Properties\<close>

text \<open>C11: whatever the history of operations on a new cache, every operation is defined (no iterator
  ever dangles), the cache behaves as the abstract recency list, the bytes it holds never exceed
  its capacity, and \<^verbatim>\<open>sizeBytes()\<close> and \<^verbatim>\<open>count()\<close> report exactly what the list holds.\<close>

theorem lru_refines_recency_list:
  assumes "\<forall>x \<in> set xs. op_room cap x"
  shows "\<exists>c. run_ops lru_apply (lru_new cap) xs = Some c \<and> abs_lru c = foldl (a_op (unat cap)) [] xs \<and>
    node_bytes (order c) \<le> unat cap \<and> lru_sizeBytes c = of_nat (node_bytes (order c)) \<and>
    lru_count c = of_nat (length (abs_lru c))"
proof -
  obtain c where c: "run_ops lru_apply (lru_new cap) xs = Some c" "lru_inv c"
    "abs_lru c = foldl (a_op (unat cap)) [] xs" "maxBytes c = cap"
    using lru_run_refines [OF lru_new_inv, of xs cap] assms by (auto simp: lru_new_abs)
  have core: "lru_core c" using c(2) by (simp add: lru_inv_def)
  have "length (index c) = card (dom (map_of (index c)))"
    using core by (intro length_card_dom) (simp add: lru_core_def)
  also have "\<dots> = card (n_key ` set (order c))"
    using core by (simp add: lru_core_def node_index_def dom_map_of_conv_image_fst image_image)
  also have "\<dots> = length (order c)"
    using core by (simp add: lru_core_def nodes_ok_def distinct_card flip: set_map)
  finally show ?thesis
    using c core by (auto simp: lru_inv_def lru_core_def lru_sizeBytes_def lru_count_def abs_lru_def word_le_nat_alt)
qed

theorem lru_refines_recency_list_witness:
  "\<exists>c. run_ops lru_apply (lru_new 100) [OpPut ''a'' empty_entry, OpPut ''b'' empty_entry] = Some c \<and>
     map fst (abs_lru c) = [''b'']"
proof -
  have "\<forall>x \<in> set [OpPut ''a'' empty_entry, OpPut ''b'' empty_entry]. op_room 100 x"
    by code_simp
  moreover have "map fst (foldl (a_op (unat (100 :: u64))) []
      [OpPut ''a'' empty_entry, OpPut ''b'' empty_entry]) = [''b'']"
    by code_simp
  ultimately show ?thesis using lru_refines_recency_list by metis
qed

definition alru_bytes :: "alru \<Rightarrow> nat" where
  "alru_bytes xs = (\<Sum>q\<leftarrow>xs. unat (sizeBytes (snd q)))"

lemma alru_bytes_simps [simp]:
  "alru_bytes [] = 0" "alru_bytes (q # xs) = unat (sizeBytes (snd q)) + alru_bytes xs"
  by (simp_all add: alru_bytes_def)

lemma a_fit_bytes: "alru_bytes (a_fit m xs) \<le> m"
proof (induction xs arbitrary: m)
  case (Cons q xs)
  from Cons.IH [of "m - unat (sizeBytes (snd q))"] show ?case by auto
qed simp

lemma a_fit_next: "xs = a_fit m xs @ q # rest \<Longrightarrow> m < alru_bytes (a_fit m xs) + unat (sizeBytes (snd q))"
proof (induction xs arbitrary: m)
  case (Cons p xs)
  show ?case
  proof (cases "unat (sizeBytes (snd p)) \<le> m")
    case True
    with Cons.prems have "xs = a_fit (m - unat (sizeBytes (snd p))) xs @ q # rest" by simp
    from Cons.IH [OF this] True show ?thesis by auto
  next
    case False
    with Cons.prems show ?thesis by auto
  qed
qed simp

text \<open>\<^verbatim>\<open>put\<close> makes the entry the most recent one and then drops only from the least recently
  used end, and no more than needed: the first dropped entry would not have fitted. The eviction
  counter grows by exactly the number of dropped entries.\<close>

lemma put_evicts_least_recent:
  assumes "lru_inv c" "put_room c e"
  shows "\<exists>c' dropped. lru_put c k e = Some c' \<and> lru_inv c' \<and>
    (k, e) # filter (\<lambda>q. fst q \<noteq> k) (abs_lru c) = abs_lru c' @ dropped \<and>
    alru_bytes (abs_lru c') \<le> unat (maxBytes c) \<and>
    (dropped \<noteq> [] \<longrightarrow> unat (maxBytes c) < alru_bytes (abs_lru c') + unat (sizeBytes (snd (hd dropped)))) \<and>
    evictions c' = evictions c + of_nat (length dropped)"
proof -
  let ?xs = "(k, e) # filter (\<lambda>q. fst q \<noteq> k) (abs_lru c)"
  obtain c' where c': "lru_put c k e = Some c'" "lru_inv c'" "abs_lru c' = a_fit (unat (maxBytes c)) ?xs"
    "evictions c' = evictions c + of_nat (length ?xs - length (abs_lru c'))"
    using lru_put_refines [OF assms, of k] by (auto simp: a_put_def)
  obtain dropped where d: "?xs = a_fit (unat (maxBytes c)) ?xs @ dropped"
    using a_fit_prefix by blast
  have "length ?xs = length (abs_lru c') + length dropped"
    using c'(3) d by (metis length_append)
  moreover have "unat (maxBytes c) < alru_bytes (abs_lru c') + unat (sizeBytes (snd (hd dropped)))"
    if ne: "dropped \<noteq> []"
    using a_fit_next [of ?xs "unat (maxBytes c)" "hd dropped" "tl dropped"] d c'(3) ne by simp
  ultimately show ?thesis
    using c' d a_fit_bytes [of "unat (maxBytes c)" ?xs]
    by (intro exI [of _ c'] exI [of _ dropped]) auto
qed

lemma put_evicts_least_recent_witness:
  "\<exists>c'. lru_put (lru_new 100) ''k'' empty_entry = Some c' \<and> alru_bytes (abs_lru c') \<le> 100"
proof -
  have "put_room (lru_new 100) empty_entry" by code_simp
  from put_evicts_least_recent [OF lru_new_inv this, of "''k''"] show ?thesis
    by (auto simp: lru_new_def)
qed

end
