(* ===== verification/ShardedCache.thy ===== *)
theory ShardedCache
  imports LRUCache
begin

text \<open>
  \<^verbatim>\<open>cache/ShardedCache\<close>: a key lives in the shard \<^verbatim>\<open>hash(key) % shards\<close>. The hash
  (\<^verbatim>\<open>std::hash\<close>, left open by the standard) is the parameter \<open>h\<close>; nothing is assumed of
  it. The proofs reuse the shard's laws through the interpretation of \<open>cache_store\<close> and end in
  the interpretation of the same interface for the whole cache.
\<close>

type_synonym sharded = "lru list"

definition sharded_new :: "u64 \<Rightarrow> 32 word \<Rightarrow> sharded" where
  "sharded_new cap shards =
     (let shards = (if shards = 0 then 1 else shards);
          perShard = cap div (ucast shards);
          perShard = (if perShard = 0 then cap else perShard)
      in replicate (unat shards) (lru_new perShard))"

definition shardFor :: "(string \<Rightarrow> u64) \<Rightarrow> sharded \<Rightarrow> string \<Rightarrow> nat" where
  "shardFor h c key = unat (h key mod of_nat (length c))"

definition sharded_get :: "(string \<Rightarrow> u64) \<Rightarrow> sharded \<Rightarrow> string \<Rightarrow> (sharded \<times> cache_entry option) option" where
  "sharded_get h c key = (let i = shardFor h c key in
     case lru_get (c ! i) key of None \<Rightarrow> None | Some (s, r) \<Rightarrow> Some (c[i := s], r))"

definition sharded_put :: "(string \<Rightarrow> u64) \<Rightarrow> sharded \<Rightarrow> string \<Rightarrow> cache_entry \<Rightarrow> sharded option" where
  "sharded_put h c key entry = (let i = shardFor h c key in
     case lru_put (c ! i) key entry of None \<Rightarrow> None | Some s \<Rightarrow> Some (c[i := s]))"

definition sharded_erase :: "(string \<Rightarrow> u64) \<Rightarrow> sharded \<Rightarrow> string \<Rightarrow> (sharded \<times> bool) option" where
  "sharded_erase h c key = (let i = shardFor h c key in
     case lru_erase (c ! i) key of None \<Rightarrow> None | Some (s, r) \<Rightarrow> Some (c[i := s], r))"

fun fan_out :: "(lru \<Rightarrow> lru \<times> u64) \<Rightarrow> sharded \<Rightarrow> u64 \<Rightarrow> sharded \<times> u64" where
  "fan_out f [] n = ([], n)"
| "fan_out f (s # ss) n = (let (s', k) = f s; (ss', n') = fan_out f ss (n + k) in (s' # ss', n'))"

definition sharded_purge :: "sharded \<Rightarrow> string \<Rightarrow> sharded \<times> u64" where
  "sharded_purge c pattern = fan_out (\<lambda>s. lru_purge s pattern) c 0"

definition sharded_sweepExpired :: "sharded \<Rightarrow> time \<Rightarrow> sharded \<times> u64" where
  "sharded_sweepExpired c now = fan_out (\<lambda>s. lru_sweepExpired s now) c 0"

definition total :: "(lru \<Rightarrow> u64) \<Rightarrow> sharded \<Rightarrow> u64" where
  "total f c = foldl (\<lambda>n s. n + f s) 0 c"

definition sharded_sizeBytes :: "sharded \<Rightarrow> u64" where "sharded_sizeBytes c = total lru_sizeBytes c"

definition sharded_count :: "sharded \<Rightarrow> u64" where "sharded_count c = total lru_count c"

definition sharded_evictions :: "sharded \<Rightarrow> u64" where "sharded_evictions c = total evictions c"

section \<open>Routing\<close>

definition routed :: "(string \<Rightarrow> u64) \<Rightarrow> sharded \<Rightarrow> bool" where
  "routed h c = (\<forall>i < length c. \<forall>k. content (c ! i) k \<noteq> None \<longrightarrow> shardFor h c k = i)"

definition sharded_inv :: "(string \<Rightarrow> u64) \<Rightarrow> sharded \<Rightarrow> bool" where
  "sharded_inv h c = (c \<noteq> [] \<and> length c < 2 ^ 32 \<and> (\<forall>s \<in> set c. lru_inv s) \<and> routed h c)"

definition look :: "(string \<Rightarrow> u64) \<Rightarrow> sharded \<Rightarrow> string \<Rightarrow> cache_entry option" where
  "look h c k = content (c ! shardFor h c k) k"

definition sharded_room :: "sharded \<Rightarrow> cache_op \<Rightarrow> bool" where
  "sharded_room c = (\<lambda>x. list_all (\<lambda>cap. op_room cap x) (map maxBytes c))"

definition sharded_fits :: "(string \<Rightarrow> u64) \<Rightarrow> sharded \<Rightarrow> string \<Rightarrow> cache_entry \<Rightarrow> bool" where
  "sharded_fits h c k e = (sizeBytes e \<le> maxBytes (c ! shardFor h c k))"

fun sharded_apply :: "(string \<Rightarrow> u64) \<Rightarrow> sharded \<Rightarrow> cache_op \<Rightarrow> sharded option" where
  "sharded_apply h c (OpGet k) = map_option fst (sharded_get h c k)"
| "sharded_apply h c (OpPut k e) = sharded_put h c k e"
| "sharded_apply h c (OpErase k) = map_option fst (sharded_erase h c k)"
| "sharded_apply h c (OpPurge p) = Some (fst (sharded_purge c p))"
| "sharded_apply h c (OpSweep now) = Some (fst (sharded_sweepExpired c now))"

lemma shardFor_nat: "length c < 2 ^ 64 \<Longrightarrow> shardFor h c k = unat (h k) mod length c"
  unfolding shardFor_def by (simp only: unat_mod unat_of_nat_u64)

lemma shardFor_less:
  assumes "sharded_inv h c"
  shows "shardFor h c k < length c"
proof -
  have "length c < 2 ^ 32" "c \<noteq> []"
    using assms unfolding sharded_inv_def by blast+
  then have "length c < 2 ^ 64" "0 < length c"
    by simp_all
  then show ?thesis by (simp add: shardFor_nat)
qed

lemma shardFor_length: "length c = length c' \<Longrightarrow> shardFor h c k = shardFor h c' k"
  by (simp add: shardFor_def)

lemma shardFor_update [simp]: "shardFor h (c[i := s]) q = shardFor h c q"
  by (rule shardFor_length) simp

text \<open>Replacing one shard by one whose content stays on that shard's keys.\<close>

lemma update_shard:
  assumes inv: "sharded_inv h c" and s: "lru_inv s" "i = shardFor h c k"
    and sub: "content s \<subseteq>\<^sub>m (content (c ! i))(k := v)"
  shows "sharded_inv h (c[i := s])"
    and "look h (c[i := s]) q = (if shardFor h c q = i then content s q else look h c q)"
proof -
  have i: "i < length c" using shardFor_less [OF inv] s(2) by simp
  have "routed h (c[i := s])"
    unfolding routed_def
  proof (intro allI impI)
    fix j q
    assume j: "j < length (c[i := s])" and q: "content (c[i := s] ! j) q \<noteq> None"
    show "shardFor h (c[i := s]) q = j"
    proof (cases "j = i")
      case True
      with q i have "((content (c ! i))(k := v)) q \<noteq> None"
        using sub by (metis domIff map_le_def nth_list_update_eq)
      then show ?thesis
        using inv i s(2) True by (auto simp: sharded_inv_def routed_def split: if_splits)
    next
      case False
      with inv j q show ?thesis by (auto simp: sharded_inv_def routed_def)
    qed
  qed
  then show "sharded_inv h (c[i := s])"
    using inv s(1) i by (auto simp: sharded_inv_def dest: set_update_subset_insert [THEN subsetD])
  show "look h (c[i := s]) q = (if shardFor h c q = i then content s q else look h c q)"
    using i by (simp add: look_def)
qed

lemma map_maxBytes_update:
  "i < length c \<Longrightarrow> maxBytes s = maxBytes (c ! i) \<Longrightarrow> map maxBytes (c[i := s]) = map maxBytes c"
  by (simp add: map_update list_update_same_conv)

section \<open>Operations on one shard\<close>

fun op_key :: "cache_op \<Rightarrow> string option" where
  "op_key (OpGet k) = Some k"
| "op_key (OpPut k e) = Some k"
| "op_key (OpErase k) = Some k"
| "op_key _ = None"

lemma sharded_apply_keyed:
  "op_key x = Some k \<Longrightarrow>
     sharded_apply h c x = map_option (\<lambda>s. c[shardFor h c k := s]) (lru_apply (c ! shardFor h c k) x)"
  by (cases x) (auto simp: sharded_get_def sharded_put_def sharded_erase_def Let_def split: option.splits)

lemma spec_op_keyed: "op_key x = Some k \<Longrightarrow> q \<noteq> k \<Longrightarrow> spec_op m x q = m q"
  by (cases x) auto

lemma spec_op_local: "op_key x = Some k \<Longrightarrow> m q = m' q \<Longrightarrow> spec_op m x q = spec_op m' x q"
  by (cases x) auto

lemma spec_op_upd: "op_key x = Some k \<Longrightarrow> \<exists>v. spec_op m x = m(k := v)"
  by (cases x) (auto intro: exI [of _ "m k"])

lemma sharded_keyed_step:
  assumes inv: "sharded_inv h c" and room: "sharded_room c x" and k: "op_key x = Some k"
  shows "\<exists>s'. lru_apply (c ! shardFor h c k) x = Some s' \<and> sharded_inv h (c[shardFor h c k := s']) \<and>
    look h (c[shardFor h c k := s']) \<subseteq>\<^sub>m spec_op (look h c) x \<and>
    map maxBytes (c[shardFor h c k := s']) = map maxBytes c"
proof -
  let ?i = "shardFor h c k"
  have i: "?i < length c" using inv by (rule shardFor_less)
  have li: "lru_inv (c ! ?i)" using inv i by (simp add: sharded_inv_def)
  have lr: "lru_room (c ! ?i) x" using room i by (simp add: sharded_room_def list_all_iff lru_room_def)
  obtain s' where s': "lru_apply (c ! ?i) x = Some s'" "lru_inv s'" "maxBytes s' = maxBytes (c ! ?i)"
    using lru_apply_refines [OF li lr] by blast
  have le: "content s' \<subseteq>\<^sub>m spec_op (content (c ! ?i)) x"
    using lru_store.op_step [OF li lr] s'(1) by auto
  moreover obtain v where "spec_op (content (c ! ?i)) x = (content (c ! ?i))(k := v)"
    using spec_op_upd [OF k] by blast
  ultimately have sub: "content s' \<subseteq>\<^sub>m (content (c ! ?i))(k := v)" by simp
  note upd = update_shard [OF inv s'(2) refl sub]
  have "look h (c[?i := s']) \<subseteq>\<^sub>m spec_op (look h c) x"
    unfolding map_le_def
  proof
    fix q
    assume q: "q \<in> dom (look h (c[?i := s']))"
    show "look h (c[?i := s']) q = spec_op (look h c) x q"
    proof (cases "shardFor h c q = ?i")
      case True
      then have "content s' q = spec_op (content (c ! ?i)) x q"
        using q le upd(2) [of q] by (auto simp: map_le_def dom_def)
      with True show ?thesis
        using upd(2) [of q] spec_op_local [OF k, of "content (c ! ?i)" q "look h c"] by (simp add: look_def)
    next
      case False
      then have "q \<noteq> k" by auto
      with False show ?thesis using upd(2) [of q] spec_op_keyed [OF k] by simp
    qed
  qed
  then show ?thesis
    using s' upd(1) map_maxBytes_update [OF i s'(3)] by (simp add: sharded_room_def)
qed

section \<open>Operations on every shard\<close>

lemma fan_out_eq: "fan_out f ss n = (map (\<lambda>s. fst (f s)) ss, n + (\<Sum>s\<leftarrow>ss. snd (f s)))"
  by (induction ss arbitrary: n) (auto simp: Let_def add.assoc split: prod.splits)

lemma broadcast:
  assumes inv: "sharded_inv h c"
    and g: "\<And>s. s \<in> set c \<Longrightarrow> lru_inv (g s) \<and> maxBytes (g s) = maxBytes s \<and> content (g s) \<subseteq>\<^sub>m content s"
  shows "sharded_inv h (map g c)" "map maxBytes (map g c) = map maxBytes c"
    "look h (map g c) k = content (g (c ! shardFor h c k)) k"
proof -
  have same: "shardFor h (map g c) q = shardFor h c q" for q by (rule shardFor_length) simp
  have "routed h (map g c)"
    unfolding routed_def
  proof (intro allI impI)
    fix i q
    assume i: "i < length (map g c)" and q: "content (map g c ! i) q \<noteq> None"
    with g [of "c ! i"] have "content (c ! i) q \<noteq> None"
      by (auto simp: map_le_def dom_def)
    then show "shardFor h (map g c) q = i"
      using inv i by (auto simp: same sharded_inv_def routed_def)
  qed
  then show "sharded_inv h (map g c)"
    using inv g by (auto simp: sharded_inv_def)
  show "map maxBytes (map g c) = map maxBytes c"
    using g by simp
  show "look h (map g c) k = content (g (c ! shardFor h c k)) k"
    using shardFor_less [OF inv] by (simp add: look_def same)
qed

lemma purge_shard:
  "lru_inv s \<Longrightarrow> lru_inv (fst (lru_purge s p)) \<and> maxBytes (fst (lru_purge s p)) = maxBytes s \<and>
     abs_lru (fst (lru_purge s p)) = filter (\<lambda>q. \<not> purgeMatches p (fst q)) (abs_lru s) \<and>
     snd (lru_purge s p) = of_nat (length (filter (\<lambda>q. purgeMatches p (fst q)) (abs_lru s)))"
  using lru_purge_refines [of s p] by (cases "lru_purge s p") simp

lemma purge_content:
  "lru_inv s \<Longrightarrow> content (fst (lru_purge s p)) k = (if purgeMatches p k then None else content s k)"
  by (simp add: content_abs purge_shard map_of_filter_key [where P = "\<lambda>q. \<not> purgeMatches p q"])

lemma sweep_shard:
  "lru_inv s \<Longrightarrow> lru_inv (fst (lru_sweepExpired s now)) \<and>
     maxBytes (fst (lru_sweepExpired s now)) = maxBytes s \<and>
     abs_lru (fst (lru_sweepExpired s now)) = filter (\<lambda>q. isServeableStale (snd q) now) (abs_lru s)"
  using lru_sweep_refines [of s now] by (cases "lru_sweepExpired s now") simp

lemma sweep_content:
  "lru_inv s \<Longrightarrow> content (fst (lru_sweepExpired s now)) k = spec_op (content s) (OpSweep now) k"
  using map_of_filter_val [OF abs_distinct, of s "\<lambda>e. isServeableStale e now" k]
  by (simp add: content_abs sweep_shard)

lemma look_purge:
  assumes inv: "sharded_inv h c"
  shows "sharded_inv h (fst (sharded_purge c p))" "map maxBytes (fst (sharded_purge c p)) = map maxBytes c"
    "look h (fst (sharded_purge c p)) = spec_op (look h c) (OpPurge p)"
proof -
  have g: "lru_inv (fst (lru_purge s p)) \<and> maxBytes (fst (lru_purge s p)) = maxBytes s \<and>
      content (fst (lru_purge s p)) \<subseteq>\<^sub>m content s" if "s \<in> set c" for s
    using that inv purge_shard [of s p] purge_content [of s p]
    by (auto simp: sharded_inv_def map_le_def dom_def split: if_splits)
  note b = broadcast [OF inv g]
  show "sharded_inv h (fst (sharded_purge c p))" "map maxBytes (fst (sharded_purge c p)) = map maxBytes c"
    using b by (simp_all add: sharded_purge_def fan_out_eq)
  show "look h (fst (sharded_purge c p)) = spec_op (look h c) (OpPurge p)"
    using b(3) shardFor_less [OF inv] inv
    by (auto simp: sharded_purge_def fan_out_eq look_def purge_content sharded_inv_def)
qed

lemma look_sweep:
  assumes inv: "sharded_inv h c"
  shows "sharded_inv h (fst (sharded_sweepExpired c now))"
    "map maxBytes (fst (sharded_sweepExpired c now)) = map maxBytes c"
    "look h (fst (sharded_sweepExpired c now)) = spec_op (look h c) (OpSweep now)"
proof -
  have g: "lru_inv (fst (lru_sweepExpired s now)) \<and> maxBytes (fst (lru_sweepExpired s now)) = maxBytes s \<and>
      content (fst (lru_sweepExpired s now)) \<subseteq>\<^sub>m content s" if "s \<in> set c" for s
    using that inv sweep_shard [of s now] sweep_content [of s now]
    by (auto simp: sharded_inv_def map_le_def dom_def split: if_splits option.splits)
  note b = broadcast [OF inv g]
  show "sharded_inv h (fst (sharded_sweepExpired c now))"
    "map maxBytes (fst (sharded_sweepExpired c now)) = map maxBytes c"
    using b by (simp_all add: sharded_sweepExpired_def fan_out_eq)
  show "look h (fst (sharded_sweepExpired c now)) = spec_op (look h c) (OpSweep now)"
    using b(3) shardFor_less [OF inv] inv
    by (auto simp: sharded_sweepExpired_def fan_out_eq look_def sweep_content sharded_inv_def)
qed

section \<open>The cache interface\<close>

lemma sharded_apply_step:
  assumes "sharded_inv h c" "sharded_room c x"
  shows "\<exists>c'. sharded_apply h c x = Some c' \<and> sharded_inv h c' \<and>
    look h c' \<subseteq>\<^sub>m spec_op (look h c) x \<and> map maxBytes c' = map maxBytes c"
proof (cases "op_key x")
  case (Some k)
  then show ?thesis
    using sharded_keyed_step [OF assms Some] sharded_apply_keyed [OF Some, of h c] by auto
next
  case None
  then consider p where "x = OpPurge p" | now where "x = OpSweep now" by (cases x) auto
  then show ?thesis
    using look_purge [OF assms(1)] look_sweep [OF assms(1)] by cases auto
qed

lemma sharded_get_step:
  assumes inv: "sharded_inv h c"
  shows "\<exists>c'. sharded_get h c k = Some (c', look h c k) \<and> sharded_inv h c' \<and> look h c' = look h c \<and>
    map maxBytes c' = map maxBytes c"
proof -
  let ?i = "shardFor h c k"
  have i: "?i < length c" using inv by (rule shardFor_less)
  then have li: "lru_inv (c ! ?i)" using inv by (simp add: sharded_inv_def)
  obtain s where s: "lru_get (c ! ?i) k = Some (s, content (c ! ?i) k)" "lru_inv s"
    "content s = content (c ! ?i)" "maxBytes s = maxBytes (c ! ?i)"
    using lru_get_refines [OF li, of k] by (auto simp: content_abs a_get_look)
  have "content s \<subseteq>\<^sub>m (content (c ! ?i))(k := content (c ! ?i) k)" using s(3) by simp
  note upd = update_shard [OF inv s(2) refl this]
  have "look h (c[?i := s]) q = look h c q" for q
    using upd(2) [of q] s(3) by (simp add: look_def)
  then show ?thesis
    using s upd(1) map_maxBytes_update [OF i s(4)] by (auto simp: sharded_get_def Let_def look_def sharded_room_def)
qed

interpretation sharded: cache_store "sharded_apply h" "sharded_get h" "look h" "sharded_inv h" sharded_room "sharded_fits h"
  for h :: "string \<Rightarrow> u64"
proof
  fix c x
  assume "sharded_inv h c" "sharded_room c x"
  then show "\<exists>c'. sharded_apply h c x = Some c' \<and> sharded_inv h c' \<and>
      look h c' \<subseteq>\<^sub>m spec_op (look h c) x \<and> sharded_room c' = sharded_room c"
    using sharded_apply_step [of h c x] by (auto simp: sharded_room_def)
next
  fix c k
  assume "sharded_inv h c"
  then show "\<exists>c'. sharded_get h c k = Some (c', look h c k) \<and> sharded_inv h c' \<and> look h c' = look h c"
    using sharded_get_step by blast
next
  fix c k e c'
  assume a: "sharded_inv h c" "sharded_room c (OpPut k e)" "sharded_fits h c k e"
    "sharded_apply h c (OpPut k e) = Some c'"
  let ?i = "shardFor h c k"
  have i: "?i < length c" using a(1) by (rule shardFor_less)
  have li: "lru_inv (c ! ?i)" and lr: "lru_room (c ! ?i) (OpPut k e)"
    using a(1,2) i by (simp_all add: sharded_inv_def sharded_room_def list_all_iff lru_room_def)
  obtain s where s: "lru_apply (c ! ?i) (OpPut k e) = Some s" "c' = c[?i := s]"
    using a(4) by (auto simp: sharded_put_def Let_def split: option.splits)
  have "content s k = Some e"
    using lru_store.put_hit [OF li lr _ s(1)] a(3) by (simp add: sharded_fits_def lru_fits_def)
  then show "look h c' k = Some e"
    using i s(2) by (simp add: look_def)
qed

lemma sharded_new_inv: "sharded_inv h (sharded_new cap n)"
proof -
  have "unat (if n = 0 then 1 else n) < 2 ^ 32"
    using unsigned_less [of "if n = 0 then 1 else n", where 'a = nat] by simp
  moreover have "0 < unat (if n = 0 then 1 else n)"
    by (simp add: unat_gt_0)
  ultimately show ?thesis
    by (auto simp: sharded_new_def Let_def sharded_inv_def routed_def lru_new_inv content_abs lru_new_abs
        simp del: unat_eq_zero split del: if_split)
qed

lemma sharded_new_look: "look h (sharded_new cap n) = Map.empty"
proof -
  have "shardFor h (sharded_new cap n) k < length (sharded_new cap n)" for k
    by (rule shardFor_less) (rule sharded_new_inv)
  then show ?thesis
    by (auto simp: look_def sharded_new_def Let_def content_abs lru_new_abs fun_eq_iff split del: if_split)
qed

section \<open>Properties\<close>

text \<open>C4: whatever the number of shards and whatever the hash function, after any history of
  operations on a new cache every lookup is defined and returns either nothing or exactly the
  entry the history last put under that very key and has neither erased, purged nor swept since.\<close>

theorem sharded_lookup_sound:
  assumes "\<forall>x \<in> set xs. sharded_room (sharded_new cap n) x"
  shows "\<exists>c c' r. run_ops (sharded_apply h) (sharded_new cap n) xs = Some c \<and>
    sharded_get h c k = Some (c', r) \<and> (r = None \<or> r = foldl spec_op Map.empty xs k)"
  using sharded.get_after_run [OF sharded_new_inv sharded_new_look assms] .

theorem sharded_lookup_sound_witness:
  "\<exists>c c' r. run_ops (sharded_apply (\<lambda>k. of_nat (length k))) (sharded_new 1000 2)
       [OpPut ''a'' empty_entry, OpErase ''a''] = Some c \<and>
     sharded_get (\<lambda>k. of_nat (length k)) c ''a'' = Some (c', r) \<and> r = None"
proof -
  have "\<forall>x \<in> set [OpPut ''a'' empty_entry, OpErase ''a'']. sharded_room (sharded_new 1000 2) x"
    by code_simp
  from sharded_lookup_sound [OF this, of "\<lambda>k. of_nat (length k)" "''a''"] show ?thesis
    by auto
qed

definition abs_sharded :: "sharded \<Rightarrow> alru" where
  "abs_sharded c = concat (map abs_lru c)"

lemma of_nat_sum_list: "(\<Sum>x\<leftarrow>xs. of_nat (f x)) = (of_nat (\<Sum>x\<leftarrow>xs. f x) :: u64)"
  by (induction xs) auto

lemma sharded_purge_abs:
  assumes "\<forall>s \<in> set c. lru_inv s"
  shows "abs_sharded (fst (sharded_purge c p)) = filter (\<lambda>q. \<not> purgeMatches p (fst q)) (abs_sharded c)"
    and "snd (sharded_purge c p) = of_nat (length (filter (\<lambda>q. purgeMatches p (fst q)) (abs_sharded c)))"
proof -
  show "abs_sharded (fst (sharded_purge c p)) = filter (\<lambda>q. \<not> purgeMatches p (fst q)) (abs_sharded c)"
    using assms purge_shard
    by (simp add: abs_sharded_def sharded_purge_def fan_out_eq filter_concat comp_def cong: map_cong)
  have "(\<Sum>s\<leftarrow>c. snd (lru_purge s p)) =
      (\<Sum>s\<leftarrow>c. of_nat (length (filter (\<lambda>q. purgeMatches p (fst q)) (abs_lru s))))"
    using assms purge_shard by (intro arg_cong [of _ _ sum_list] map_cong) auto
  then show "snd (sharded_purge c p) = of_nat (length (filter (\<lambda>q. purgeMatches p (fst q)) (abs_sharded c)))"
    by (simp add: abs_sharded_def sharded_purge_def fan_out_eq filter_concat length_concat comp_def
        of_nat_sum_list)
qed

text \<open>C18: a purge reaches every shard: afterwards no entry of the cache matches the pattern, every
  other entry is still there unchanged and in order, the reported number is the number of entries
  removed, and delivering the same purge again removes nothing and reports 0.\<close>

theorem purge_complete_and_idempotent:
  assumes "sharded_inv h c" "sharded_purge c p = (c', n)"
  shows "sharded_inv h c' \<and> abs_sharded c' = filter (\<lambda>q. \<not> purgeMatches p (fst q)) (abs_sharded c) \<and>
    (\<forall>k. look h c' k = (if purgeMatches p k then None else look h c k)) \<and>
    n = of_nat (length (abs_sharded c) - length (abs_sharded c')) \<and> snd (sharded_purge c' p) = 0"
proof -
  have li: "\<forall>s \<in> set c. lru_inv s" using assms(1) by (simp add: sharded_inv_def)
  have inv': "sharded_inv h c'" and look': "look h c' = spec_op (look h c) (OpPurge p)"
    using look_purge [OF assms(1), of p] assms(2) by simp_all
  have abs': "abs_sharded c' = filter (\<lambda>q. \<not> purgeMatches p (fst q)) (abs_sharded c)"
    and n: "n = of_nat (length (filter (\<lambda>q. purgeMatches p (fst q)) (abs_sharded c)))"
    using sharded_purge_abs [OF li, of p] assms(2) by simp_all
  have "length (filter (\<lambda>q. purgeMatches p (fst q)) (abs_sharded c)) =
      length (abs_sharded c) - length (abs_sharded c')"
    using sum_length_filter_compl [of "\<lambda>q. purgeMatches p (fst q)" "abs_sharded c"] abs' by simp
  moreover have "\<forall>s \<in> set c'. lru_inv s" using inv' by (simp add: sharded_inv_def)
  then have "snd (sharded_purge c' p) = 0"
    using sharded_purge_abs(2) [of c' p] abs' by (simp add: filter_empty_conv)
  ultimately show ?thesis using inv' look' abs' n by simp
qed

theorem purge_complete_and_idempotent_witness:
  "snd (sharded_purge (fst (sharded_purge (sharded_new 1000 4) ''/a/*'')) ''/a/*'') = 0"
  using purge_complete_and_idempotent [OF sharded_new_inv, of 1000 4 "''/a/*''"
      "fst (sharded_purge (sharded_new 1000 4) ''/a/*'')" "snd (sharded_purge (sharded_new 1000 4) ''/a/*'')"]
  by simp

lemma shard_bytes: "lru_inv s \<Longrightarrow> node_bytes (order s) \<le> unat (maxBytes s)"
  by (simp add: lru_inv_def lru_core_def word_le_nat_alt)

text \<open>With at most as many shards as bytes of capacity, the shards together never hold more bytes than
  the configured capacity.\<close>

lemma sharded_bytes:
  assumes "sharded_inv h c" "map maxBytes c = map maxBytes (sharded_new cap n)" "ucast n \<le> cap" "n \<noteq> 0"
  shows "(\<Sum>s\<leftarrow>c. node_bytes (order s)) \<le> unat cap"
proof -
  let ?w = "ucast n :: u64"
  have w: "unat ?w = unat n"
    using unsigned_less [of n, where 'a = nat] by (simp add: unsigned_ucast_eq take_bit_nat_eq_self)
  have n0: "0 < unat n" using assms(4) by (simp add: unat_gt_0)
  have per: "unat (cap div ?w) = unat cap div unat n" by (simp add: unat_div w)
  have "unat n \<le> unat cap" using assms(3) w by (simp add: word_le_nat_alt)
  then have "cap div ?w \<noteq> 0"
    using per n0 by (metis div_greater_zero_iff less_numeral_extra(3) unat_0)
  then have caps: "map maxBytes c = replicate (unat n) (cap div ?w)"
    using assms(2,4) by (simp add: sharded_new_def Let_def lru_new_def)
  have "(\<Sum>s\<leftarrow>c. node_bytes (order s)) \<le> (\<Sum>s\<leftarrow>c. unat (maxBytes s))"
    using assms(1) by (intro sum_list_mono) (simp add: sharded_inv_def shard_bytes)
  also have "\<dots> = sum_list (map unat (map maxBytes c))"
    by (simp add: comp_def)
  also have "\<dots> = unat n * (unat cap div unat n)"
    by (simp add: caps per sum_list_replicate del: map_map)
  also have "\<dots> \<le> unat cap" by simp
  finally show ?thesis .
qed

text \<open>No shard is larger than the capacity.\<close>

lemma sharded_new_caps: "cap' \<in> set (map maxBytes (sharded_new cap n)) \<Longrightarrow> unat cap' \<le> unat cap"
  by (auto simp: sharded_new_def Let_def lru_new_def unat_div)

end
