(* ===== verification/RuleStore.thy ===== *)
theory RuleStore
  imports CacheEntry
begin

text \<open>
  \<^verbatim>\<open>redis/RuleStore\<close> and the rule parser of \<^verbatim>\<open>redis/RedisCoordinator.cpp\<close>. The order that
  \<^verbatim>\<open>std::sort\<close> gives to patterns of equal length is left open by the standard, so the sort is
  the parameter \<open>srt\<close>, of which only the documented result is used (\<open>sorts_by_length\<close>).
\<close>

section \<open>The store\<close>

record rule =
  r_pattern :: string
  r_ttl :: u64
  r_swr :: u64
  r_originId :: string

record rule_store =
  rules :: "rule list"
  loaded :: bool

definition empty_store :: rule_store where
  "empty_store = \<lparr>rules = [], loaded = False\<rparr>"

definition patternMatches :: "string \<Rightarrow> string \<Rightarrow> bool" where
  "patternMatches pattern path =
     (if pattern = ''*'' \<or> pattern = ''/*'' then True
      else if pattern \<noteq> [] \<and> last pattern = CHR ''*''
      then substr path 0 (length pattern - 1) = substr pattern 0 (length pattern - 1)
      else pattern = path)"

definition replaceAll :: "(rule list \<Rightarrow> rule list) \<Rightarrow> rule list \<Rightarrow> rule_store \<Rightarrow> rule_store" where
  "replaceAll srt rs st = st\<lparr>rules := srt rs, loaded := True\<rparr>"

fun match_loop :: "rule list \<Rightarrow> string \<Rightarrow> rule option" where
  "match_loop [] path = None"
| "match_loop (r # rs) path = (if patternMatches (r_pattern r) path then Some r else match_loop rs path)"

definition match_rule :: "rule_store \<Rightarrow> string \<Rightarrow> rule option" where
  "match_rule st path = match_loop (rules st) path"

definition store_size :: "rule_store \<Rightarrow> nat" where
  "store_size st = length (rules st)"

text \<open>What the standard promises of \<^verbatim>\<open>std::sort\<close> with the comparator of \<^verbatim>\<open>replaceAll\<close>.\<close>

definition longer_first :: "rule \<Rightarrow> rule \<Rightarrow> bool" where
  "longer_first a b = (length (r_pattern b) \<le> length (r_pattern a))"

definition sorts_by_length :: "(rule list \<Rightarrow> rule list) \<Rightarrow> bool" where
  "sorts_by_length srt \<longleftrightarrow> (\<forall>rs. mset (srt rs) = mset rs \<and> sorted_wrt longer_first (srt rs))"

section \<open>Parsing a rule\<close>

definition QUOTE :: char where "QUOTE = CHR 0x22"

definition jsonField :: "string \<Rightarrow> string \<Rightarrow> string" where
  "jsonField json key =
     (let needle = QUOTE # key @ [QUOTE] in
      case find_from needle json 0 of None \<Rightarrow> []
      | Some p \<Rightarrow> (case find_from '':'' json (p + length needle) of None \<Rightarrow> []
          | Some c \<Rightarrow> (case dropWhile blank (drop (c + 1) json) of [] \<Rightarrow> []
              | ch # r \<Rightarrow>
                  if ch = QUOTE then (case find_char QUOTE r of None \<Rightarrow> [] | Some e \<Rightarrow> take e r)
                  else takeWhile (\<lambda>c. c \<noteq> CHR '','' \<and> c \<noteq> CHR ''}'' \<and> c \<noteq> CHR '' '') (ch # r))))"

definition toU64 :: "string \<Rightarrow> u64 \<Rightarrow> u64" where
  "toU64 s d = (if s = [] then d else (case stoull s of None \<Rightarrow> d | Some v \<Rightarrow> v))"

definition parseRuleJson :: "string \<Rightarrow> string \<Rightarrow> rule" where
  "parseRuleJson pathPattern json =
     \<lparr>r_pattern = pathPattern, r_ttl = toU64 (jsonField json ''ttl'') 0,
      r_swr = toU64 (jsonField json ''swr'') 0, r_originId = jsonField json ''originId''\<rparr>"

text \<open>The writer: \<^verbatim>\<open>JSON.stringify\<close> of the rule in the control plane, for an origin id that needs
  no escape.\<close>

definition ruleValue :: "rule \<Rightarrow> string" where
  "ruleValue r =
     ''{'' @ QUOTE # ''ttl'' @ QUOTE # '':'' @ show_nat (unat (r_ttl r)) @
     '','' @ QUOTE # ''swr'' @ QUOTE # '':'' @ show_nat (unat (r_swr r)) @
     '','' @ QUOTE # ''originId'' @ QUOTE # '':'' @ QUOTE # r_originId r @ QUOTE # ''}''"

section \<open>Matching\<close>

lemma patternMatches_spec: "patternMatches pattern path \<longleftrightarrow> wild_spec pattern path"
  unfolding patternMatches_def substr_0 wild_code [symmetric] by auto

lemma match_loop_None: "match_loop rs path = None \<longleftrightarrow> (\<forall>r \<in> set rs. \<not> wild_spec (r_pattern r) path)"
  by (induction rs) (auto simp: patternMatches_spec)

lemma match_loop_Some:
  "match_loop rs path = Some r \<Longrightarrow> sorted_wrt longer_first rs \<Longrightarrow>
     r \<in> set rs \<and> wild_spec (r_pattern r) path \<and>
     (\<forall>q \<in> set rs. wild_spec (r_pattern q) path \<longrightarrow> longer_first r q)"
  by (induction rs) (auto simp: patternMatches_spec longer_first_def split: if_splits)

lemma sorts_by_length_set: "sorts_by_length srt \<Longrightarrow> set (srt rs) = set rs"
  by (metis sorts_by_length_def set_mset_mset)

lemma sorts_by_length_sort_key: "sorts_by_length (sort_key (\<lambda>r. - int (length (r_pattern r))))"
proof -
  have "sorted_wrt longer_first (sort_key (\<lambda>r. - int (length (r_pattern r))) rs)" for rs
    using sorted_sort_key [of "\<lambda>r. - int (length (r_pattern r))" rs]
    by (simp add: sorted_map sorted_wrt_mono_rel [of _ "\<lambda>x y. - int (length (r_pattern x)) \<le> - int (length (r_pattern y))"]
        longer_first_def)
  then show ?thesis by (simp add: sorts_by_length_def)
qed

section \<open>Reading a written rule\<close>

lemma find_from_0 [simp]: "find_from n s 0 = find_sub n s"
  by (cases "find_sub n s") (simp_all add: find_from_def)

lemma QUOTE_not_digit: "\<not> isdigit QUOTE"
  by code_simp

lemma digits_no:
  "\<not> isdigit x \<Longrightarrow> \<forall>c \<in> set (show_nat n). c \<noteq> x"
  using show_nat_no_char by blast

lemma find_quoted_skip_digits:
  "find_sub (QUOTE # n) (show_nat k @ s) = map_option ((+) (length (show_nat k))) (find_sub (QUOTE # n) s)"
  using digits_no [OF QUOTE_not_digit] by (intro find_sub_skip) auto

lemma takeWhile_number:
  assumes "c = CHR '','' \<or> c = CHR ''}''"
  shows "takeWhile (\<lambda>c. c \<noteq> CHR '','' \<and> c \<noteq> CHR ''}'' \<and> c \<noteq> CHR '' '') (show_nat k @ c # s) = show_nat k"
proof -
  have "\<not> isdigit CHR '',''" "\<not> isdigit CHR ''}''" "\<not> isdigit CHR '' ''" by code_simp+
  then have "\<forall>x \<in> set (show_nat k). x \<noteq> CHR '','' \<and> x \<noteq> CHR ''}'' \<and> x \<noteq> CHR '' ''"
    using digits_no by blast
  then show ?thesis using assms by (auto simp: takeWhile_append)
qed

lemma toU64_show [simp]: "toU64 (show_nat (unat w)) d = w"
  by (simp add: toU64_def)

text \<open>A field is read from the first occurrence of its quoted name.\<close>

lemma jsonField_at:
  assumes "json = pre @ (QUOTE # key @ [QUOTE]) @ '':'' @ val"
    and "find_sub (QUOTE # key @ [QUOTE]) json = Some (length pre)"
  shows "jsonField json key = (case dropWhile blank val of [] \<Rightarrow> []
     | ch # r \<Rightarrow> if ch = QUOTE then (case find_char QUOTE r of None \<Rightarrow> [] | Some e \<Rightarrow> take e r)
         else takeWhile (\<lambda>c. c \<noteq> CHR '','' \<and> c \<noteq> CHR ''}'' \<and> c \<noteq> CHR '' '') (ch # r))"
proof -
  let ?n = "QUOTE # key @ [QUOTE]"
  have d: "drop (length pre + length ?n) json = '':'' @ val"
    using assms(1) by simp
  have "find_from '':'' json (length pre + length ?n) = Some (length pre + length ?n)"
    unfolding find_from_def d using assms(1) find_sub_here [of "'':''" val] by simp
  moreover have "drop (length pre + length ?n + 1) json = val"
    using d by (metis drop_drop add.commute drop0 drop_Suc_Cons append_Cons append_Nil One_nat_def plus_1_eq_Suc)
  ultimately show ?thesis
    using assms(2) by (simp add: jsonField_def Let_def del: drop_append)
qed

lemma number_field:
  assumes "c = CHR '','' \<or> c = CHR ''}''"
  shows "(case dropWhile blank (show_nat k @ c # s) of [] \<Rightarrow> []
     | ch # r \<Rightarrow> if ch = QUOTE then (case find_char QUOTE r of None \<Rightarrow> [] | Some e \<Rightarrow> take e r)
         else takeWhile (\<lambda>c. c \<noteq> CHR '','' \<and> c \<noteq> CHR ''}'' \<and> c \<noteq> CHR '' '') (ch # r)) = show_nat k"
proof -
  obtain ch r where sh: "show_nat k = ch # r" by (meson neq_Nil_conv show_nat_nonempty)
  then have "isdigit ch" using show_nat_hd [of k] by simp
  then have "\<not> blank ch" "ch \<noteq> QUOTE"
    using isdigit_not_space QUOTE_not_digit by (auto simp: blank_def isspace_def isdigit_def TAB_def Let_def)
  then have "dropWhile blank (show_nat k @ c # s) = ch # r @ c # s" by (simp add: sh)
  moreover have "takeWhile (\<lambda>c. c \<noteq> CHR '','' \<and> c \<noteq> CHR ''}'' \<and> c \<noteq> CHR '' '') (ch # r @ c # s) = show_nat k"
    using takeWhile_number [OF assms, of k s] by (simp only: sh append_Cons)
  ultimately show ?thesis using \<open>ch \<noteq> QUOTE\<close> by (simp only: list.case if_False)
qed

lemma QUOTE_neq [simp]:
  "QUOTE \<noteq> CHR ''{''" "CHR ''{'' \<noteq> QUOTE" "QUOTE \<noteq> CHR '':''" "CHR '':'' \<noteq> QUOTE"
  "QUOTE \<noteq> CHR '',''" "CHR '','' \<noteq> QUOTE" "CHR ''t'' \<noteq> QUOTE" "CHR ''l'' \<noteq> QUOTE"
  "CHR ''s'' \<noteq> QUOTE" "CHR ''w'' \<noteq> QUOTE" "CHR ''r'' \<noteq> QUOTE" "\<not> blank QUOTE"
  by code_simp+

lemma parse_ruleValue:
  assumes "QUOTE \<notin> set (r_originId r)"
  shows "parseRuleJson p (ruleValue r) = r\<lparr>r_pattern := p\<rparr>"
proof -
  let ?a = "show_nat (unat (r_ttl r))" and ?b = "show_nat (unat (r_swr r))"
  let ?c = "QUOTE # r_originId r @ QUOTE # ''}''"
  have v1: "ruleValue r = ''{'' @ (QUOTE # ''ttl'' @ [QUOTE]) @ '':'' @ (?a @ CHR '','' #
      QUOTE # ''swr'' @ QUOTE # '':'' @ ?b @ '','' @ QUOTE # ''originId'' @ QUOTE # '':'' @ ?c)"
    by (simp add: ruleValue_def)
  have v2: "ruleValue r = (''{'' @ QUOTE # ''ttl'' @ QUOTE # '':'' @ ?a @ '','') @
      (QUOTE # ''swr'' @ [QUOTE]) @ '':'' @ (?b @ CHR '','' # QUOTE # ''originId'' @ QUOTE # '':'' @ ?c)"
    by (simp add: ruleValue_def)
  have v3: "ruleValue r = (''{'' @ QUOTE # ''ttl'' @ QUOTE # '':'' @ ?a @ '','' @ QUOTE # ''swr'' @ QUOTE #
      '':'' @ ?b @ '','') @ (QUOTE # ''originId'' @ [QUOTE]) @ '':'' @ ?c"
    by (simp add: ruleValue_def)
  have f1: "find_sub (QUOTE # ''ttl'' @ [QUOTE]) (ruleValue r) = Some 1"
    by (simp add: ruleValue_def)
  have f2: "find_sub (QUOTE # ''swr'' @ [QUOTE]) (ruleValue r) = Some (8 + length ?a)"
    by (simp add: ruleValue_def find_quoted_skip_digits)
  have f3: "find_sub (QUOTE # ''originId'' @ [QUOTE]) (ruleValue r) = Some (15 + length ?a + length ?b)"
    by (simp add: ruleValue_def find_quoted_skip_digits)
  have "jsonField (ruleValue r) ''ttl'' = ?a"
    by (subst jsonField_at [OF v1]) (use f1 in simp, rule number_field, simp)
  moreover have "jsonField (ruleValue r) ''swr'' = ?b"
    by (subst jsonField_at [OF v2]) (use f2 in simp, rule number_field, simp)
  moreover have "jsonField (ruleValue r) ''originId'' = r_originId r"
    using assms by (subst jsonField_at [OF v3]) (use f3 in simp, simp add: find_char_append)
  ultimately show ?thesis by (simp add: parseRuleJson_def)
qed

section \<open>Properties\<close>

text \<open>Whatever order the sort gives to equally long patterns, the rule that applies to a path is
  a stored rule whose pattern matches it and no stored matching pattern is longer; there is none
  exactly when no stored pattern matches.\<close>

lemma match_longest_pattern:
  assumes "sorts_by_length srt"
  shows "(case match_rule (replaceAll srt rs st) path of
      None \<Rightarrow> \<forall>q \<in> set rs. \<not> wild_spec (r_pattern q) path
    | Some r \<Rightarrow> r \<in> set rs \<and> wild_spec (r_pattern r) path \<and>
        (\<forall>q \<in> set rs. wild_spec (r_pattern q) path \<longrightarrow> length (r_pattern q) \<le> length (r_pattern r)))"
proof -
  have "set (srt rs) = set rs" "sorted_wrt longer_first (srt rs)"
    using assms sorts_by_length_set by (auto simp: sorts_by_length_def)
  then show ?thesis
    using match_loop_None [of "srt rs" path] match_loop_Some [of "srt rs" path]
    by (auto simp: match_rule_def replaceAll_def longer_first_def split: option.splits)
qed

definition rule_a :: rule where
  "rule_a = \<lparr>r_pattern = ''/a/*'', r_ttl = 10, r_swr = 0, r_originId = []\<rparr>"

definition rule_ab :: rule where
  "rule_ab = \<lparr>r_pattern = ''/a/b/*'', r_ttl = 20, r_swr = 0, r_originId = []\<rparr>"

lemma match_longest_pattern_witness:
  "(case match_rule (replaceAll (sort_key (\<lambda>r. - int (length (r_pattern r)))) [rule_a, rule_ab] empty_store) ''/a/b/c'' of
      None \<Rightarrow> \<forall>q \<in> set [rule_a, rule_ab]. \<not> wild_spec (r_pattern q) ''/a/b/c''
    | Some r \<Rightarrow> r \<in> set [rule_a, rule_ab] \<and> wild_spec (r_pattern r) ''/a/b/c'' \<and>
        (\<forall>q \<in> set [rule_a, rule_ab]. wild_spec (r_pattern q) ''/a/b/c'' \<longrightarrow>
           length (r_pattern q) \<le> length (r_pattern r)))"
  by (rule match_longest_pattern) (rule sorts_by_length_sort_key)

text \<open>The rule value the control plane writes to Redis is read back by the proxy's hand-written
  field scanner as exactly that rule, for every pair of 64-bit lifetimes.\<close>

lemma rule_value_roundtrip:
  assumes "QUOTE \<notin> set (r_originId r)"
  shows "parseRuleJson (r_pattern r) (ruleValue r) = r"
  using parse_ruleValue [OF assms, of "r_pattern r"] by simp

lemma rule_value_roundtrip_witness: "parseRuleJson ''/a/*'' (ruleValue rule_a) = rule_a"
proof -
  have "QUOTE \<notin> set (r_originId rule_a)" by code_simp
  from rule_value_roundtrip [OF this] show ?thesis by (simp add: rule_a_def)
qed

end
