(* ===== verification/CachePolicy.thy ===== *)
theory CachePolicy
  imports RuleStore
begin

text \<open>
  \<^verbatim>\<open>policy/CachePolicy\<close> and \<^verbatim>\<open>policy/RuleOverridePolicy.h\<close>: the scanner of Cache-Control
  directives and the two implementations of the virtual \<^verbatim>\<open>decide\<close>. What the request handler
  relies on, whichever implementation it is given, is the locale \<open>cache_policy\<close>, interpreted
  on both. A \<^verbatim>\<open>long*\<close> out-parameter is an \<open>int option\<close> that is passed in and returned; the null
  pointer is \<open>None\<close>.
\<close>

section \<open>Directives\<close>

text \<open>The loop of \<^verbatim>\<open>hasDirective\<close>: the position behind the first occurrence that stands
  between boundaries. The guard only makes the function total: every caller passes a literal.\<close>

definition char_at :: "string \<Rightarrow> nat \<Rightarrow> char" where
  "char_at s i = (if i < length s then s ! i else CHR 0x00)"

definition boundaryBefore :: "string \<Rightarrow> nat \<Rightarrow> bool" where
  "boundaryBefore low pos \<longleftrightarrow> pos = 0 \<or> low ! (pos - 1) = CHR '','' \<or> low ! (pos - 1) = CHR '' ''"

definition boundaryAfter :: "char \<Rightarrow> bool" where
  "boundaryAfter c \<longleftrightarrow> c = CHR 0x00 \<or> c = CHR '','' \<or> c = CHR '' '' \<or> c = CHR ''=''"

lemma find_from_progress:
  "find_from d low pos = Some p \<Longrightarrow> d \<noteq> [] \<Longrightarrow> pos < p + length d \<and> p + length d \<le> length low"
  using find_from_bounds [of d low pos p] by (cases d) auto

function directive_loop :: "string \<Rightarrow> string \<Rightarrow> nat \<Rightarrow> nat option" where
  "directive_loop low d pos =
     (if d = [] then None else
      case find_from d low pos of None \<Rightarrow> None
      | Some p \<Rightarrow>
          if boundaryBefore low p \<and> boundaryAfter (char_at low (p + length d))
          then Some (p + length d)
          else directive_loop low d (p + length d))"
  by auto
termination
  by (relation "measure (\<lambda>(low, d, pos). Suc (length low) - pos)")
    (simp, use find_from_progress in fastforce)

declare directive_loop.simps [simp del]

definition hasDirective :: "string \<Rightarrow> string \<Rightarrow> int option \<Rightarrow> bool \<times> int option" where
  "hasDirective cc d out =
     (let low = lower cc in
      case directive_loop low d 0 of None \<Rightarrow> (False, out)
      | Some p \<Rightarrow>
          (True,
           if char_at low p = CHR ''='' \<and> out \<noteq> None
           then (let ds = takeWhile isdigit (drop (p + 1) low) in
                 if ds \<noteq> [] then (case stol ds of None \<Rightarrow> out | Some v \<Rightarrow> Some v) else out)
           else out))"

definition statusCacheable :: "int \<Rightarrow> bool" where
  "statusCacheable status = (status = 200 \<or> status = 203 \<or> status = 204 \<or> status = 301 \<or> status = 404)"

section \<open>Decisions\<close>

record cache_decision =
  d_cacheable :: bool
  d_ttl :: u64
  d_swr :: u64
  d_reason :: string

definition no_decision :: cache_decision where
  "no_decision = \<lparr>d_cacheable = False, d_ttl = 0, d_swr = 0, d_reason = []\<rparr>"

definition header_decide :: "u64 \<Rightarrow> string \<Rightarrow> http_response \<Rightarrow> cache_decision" where
  "header_decide defaultTtl path resp =
     (if \<not> statusCacheable (resp_status resp) then no_decision\<lparr>d_reason := ''status-not-cacheable''\<rparr> else
      let cc = resp_header resp ''Cache-Control'' []; v = 0 in
      if fst (hasDirective cc ''no-store'' None) then no_decision\<lparr>d_reason := ''no-store''\<rparr>
      else if fst (hasDirective cc ''private'' None) then no_decision\<lparr>d_reason := ''private''\<rparr>
      else if fst (hasDirective cc ''no-cache'' None) then no_decision\<lparr>d_reason := ''no-cache''\<rparr>
      else
        let (s, v) = hasDirective cc ''s-maxage'' (Some v);
            (m, v) = (if s then (False, v) else hasDirective cc ''max-age'' v);
            ttl = (if s \<or> m then the v else - 1)
        in if ttl < 0 then no_decision\<lparr>d_cacheable := True, d_ttl := defaultTtl,
                             d_reason := ''heuristic-default-ttl''\<rparr>
           else if ttl = 0 then no_decision\<lparr>d_reason := ''max-age-0''\<rparr>
           else no_decision\<lparr>d_cacheable := True, d_ttl := of_int ttl, d_reason := ''origin-max-age''\<rparr>)"

definition rule_decide :: "rule_store \<Rightarrow> u64 \<Rightarrow> string \<Rightarrow> http_response \<Rightarrow> cache_decision" where
  "rule_decide st defaultTtl path resp =
     (case match_rule st path of
        Some r \<Rightarrow>
          if r_ttl r = 0 then no_decision\<lparr>d_reason := ''rule-no-cache''\<rparr>
          else if 500 \<le> resp_status resp then no_decision\<lparr>d_reason := ''rule-but-server-error''\<rparr>
          else no_decision\<lparr>d_cacheable := True, d_ttl := r_ttl r, d_swr := r_swr r,
                 d_reason := ''rule-override''\<rparr>
      | None \<Rightarrow> header_decide defaultTtl path resp)"

section \<open>What an occurrence is\<close>

definition directive_at :: "string \<Rightarrow> string \<Rightarrow> nat \<Rightarrow> bool" where
  "directive_at low d p \<longleftrightarrow> p + length d \<le> length low \<and> prefix d (drop p low) \<and>
     boundaryBefore low p \<and> boundaryAfter (char_at low (p + length d))"

lemma find_from_SomeD:
  assumes "find_from d low pos = Some p"
  shows "pos \<le> p" "p + length d \<le> length low" "prefix d (drop p low)"
    "\<And>q. pos \<le> q \<Longrightarrow> q < p \<Longrightarrow> \<not> prefix d (drop q low)"
proof -
  from assms obtain n where n: "find_sub d (drop pos low) = Some n" "p = pos + n"
    by (auto simp: find_from_def split: if_splits)
  show "pos \<le> p" "p + length d \<le> length low" using find_from_bounds [OF assms] by auto
  show "prefix d (drop p low)" using find_sub_at [OF n(1)] by (simp add: n(2) add.commute)
  show "\<not> prefix d (drop q low)" if "pos \<le> q" "q < p" for q
    using find_sub_least [OF n(1), of "q - pos"] that n(2) by simp
qed

lemma find_from_NoneD:
  "find_from d low pos = None \<Longrightarrow> pos \<le> q \<Longrightarrow> q \<le> length low \<Longrightarrow> \<not> prefix d (drop q low)"
  using find_sub_None [of d "drop pos low" "q - pos"] by (auto simp: find_from_def split: if_splits)

text \<open>A later occurrence that overlaps a rejected one would have to begin right after a comma or
  a blank inside the directive's own name.\<close>

lemma directive_no_overlap:
  assumes "prefix d (drop p low)" "CHR '','' \<notin> set d" "CHR '' '' \<notin> set d"
    and "p < q" "q < p + length d"
  shows "\<not> boundaryBefore low q"
proof -
  obtain r where r: "drop p low = d @ r" using assms(1) by (auto simp: prefix_def)
  have "d \<noteq> []" using assms(4,5) by auto
  then have "drop p low \<noteq> []" by (simp add: r)
  then have "low ! (q - 1) = drop p low ! (q - 1 - p)" using assms(4) by simp
  also have "\<dots> = d ! (q - 1 - p)" using assms(4,5) by (simp add: r nth_append_left)
  finally have "low ! (q - 1) \<in> set d" using assms(4,5) by simp
  with assms(2-4) show ?thesis by (auto simp: boundaryBefore_def)
qed

lemma directive_loop_step:
  assumes "d \<noteq> []" "find_from d low pos = Some p"
  shows "directive_loop low d pos =
    (if boundaryBefore low p \<and> boundaryAfter (char_at low (p + length d)) then Some (p + length d)
     else directive_loop low d (p + length d))"
  using assms by (subst directive_loop.simps) simp

lemma directive_loop_None:
  "d = [] \<or> find_from d low pos = None \<Longrightarrow> directive_loop low d pos = None"
  by (subst directive_loop.simps) auto

lemma directive_loop_Some:
  "directive_loop low d pos = Some a \<Longrightarrow>
     \<exists>p \<ge> pos. a = p + length d \<and> directive_at low d p"
proof (induction low d pos rule: directive_loop.induct)
  case (1 low d pos)
  from "1.prems" directive_loop_None [of d low pos] obtain p
    where ne: "d \<noteq> []" and p: "find_from d low pos = Some p" by fastforce
  note step = directive_loop_step [OF ne p] and here = find_from_SomeD [OF p]
  show ?case
  proof (cases "boundaryBefore low p \<and> boundaryAfter (char_at low (p + length d))")
    case True
    with "1.prems" step have "a = p + length d" by simp
    with True here(1-3) show ?thesis by (auto simp: directive_at_def)
  next
    case False
    with "1.prems" step have "directive_loop low d (p + length d) = Some a" by (simp only: if_False)
    from "1.IH" [OF ne p False this] obtain q
      where q: "p + length d \<le> q" "a = q + length d" "directive_at low d q" by blast
    have "pos \<le> q" using q(1) here(1) by linarith
    with q(2,3) show ?thesis by blast
  qed
qed

lemma directive_loop_first:
  "d \<noteq> [] \<Longrightarrow> CHR '','' \<notin> set d \<Longrightarrow> CHR '' '' \<notin> set d \<Longrightarrow> directive_at low d q \<Longrightarrow> pos \<le> q \<Longrightarrow>
     \<exists>p \<le> q. directive_loop low d pos = Some (p + length d)"
proof (induction low d pos rule: directive_loop.induct)
  case (1 low d pos)
  from "1.prems"(4) have q: "prefix d (drop q low)" "q \<le> length low" by (auto simp: directive_at_def)
  obtain p where p: "find_from d low pos = Some p"
    using find_from_NoneD [of d low pos q] q "1.prems"(5) by fastforce
  have pq: "p \<le> q"
    using find_from_SomeD(4) [OF p "1.prems"(5)] q(1) by (meson not_le)
  note step = directive_loop_step [OF "1.prems"(1) p]
  show ?case
  proof (cases "boundaryBefore low p \<and> boundaryAfter (char_at low (p + length d))")
    case True
    with pq step show ?thesis by auto
  next
    case False
    with "1.prems"(4) have "p \<noteq> q" by (auto simp: directive_at_def)
    moreover have "\<not> (p < q \<and> q < p + length d)"
      using directive_no_overlap [OF find_from_SomeD(3) [OF p] "1.prems"(2,3), of q] "1.prems"(4)
      by (auto simp: directive_at_def)
    ultimately have "p + length d \<le> q" using pq by linarith
    from "1.IH" [OF "1.prems"(1) p False "1.prems"(1-4) this] show ?thesis
      using step False by (simp only: if_False)
  qed
qed

text \<open>The loop finds the first occurrence, and only that.\<close>

definition plain_name :: "string \<Rightarrow> bool" where
  "plain_name d \<longleftrightarrow> d \<noteq> [] \<and> (\<forall>c \<in> set d. \<not> boundaryAfter c)"

lemma plain_nameD:
  "plain_name d \<Longrightarrow> d \<noteq> [] \<and> CHR '','' \<notin> set d \<and> CHR '' '' \<notin> set d"
  by (auto simp: plain_name_def boundaryAfter_def)

lemma directive_loop_least:
  assumes "plain_name d" "directive_at low d p" "\<And>q. q < p \<Longrightarrow> \<not> directive_at low d q"
  shows "directive_loop low d 0 = Some (p + length d)"
proof -
  obtain q where q: "q \<le> p" "directive_loop low d 0 = Some (q + length d)"
    using directive_loop_first [of d low p 0] plain_nameD [OF assms(1)] assms(2) by auto
  then have "directive_at low d q" using directive_loop_Some by fastforce
  with assms(3) q show ?thesis by (cases "q = p") auto
qed

lemma directive_loop_none_iff:
  "plain_name d \<Longrightarrow> directive_loop low d 0 = None \<longleftrightarrow> (\<forall>p. \<not> directive_at low d p)"
  using directive_loop_first [of d low _ 0] directive_loop_Some [of low d 0] plain_nameD
  by (metis le0 not_Some_eq)

section \<open>Reading a written Cache-Control header\<close>

text \<open>The header that carries a list of directives, each with or without a number.\<close>

type_synonym directive = "string \<times> nat option"

definition write_directive :: "directive \<Rightarrow> string" where
  "write_directive d = fst d @ (case snd d of None \<Rightarrow> [] | Some n \<Rightarrow> CHR ''='' # show_nat n)"

fun write_cc :: "directive list \<Rightarrow> string" where
  "write_cc [] = []"
| "write_cc [d] = write_directive d"
| "write_cc (d # e # ds) = write_directive d @ '', '' @ write_cc (e # ds)"

definition directive_ok :: "directive \<Rightarrow> bool" where
  "directive_ok d \<longleftrightarrow> plain_name (fst d) \<and> (case snd d of None \<Rightarrow> True | Some n \<Rightarrow> n < 2 ^ 63)"

definition lower_name :: "directive \<Rightarrow> directive" where
  "lower_name d = (lower (fst d), snd d)"

definition first_directive :: "directive list \<Rightarrow> string \<Rightarrow> nat option option" where
  "first_directive ds d = map_of (map lower_name ds) d"

lemma of_char_tolower:
  "(of_char (tolower c) :: nat) = (let n = of_char c in if 65 \<le> n \<and> n \<le> 90 then n + 32 else n)"
  by (simp add: tolower_def Let_def)

lemma boundaryAfter_code: "boundaryAfter c \<longleftrightarrow> (of_char c :: nat) \<in> {0, 44, 32, 61}"
proof -
  have n: "(of_char c :: nat) = n \<longleftrightarrow> c = char_of n" if "n < 256" for n
    using that by (auto simp: mod_less)
  have "char_of (0 :: nat) = CHR 0x00" "char_of (44 :: nat) = CHR '',''"
    "char_of (32 :: nat) = CHR '' ''" "char_of (61 :: nat) = CHR ''=''" by code_simp+
  then show ?thesis using n [of 0] n [of 44] n [of 32] n [of 61] by (simp add: boundaryAfter_def)
qed

lemma boundaryAfter_tolower [simp]: "boundaryAfter (tolower c) \<longleftrightarrow> boundaryAfter c"
  by (auto simp: boundaryAfter_code of_char_tolower Let_def)

lemma tolower_id: "boundaryAfter c \<or> isdigit c \<Longrightarrow> tolower c = c"
  by (auto simp: tolower_def boundaryAfter_def isdigit_def Let_def)

lemma lower_append [simp]: "lower (a @ b) = lower a @ lower b"
  by (simp add: lower_def)

lemma lower_show_nat [simp]: "lower (show_nat n) = show_nat n"
  using show_nat_digits [of n] by (simp add: lower_def map_idI tolower_id)

lemma lower_seps [simp]: "lower (CHR '','' # s) = CHR '','' # lower s"
  "lower (CHR '' '' # s) = CHR '' '' # lower s" "lower (CHR ''='' # s) = CHR ''='' # lower s"
  "lower [] = []"
  by (simp_all add: lower_def tolower_def)

lemma lower_write: "lower (write_directive d) = write_directive (lower_name d)"
  by (simp add: write_directive_def lower_name_def split: option.split)

lemma lower_write_cc: "lower (write_cc ds) = write_cc (map lower_name ds)"
  by (induction ds rule: write_cc.induct) (simp_all add: lower_write)

lemma plain_name_lower: "plain_name d \<Longrightarrow> plain_name (lower d)"
  by (auto simp: plain_name_def lower_def)

text \<open>An occurrence starts where a directive starts.\<close>

lemma directive_at_head:
  assumes "plain_name d" "plain_name (fst x)" "t = [] \<or> hd t = CHR '',''"
  shows "directive_at (write_directive x @ t) d 0 \<longleftrightarrow> fst x = d"
proof -
  obtain u where u: "write_directive x @ t = fst x @ u" "u = [] \<or> boundaryAfter (hd u)"
    using assms(3) by (cases "snd x") (auto simp: write_directive_def boundaryAfter_def)
  show ?thesis
  proof
    assume a: "directive_at (write_directive x @ t) d 0"
    then have p: "prefix d (fst x @ u)" and after: "boundaryAfter (char_at (fst x @ u) (length d))"
      by (auto simp: directive_at_def u)
    have "\<not> length d < length (fst x)"
      using after assms(2) by (auto simp: char_at_def nth_append plain_name_def)
    moreover have "\<not> length (fst x) < length d"
    proof
      assume l: "length (fst x) < length d"
      obtain r where r: "fst x @ u = d @ r" using p by (auto simp: prefix_def)
      then have "u \<noteq> []" using l by (metis append.right_neutral length_append not_add_less1)
      then have "hd u = (fst x @ u) ! length (fst x)" by (simp add: hd_conv_nth nth_append)
      also have "\<dots> = d ! length (fst x)" using l by (simp add: r nth_append)
      finally have "hd u \<in> set d" using l by simp
      with assms(1) u(2) \<open>u \<noteq> []\<close> show False by (auto simp: plain_name_def)
    qed
    ultimately have "length d = length (fst x)" by simp
    with p show "fst x = d" by (auto simp: prefix_def)
  next
    assume "fst x = d"
    then show "directive_at (write_directive x @ t) d 0"
      using u by (auto simp: directive_at_def boundaryBefore_def char_at_def hd_conv_nth nth_append boundaryAfter_def)
  qed
qed

lemma write_directive_no_sep:
  assumes "plain_name (fst x)" "c \<in> set (write_directive x)"
  shows "c \<noteq> CHR '','' \<and> c \<noteq> CHR '' ''"
proof -
  have "\<not> isdigit CHR '',''" "\<not> isdigit CHR '' ''" by code_simp+
  then show ?thesis using assms show_nat_digits
    by (cases "snd x") (auto simp: write_directive_def plain_name_def boundaryAfter_def)
qed

lemma directive_at_inside:
  assumes "plain_name d" "plain_name (fst x)" "0 < p" "p < length (write_directive x) + 2"
    and "t = [] \<or> (\<exists>r. t = CHR '','' # CHR '' '' # r)"
  shows "\<not> directive_at (write_directive x @ t) d p"
proof
  assume a: "directive_at (write_directive x @ t) d p"
  let ?w = "write_directive x"
  obtain c e where d: "d = c # e" "c \<noteq> CHR '' ''"
    using assms(1) by (cases d) (auto simp: plain_name_def boundaryAfter_def)
  have "\<not> p \<le> length ?w"
  proof
    assume "p \<le> length ?w"
    then have "p - 1 < length ?w" using assms(3) by linarith
    then have "(?w @ t) ! (p - 1) = ?w ! (p - 1)" "?w ! (p - 1) \<in> set ?w"
      by (simp_all add: nth_append)
    with a assms(3) write_directive_no_sep [OF assms(2)] show False
      by (auto simp: directive_at_def boundaryBefore_def)
  qed
  then have "p = length ?w + 1" using assms(4) by simp
  with a assms(5) d show False by (auto simp: directive_at_def)
qed

lemma directive_at_tail:
  "directive_at (w @ CHR '','' # CHR '' '' # r) d (length w + 2 + p) \<longleftrightarrow> directive_at r d p"
proof -
  let ?s = "w @ CHR '','' # CHR '' '' # r"
  have "boundaryBefore ?s (length w + 2 + p) \<longleftrightarrow> boundaryBefore r p"
    by (cases p) (auto simp: boundaryBefore_def nth_append)
  moreover have "char_at ?s (length w + 2 + p + length d) = char_at r (p + length d)"
    by (auto simp: char_at_def nth_append)
  ultimately show ?thesis by (auto simp: directive_at_def)
qed

definition value_at :: "string \<Rightarrow> nat \<Rightarrow> nat option \<Rightarrow> bool" where
  "value_at low a v = (case v of None \<Rightarrow> char_at low a \<noteq> CHR ''=''
     | Some n \<Rightarrow> char_at low a = CHR ''='' \<and> takeWhile isdigit (drop (a + 1) low) = show_nat n)"

lemma value_at_head:
  assumes "t = [] \<or> hd t = CHR '',''"
  shows "value_at (write_directive x @ t) (length (fst x)) (snd x)"
proof -
  have "\<not> isdigit CHR '',''" by code_simp
  then have "takeWhile isdigit (show_nat n @ t) = show_nat n" for n
    using assms show_nat_digits [of n] by (cases t) (auto simp: takeWhile_append)
  then show ?thesis
    using assms by (cases t) (auto simp: value_at_def char_at_def nth_append write_directive_def split: option.splits)
qed

lemma value_at_tail:
  "value_at (w @ CHR '','' # CHR '' '' # r) (length w + 2 + a) v \<longleftrightarrow> value_at r a v"
proof -
  have "char_at (w @ CHR '','' # CHR '' '' # r) (length w + 2 + a) = char_at r a"
    by (auto simp: char_at_def nth_append)
  then show ?thesis by (simp add: value_at_def numeral_3_eq_3 split: option.split)
qed

text \<open>So in a written header a directive occurs exactly if it is in the list, and its first
  occurrence carries its first value.\<close>

lemma write_cc_Cons:
  "write_cc (x # xs) = write_directive x @ (if xs = [] then [] else CHR '','' # CHR '' '' # write_cc xs)"
  by (cases xs) simp_all

lemma write_cc_first:
  "\<forall>x \<in> set ds. plain_name (fst x) \<Longrightarrow> plain_name d \<Longrightarrow>
    (case map_of ds d of None \<Rightarrow> (\<forall>p. \<not> directive_at (write_cc ds) d p)
     | Some v \<Rightarrow> \<exists>p. directive_at (write_cc ds) d p \<and> (\<forall>q < p. \<not> directive_at (write_cc ds) d q) \<and>
         value_at (write_cc ds) (p + length d) v)"
proof (induction ds)
  case Nil
  then show ?case by (auto simp: directive_at_def plain_name_def)
next
  case (Cons x xs)
  let ?w = "write_directive x" and ?t = "if xs = [] then [] else CHR '','' # CHR '' '' # write_cc xs"
  have ok: "plain_name (fst x)" and t: "?t = [] \<or> hd ?t = CHR '',''" using Cons.prems(1) by auto
  note head = directive_at_head [OF Cons.prems(2) ok t]
  note inside = directive_at_inside [OF Cons.prems(2) ok, of _ ?t]
  obtain n v where x: "x = (n, v)" by (cases x)
  show ?case
  proof (cases "n = d")
    case True
    then have "directive_at (?w @ ?t) d 0" using head by (simp only: x fst_conv)
    moreover have "value_at (?w @ ?t) (0 + length d) v"
      using value_at_head [OF t, of x] True by (simp only: x fst_conv snd_conv add_0)
    ultimately show ?thesis using True unfolding write_cc_Cons by (auto simp: x)
  next
    case False
    have early: "\<not> directive_at (?w @ ?t) d p" if "p < length ?w + 2" for p
    proof (cases "p = 0")
      case True
      with head False show ?thesis by (simp only: x fst_conv simp_thms)
    next
      case p: False
      with inside [of p] that show ?thesis by auto
    qed
    have late: "directive_at (?w @ ?t) d (length ?w + 2 + p) \<longleftrightarrow> directive_at (write_cc xs) d p" for p
      using directive_at_tail [of ?w "write_cc xs" d p] plain_nameD [OF Cons.prems(2)]
      by (auto simp: directive_at_def)
    have val: "value_at (?w @ ?t) (length ?w + 2 + p + length d) u"
      if "value_at (write_cc xs) (p + length d) u" "xs \<noteq> []" for p u
      using that value_at_tail [of ?w "write_cc xs" "p + length d" u] by (simp add: add.assoc)
    have IH: "case map_of xs d of None \<Rightarrow> (\<forall>p. \<not> directive_at (write_cc xs) d p)
     | Some v \<Rightarrow> \<exists>p. directive_at (write_cc xs) d p \<and> (\<forall>q < p. \<not> directive_at (write_cc xs) d q) \<and>
         value_at (write_cc xs) (p + length d) v"
      using Cons by simp
    have split: "p < length ?w + 2 \<or> (\<exists>q. p = length ?w + 2 + q)" for p
      by (metis le_add_diff_inverse not_le)
    show ?thesis
    proof (cases "map_of xs d")
      case None
      then have "\<not> directive_at (?w @ ?t) d p" for p
        using IH early late split [of p] by auto
      with None False show ?thesis unfolding write_cc_Cons by (simp add: x)
    next
      case (Some u)
      then have ne: "xs \<noteq> []" by auto
      from Some IH obtain p where p: "directive_at (write_cc xs) d p"
        "\<forall>q < p. \<not> directive_at (write_cc xs) d q" "value_at (write_cc xs) (p + length d) u" by auto
      have "\<not> directive_at (?w @ ?t) d q" if "q < length ?w + 2 + p" for q
        using split [of q] early late p(2) that by auto
      then have "\<exists>p. directive_at (?w @ ?t) d p \<and> (\<forall>q < p. \<not> directive_at (?w @ ?t) d q) \<and>
         value_at (?w @ ?t) (p + length d) u"
        using late [of p] p(1) val [OF p(3) ne] by blast
      with Some False show ?thesis unfolding write_cc_Cons by (simp add: x)
    qed
  qed
qed

lemma stol_show_nat: "n < 2 ^ 63 \<Longrightarrow> stol (show_nat n) = Some (int n)"
  by (simp add: stol_def signed_scan_def)

lemma hasDirective_iff:
  "plain_name d \<Longrightarrow> fst (hasDirective cc d out) \<longleftrightarrow> (\<exists>p. directive_at (lower cc) d p)"
  using directive_loop_none_iff [of d "lower cc"] by (auto simp: hasDirective_def Let_def split: option.split)

lemma first_directive_value:
  "\<forall>x \<in> set ds. directive_ok x \<Longrightarrow> first_directive ds d = Some (Some n) \<Longrightarrow> n < 2 ^ 63"
  by (force simp: first_directive_def directive_ok_def lower_name_def dest!: map_of_SomeD)

lemma hasDirective_write:
  assumes "\<forall>x \<in> set ds. directive_ok x" "plain_name d"
  shows "hasDirective (write_cc ds) d out =
    (case first_directive ds d of None \<Rightarrow> (False, out)
     | Some v \<Rightarrow> (True, if out = None \<or> v = None then out else map_option int v))"
proof -
  have "\<forall>x \<in> set (map lower_name ds). plain_name (fst x)"
    using assms(1) by (auto simp: directive_ok_def lower_name_def plain_name_lower)
  note first = write_cc_first [OF this assms(2), folded lower_write_cc first_directive_def]
  show ?thesis
  proof (cases "first_directive ds d")
    case None
    with first have "directive_loop (lower (write_cc ds)) d 0 = None"
      using directive_loop_none_iff [OF assms(2)] by simp
    with None show ?thesis by (simp add: hasDirective_def)
  next
    case (Some v)
    with first obtain p where p: "directive_at (lower (write_cc ds)) d p"
      "\<forall>q < p. \<not> directive_at (lower (write_cc ds)) d q" "value_at (lower (write_cc ds)) (p + length d) v"
      by auto
    have "directive_loop (lower (write_cc ds)) d 0 = Some (p + length d)"
      using directive_loop_least [OF assms(2) p(1)] p(2) by blast
    moreover have "stol (show_nat n) = Some (int n)" if "v = Some n" for n
      using first_directive_value [OF assms(1)] Some that stol_show_nat by simp
    ultimately show ?thesis
      using Some p(3) by (cases v) (auto simp: hasDirective_def value_at_def)
  qed
qed

section \<open>What the request handler relies on\<close>

locale cache_policy =
  fixes decide :: "string \<Rightarrow> http_response \<Rightarrow> cache_decision"
  assumes server_error: "500 \<le> resp_status r \<Longrightarrow> \<not> d_cacheable (decide path r)"
    and uncacheable: "\<not> d_cacheable (decide path r) \<Longrightarrow> d_ttl (decide path r) = 0 \<and> d_swr (decide path r) = 0"
    and reason: "d_reason (decide path r) \<noteq> []"
begin

lemma cached_status: "d_cacheable (decide path r) \<Longrightarrow> resp_status r < 500"
  using server_error by (meson not_le)

lemma positive_ttl: "d_ttl (decide path r) \<noteq> 0 \<or> d_swr (decide path r) \<noteq> 0 \<Longrightarrow> d_cacheable (decide path r)"
  using uncacheable by blast

end

lemma header_decide_reasons:
  "d_reason (header_decide t path r) \<noteq> [] \<and>
   (\<not> d_cacheable (header_decide t path r) \<longrightarrow>
      d_ttl (header_decide t path r) = 0 \<and> d_swr (header_decide t path r) = 0) \<and>
   (\<not> statusCacheable (resp_status r) \<longrightarrow> \<not> d_cacheable (header_decide t path r))"
  by (simp add: header_decide_def no_decision_def Let_def split: prod.split)

interpretation header_policy: cache_policy "header_decide t" for t
  by unfold_locales (auto simp: header_decide_reasons statusCacheable_def)

interpretation rule_policy: cache_policy "rule_decide st t" for st t
  by unfold_locales (auto simp: rule_decide_def no_decision_def header_policy.server_error
      header_policy.uncacheable header_policy.reason split: option.split)

section \<open>The properties\<close>

definition forbids :: "string \<Rightarrow> bool" where
  "forbids d \<longleftrightarrow> d = ''no-store'' \<or> d = ''private'' \<or> d = ''no-cache''"

text \<open>The number of seconds a written header allows: \<^verbatim>\<open>s-maxage\<close> before \<^verbatim>\<open>max-age\<close>, and a
  directive without a number counts as 0.\<close>

definition allowed_age :: "directive list \<Rightarrow> nat option" where
  "allowed_age ds = (case first_directive ds ''s-maxage'' of Some v \<Rightarrow> Some (case v of None \<Rightarrow> 0 | Some n \<Rightarrow> n)
     | None \<Rightarrow> (case first_directive ds ''max-age'' of Some v \<Rightarrow> Some (case v of None \<Rightarrow> 0 | Some n \<Rightarrow> n)
     | None \<Rightarrow> None))"

definition forbidden :: "directive list \<Rightarrow> bool" where
  "forbidden ds \<longleftrightarrow> (\<exists>x \<in> set ds. forbids (lower (fst x)))"

lemma plain_literals [simp]:
  "plain_name ''no-store''" "plain_name ''private''" "plain_name ''no-cache''"
  "plain_name ''s-maxage''" "plain_name ''max-age''"
  by code_simp+

lemma forbidden_first:
  "forbidden ds \<longleftrightarrow> first_directive ds ''no-store'' \<noteq> None \<or> first_directive ds ''private'' \<noteq> None \<or>
     first_directive ds ''no-cache'' \<noteq> None"
proof -
  have "first_directive ds d \<noteq> None \<longleftrightarrow> (\<exists>x \<in> set ds. lower (fst x) = d)" for d
    by (auto simp: first_directive_def map_of_eq_None_iff lower_name_def image_iff)
  then show ?thesis by (auto simp: forbidden_def forbids_def)
qed

text \<open>C36: the header policy reads a Cache-Control header for what it says. For a cacheable status
  and a header that lists any directives, in any case and order and with any 63-bit numbers, the
  response is cached exactly if no directive forbids it and the allowed age is not 0, for that age
  or, where none is given, for the configured default, and never with a stale window.\<close>

theorem policy_reads_directives:
  assumes "\<forall>x \<in> set ds. directive_ok x"
    and "resp_header resp ''Cache-Control'' [] = write_cc ds"
    and "statusCacheable (resp_status resp)"
  shows "header_decide t path resp =
    no_decision\<lparr>d_cacheable := \<not> forbidden ds \<and> allowed_age ds \<noteq> Some 0,
      d_ttl := (if forbidden ds then 0 else case allowed_age ds of None \<Rightarrow> t | Some n \<Rightarrow> of_nat n),
      d_reason := d_reason (header_decide t path resp)\<rparr>"
proof -
  note read = hasDirective_write [OF assms(1)] first_directive_value [OF assms(1)]
  show ?thesis
  proof (cases "forbidden ds")
    case True
    then show ?thesis using assms(3)
      by (auto simp: header_decide_def assms(2) read forbidden_first no_decision_def split: option.splits)
  next
    case False
    then have "first_directive ds ''no-store'' = None" "first_directive ds ''private'' = None"
      "first_directive ds ''no-cache'' = None" by (auto simp: forbidden_first)
    then show ?thesis using assms(3) False
      by (auto simp: header_decide_def assms(2) read allowed_age_def no_decision_def split: option.splits)
  qed
qed

theorem policy_reads_directives_witness:
  "header_decide 60 ''/a'' (empty_response\<lparr>resp_headers := [(''cache-control'', ''Public, s-maxage=30, MAX-AGE=9'')]\<rparr>) =
    no_decision\<lparr>d_cacheable := True, d_ttl := 30, d_reason := ''origin-max-age''\<rparr>"
proof -
  let ?ds = "[(''Public'', None), (''s-maxage'', Some 30), (''MAX-AGE'', Some 9)] :: directive list"
  let ?r = "empty_response\<lparr>resp_headers := [(''cache-control'', ''Public, s-maxage=30, MAX-AGE=9'')]\<rparr>"
  have "\<forall>x \<in> set ?ds. directive_ok x" "resp_header ?r ''Cache-Control'' [] = write_cc ?ds"
    "statusCacheable (resp_status ?r)" by code_simp+
  note reads = policy_reads_directives [OF this, of 60 "''/a''"]
  have "\<not> forbidden ?ds" "allowed_age ?ds = Some 30" by code_simp+
  moreover have "d_reason (header_decide 60 ''/a'' ?r) = ''origin-max-age''" by code_simp
  ultimately show ?thesis by (subst reads) simp
qed

text \<open>A forbidding directive is found wherever it stands between boundaries in the header, in
  any case, behind any number of look-alikes such as \<^verbatim>\<open>x-no-store\<close> or \<^verbatim>\<open>no-storeage\<close>, and the
  response is then not cached.\<close>

lemma forbidding_directive_respected:
  assumes "forbids d" "directive_at (lower (resp_header resp ''Cache-Control'' [])) d p"
  shows "\<not> d_cacheable (header_decide t path resp)"
  using assms hasDirective_iff [of d] by (auto simp: header_decide_def forbids_def no_decision_def Let_def)

lemma forbidding_directive_witness:
  "\<not> d_cacheable (header_decide 60 ''/a''
     (empty_response\<lparr>resp_headers := [(''Cache-Control'', ''x-no-store, No-Store,max-age=60'')]\<rparr>))"
  by (rule forbidding_directive_respected [of "''no-store''" _ 12]) code_simp+

text \<open>With override rules installed, a longest rule that matches the path decides, whatever the
  response's own headers say: its response is cached exactly if the rule's lifetime is not 0 and
  the origin did not fail, for the lifetimes of that rule. The headers count only where no rule matches.\<close>

lemma longest_rule_decides:
  assumes "sorts_by_length srt" "D = rule_decide (replaceAll srt rs st) t path resp"
  shows "(\<exists>r \<in> set rs. wild_spec (r_pattern r) path \<and>
      (\<forall>q \<in> set rs. wild_spec (r_pattern q) path \<longrightarrow> length (r_pattern q) \<le> length (r_pattern r)) \<and>
      (d_cacheable D \<longleftrightarrow> r_ttl r \<noteq> 0 \<and> resp_status resp < 500) \<and>
      (d_cacheable D \<longrightarrow> d_ttl D = r_ttl r \<and> d_swr D = r_swr r)) \<or>
    (\<forall>r \<in> set rs. \<not> wild_spec (r_pattern r) path) \<and> D = header_decide t path resp"
proof (cases "match_rule (replaceAll srt rs st) path")
  case None
  then have "match_loop (srt rs) path = None" by (simp add: match_rule_def replaceAll_def)
  then have "\<forall>r \<in> set rs. \<not> wild_spec (r_pattern r) path"
    by (simp add: match_loop_None sorts_by_length_set [OF assms(1)])
  with None assms(2) show ?thesis by (simp add: rule_decide_def)
next
  case (Some r)
  then have m: "match_loop (srt rs) path = Some r" by (simp add: match_rule_def replaceAll_def)
  have "sorted_wrt longer_first (srt rs)" using assms(1) by (simp add: sorts_by_length_def)
  from match_loop_Some [OF m this] Some assms(2) show ?thesis
    by (intro disjI1 bexI [of _ r])
      (auto simp: rule_decide_def no_decision_def longer_first_def sorts_by_length_set [OF assms(1)])
qed

lemma longest_rule_decides_witness:
  "let D = rule_decide (replaceAll (sort_key (\<lambda>r. - int (length (r_pattern r)))) [rule_a, rule_ab] empty_store) 60
       ''/a/b/c'' (empty_response\<lparr>resp_headers := [(''Cache-Control'', ''no-store'')]\<rparr>)
   in d_cacheable D \<and> d_ttl D = r_ttl rule_ab"
proof -
  let ?p = "''/a/b/c''" and ?r = "empty_response\<lparr>resp_headers := [(''Cache-Control'', ''no-store'')]\<rparr>"
  have "patternMatches (r_pattern rule_ab) ?p" by code_simp
  then have "wild_spec (r_pattern rule_ab) ?p" by (simp add: patternMatches_spec)
  moreover have "r_ttl rule_ab \<noteq> 0" "length (r_pattern rule_a) < length (r_pattern rule_ab)" "resp_status ?r < 500" by code_simp+
  moreover note longest_rule_decides [OF sorts_by_length_sort_key refl,
      where rs = "[rule_a, rule_ab]" and st = empty_store and t = 60 and path = ?p and resp = ?r]
  ultimately show ?thesis by (auto simp: Let_def)
qed

end
