(* ===== verification/Config.thy ===== *)
theory Config
  imports Prelude
begin

text \<open>
  \<^verbatim>\<open>config/Config\<close>: the settings and how they are read from the environment. The environment
  is a function from names to values, and \<^verbatim>\<open>std::thread::hardware_concurrency\<close> an argument; it may
  return 0. \<^verbatim>\<open>Config::log\<close> is the line it prints.
\<close>

section \<open>Settings\<close>

record config =
  cf_listenHost :: string
  cf_listenPort :: "16 word"
  cf_metricsPort :: "16 word"
  cf_workerThreads :: "32 word"
  cf_maxCacheBytes :: u64
  cf_defaultTtl :: u64
  cf_originHost :: string
  cf_originPort :: "16 word"
  cf_originConnectMs :: int
  cf_originReadMs :: int
  cf_cbThreshold :: int
  cf_cbOpenMs :: int
  cf_cbMaxProbes :: int
  cf_redisHost :: string
  cf_redisPort :: "16 word"
  cf_redisPassword :: string
  cf_rulesHashKey :: string
  cf_purgeChannel :: string
  cf_ruleUpdateChannel :: string
  cf_rulePollSeconds :: int
  cf_l2Enabled :: bool
  cf_l2KeyPrefix :: string
  cf_kafkaBrokers :: string
  cf_kafkaTopic :: string
  cf_replicaId :: string

definition default_config :: config where
  "default_config = \<lparr>cf_listenHost = ''0.0.0.0'', cf_listenPort = 8080, cf_metricsPort = 9100,
     cf_workerThreads = 0, cf_maxCacheBytes = 256 * 1024 * 1024, cf_defaultTtl = 60,
     cf_originHost = ''dummy-origin'', cf_originPort = 8081, cf_originConnectMs = 2000,
     cf_originReadMs = 5000, cf_cbThreshold = 5, cf_cbOpenMs = 5000, cf_cbMaxProbes = 1,
     cf_redisHost = ''redis'', cf_redisPort = 6379, cf_redisPassword = [],
     cf_rulesHashKey = ''edgecache:rules'', cf_purgeChannel = ''edgecache:purge'',
     cf_ruleUpdateChannel = ''edgecache:rules:updated'', cf_rulePollSeconds = 15,
     cf_l2Enabled = False, cf_l2KeyPrefix = ''edgecache:l2:'', cf_kafkaBrokers = [],
     cf_kafkaTopic = ''edgecache.access-log'', cf_replicaId = ''proxy-local''\<rparr>"

section \<open>Reading the environment\<close>

type_synonym env = "string \<Rightarrow> string option"

definition envStr :: "env \<Rightarrow> string \<Rightarrow> string \<Rightarrow> string" where
  "envStr env key d = (case env key of None \<Rightarrow> d | Some v \<Rightarrow> v)"

definition envU64 :: "env \<Rightarrow> string \<Rightarrow> u64 \<Rightarrow> u64" where
  "envU64 env key d = (case env key of None \<Rightarrow> d
     | Some v \<Rightarrow> (case stoull v of None \<Rightarrow> d | Some n \<Rightarrow> n))"

definition envInt :: "env \<Rightarrow> string \<Rightarrow> int \<Rightarrow> int" where
  "envInt env key d = (case env key of None \<Rightarrow> d
     | Some v \<Rightarrow> (case stoi v of None \<Rightarrow> d | Some n \<Rightarrow> n))"

definition envPort :: "env \<Rightarrow> string \<Rightarrow> 16 word \<Rightarrow> 16 word" where
  "envPort env key d = of_int (envInt env key (uint d))"

definition envWorkers :: "32 word \<Rightarrow> env \<Rightarrow> 32 word \<Rightarrow> 32 word" where
  "envWorkers hw env d =
     (let n = of_int (envInt env ''EDGECACHE_WORKERS'' (sint d)) in
      if n = 0 then (if hw = 0 then 2 else hw) else n)"

definition envBool :: "env \<Rightarrow> string \<Rightarrow> bool \<Rightarrow> bool" where
  "envBool env key d =
     (let v = envStr env key (if d then ''ON'' else ''OFF'') in
      v = ''ON'' \<or> v = ''on'' \<or> v = ''1'' \<or> v = ''true'' \<or> v = ''TRUE'')"

definition fromEnv :: "32 word \<Rightarrow> env \<Rightarrow> config" where
  "fromEnv hw env =
     (let c = default_config in
      \<lparr>cf_listenHost = envStr env ''EDGECACHE_LISTEN_HOST'' (cf_listenHost c),
       cf_listenPort = envPort env ''EDGECACHE_LISTEN_PORT'' (cf_listenPort c),
       cf_metricsPort = envPort env ''EDGECACHE_METRICS_PORT'' (cf_metricsPort c),
       cf_workerThreads = envWorkers hw env (cf_workerThreads c),
       cf_maxCacheBytes = envU64 env ''EDGECACHE_MAX_CACHE_BYTES'' (cf_maxCacheBytes c),
       cf_defaultTtl = envU64 env ''EDGECACHE_DEFAULT_TTL_SECONDS'' (cf_defaultTtl c),
       cf_originHost = envStr env ''EDGECACHE_ORIGIN_HOST'' (cf_originHost c),
       cf_originPort = envPort env ''EDGECACHE_ORIGIN_PORT'' (cf_originPort c),
       cf_originConnectMs = envInt env ''EDGECACHE_ORIGIN_CONNECT_TIMEOUT_MS'' (cf_originConnectMs c),
       cf_originReadMs = envInt env ''EDGECACHE_ORIGIN_READ_TIMEOUT_MS'' (cf_originReadMs c),
       cf_cbThreshold = envInt env ''EDGECACHE_CB_FAILURE_THRESHOLD'' (cf_cbThreshold c),
       cf_cbOpenMs = envInt env ''EDGECACHE_CB_OPEN_MS'' (cf_cbOpenMs c),
       cf_cbMaxProbes = envInt env ''EDGECACHE_CB_HALFOPEN_PROBES'' (cf_cbMaxProbes c),
       cf_redisHost = envStr env ''EDGECACHE_REDIS_HOST'' (cf_redisHost c),
       cf_redisPort = envPort env ''EDGECACHE_REDIS_PORT'' (cf_redisPort c),
       cf_redisPassword = envStr env ''EDGECACHE_REDIS_PASSWORD'' (cf_redisPassword c),
       cf_rulesHashKey = envStr env ''EDGECACHE_RULES_HASH'' (cf_rulesHashKey c),
       cf_purgeChannel = envStr env ''EDGECACHE_PURGE_CHANNEL'' (cf_purgeChannel c),
       cf_ruleUpdateChannel = envStr env ''EDGECACHE_RULE_UPDATE_CHANNEL'' (cf_ruleUpdateChannel c),
       cf_rulePollSeconds = envInt env ''EDGECACHE_RULE_POLL_SECONDS'' (cf_rulePollSeconds c),
       cf_l2Enabled = envBool env ''EDGECACHE_L2_ENABLED'' (cf_l2Enabled c),
       cf_l2KeyPrefix = envStr env ''EDGECACHE_L2_KEY_PREFIX'' (cf_l2KeyPrefix c),
       cf_kafkaBrokers = envStr env ''EDGECACHE_KAFKA_BROKERS'' (cf_kafkaBrokers c),
       cf_kafkaTopic = envStr env ''EDGECACHE_KAFKA_TOPIC'' (cf_kafkaTopic c),
       cf_replicaId = envStr env ''EDGECACHE_REPLICA_ID'' (envStr env ''HOSTNAME'' (cf_replicaId c))\<rparr>)"

section \<open>What is read\<close>

definition int32 :: "int \<Rightarrow> bool" where
  "int32 i \<longleftrightarrow> - (2 ^ 31) \<le> i \<and> i < 2 ^ 31"

lemma envInt_range: "int32 d \<Longrightarrow> int32 (envInt env key d)"
  by (auto simp: int32_def envInt_def stoi_def signed_scan_def Let_def
      split: option.splits prod.splits if_splits)

lemma envWorkers_pos: "envWorkers hw env d \<noteq> 0"
  by (simp add: envWorkers_def Let_def)

lemma default_ints: "int32 (cf_originConnectMs default_config)" "int32 (cf_originReadMs default_config)"
  "int32 (cf_cbThreshold default_config)" "int32 (cf_cbOpenMs default_config)"
  "int32 (cf_cbMaxProbes default_config)" "int32 (cf_rulePollSeconds default_config)"
  by code_simp+

lemmas fromEnv_fields = fromEnv_def Let_def config.simps

text \<open>Reading the settings never fails: whatever the environment holds, the worker count is
  positive (the cache always has a shard) and every signed setting is a 32-bit value.\<close>

lemma settings_in_range:
  "cf_workerThreads (fromEnv hw env) \<noteq> 0 \<and>
   int32 (cf_originConnectMs (fromEnv hw env)) \<and> int32 (cf_originReadMs (fromEnv hw env)) \<and>
   int32 (cf_cbThreshold (fromEnv hw env)) \<and> int32 (cf_cbOpenMs (fromEnv hw env)) \<and>
   int32 (cf_cbMaxProbes (fromEnv hw env)) \<and> int32 (cf_rulePollSeconds (fromEnv hw env))"
  unfolding fromEnv_fields by (simp only: envWorkers_pos envInt_range default_ints) simp

section \<open>Printing the settings\<close>

definition config_log :: "config \<Rightarrow> string" where
  "config_log c = ''[config] listen='' @ cf_listenHost c @ '':'' @ show_nat (unat (cf_listenPort c)) @
     '' metrics='' @ show_nat (unat (cf_metricsPort c)) @ '' workers='' @ show_nat (unat (cf_workerThreads c)) @
     '' maxCacheBytes='' @ show_nat (unat (cf_maxCacheBytes c)) @ '' defaultTtl='' @ show_nat (unat (cf_defaultTtl c)) @
     '' origin='' @ cf_originHost c @ '':'' @ show_nat (unat (cf_originPort c)) @
     '' redis='' @ cf_redisHost c @ '':'' @ show_nat (unat (cf_redisPort c)) @ '' replica='' @ cf_replicaId c @
     '' l2='' @ (if cf_l2Enabled c then ''on'' else ''off'') @ [CHR 0x0A]"

text \<open>The password of Redis does not get into the log: the line is the same whatever it is.\<close>

lemma log_hides_password: "config_log (c\<lparr>cf_redisPassword := p\<rparr>) = config_log c"
  by (simp add: config_log_def)

end
