(* ===== verification/CircuitBreaker.thy ===== *)
theory CircuitBreaker
  imports Config OrdMap
begin

text \<open>
  \<^verbatim>\<open>origin/CircuitBreaker\<close> and \<^verbatim>\<open>origin/CircuitBreakerRegistry.h\<close>. Every operation runs under the
  breaker's mutex, so each is one atomic step; the reading of the steady clock that a step takes
  is its argument. A history of a breaker is the list of the steps its callers took, in the order
  in which they got the mutex, and \<open>reachable\<close> is the step relation over them.
\<close>

section \<open>The breaker\<close>

datatype cb_state = Closed | Open | HalfOpen

record breaker =
  cb_state :: cb_state
  cb_failures :: int
  cb_probes :: int
  cb_openedAt :: time
  cb_threshold :: int
  cb_openMs :: int
  cb_maxProbes :: int

definition new_breaker :: "int \<Rightarrow> int \<Rightarrow> int \<Rightarrow> breaker" where
  "new_breaker threshold openMs maxProbes = \<lparr>cb_state = Closed, cb_failures = 0, cb_probes = 0,
     cb_openedAt = 0, cb_threshold = threshold, cb_openMs = openMs, cb_maxProbes = maxProbes\<rparr>"

definition transitionToOpen :: "time \<Rightarrow> breaker \<Rightarrow> breaker" where
  "transitionToOpen now b = b\<lparr>cb_state := Open, cb_openedAt := now, cb_probes := 0\<rparr>"

definition allowRequest :: "time \<Rightarrow> breaker \<Rightarrow> bool \<times> breaker" where
  "allowRequest now b = (case cb_state b of
     Closed \<Rightarrow> (True, b)
   | Open \<Rightarrow> (if to_millis (now - cb_openedAt b) \<ge> cb_openMs b
              then (True, b\<lparr>cb_state := HalfOpen, cb_probes := 1\<rparr>)
              else (False, b))
   | HalfOpen \<Rightarrow> (if cb_probes b < cb_maxProbes b
                  then (True, b\<lparr>cb_probes := cb_probes b + 1\<rparr>)
                  else (False, b)))"

definition recordSuccess :: "breaker \<Rightarrow> breaker" where
  "recordSuccess b =
     (let b = b\<lparr>cb_failures := 0\<rparr> in
      if cb_state b \<noteq> Closed then b\<lparr>cb_state := Closed, cb_probes := 0\<rparr> else b)"

definition recordFailure :: "time \<Rightarrow> breaker \<Rightarrow> breaker" where
  "recordFailure now b =
     (if cb_state b = HalfOpen then transitionToOpen now b
      else
        let b = b\<lparr>cb_failures := cb_failures b + 1\<rparr> in
        if cb_state b = Closed \<and> cb_failures b \<ge> cb_threshold b then transitionToOpen now b else b)"

definition stateName :: "breaker \<Rightarrow> string" where
  "stateName b = (case cb_state b of Closed \<Rightarrow> ''closed'' | Open \<Rightarrow> ''open'' | HalfOpen \<Rightarrow> ''half_open'')"

section \<open>The registry\<close>

record registry =
  rg_config :: config
  rg_breakers :: "(string \<times> breaker) list"

definition new_registry :: "config \<Rightarrow> registry" where
  "new_registry cfg = \<lparr>rg_config = cfg, rg_breakers = []\<rparr>"

abbreviation bfind :: "(string \<times> breaker) list \<Rightarrow> string \<Rightarrow> breaker option" where
  "bfind m h \<equiv> omap_find (<) m h"

text \<open>The reference that \<^verbatim>\<open>forOrigin\<close> returns is the breaker stored under the host: the call
  makes it exist, and the caller's operation on it, \<open>f\<close>, updates it in place.\<close>

definition forOrigin :: "string \<Rightarrow> registry \<Rightarrow> breaker \<times> registry" where
  "forOrigin host g = (case bfind (rg_breakers g) host of
     None \<Rightarrow> (let cfg = rg_config g;
                b = new_breaker (cf_cbThreshold cfg) (cf_cbOpenMs cfg) (cf_cbMaxProbes cfg)
            in (b, g\<lparr>rg_breakers := omap_set (<) (rg_breakers g) host b\<rparr>))
   | Some b \<Rightarrow> (b, g))"

definition with_breaker :: "string \<Rightarrow> (breaker \<Rightarrow> 'a \<times> breaker) \<Rightarrow> registry \<Rightarrow> 'a \<times> registry" where
  "with_breaker host f g =
     (let (b, g) = forOrigin host g; (r, b) = f b
      in (r, g\<lparr>rg_breakers := omap_set (<) (rg_breakers g) host b\<rparr>))"

definition snapshot :: "registry \<Rightarrow> (string \<times> string) list" where
  "snapshot g = map (\<lambda>(host, b). (host, stateName b)) (rg_breakers g)"

section \<open>Histories\<close>

datatype cb_event = Allow time | Success | Failure time

fun cb_step :: "cb_event \<Rightarrow> breaker \<Rightarrow> bool \<times> breaker" where
  "cb_step (Allow now) b = allowRequest now b"
| "cb_step Success b = (True, recordSuccess b)"
| "cb_step (Failure now) b = (True, recordFailure now b)"

fun cb_run :: "cb_event list \<Rightarrow> breaker \<Rightarrow> breaker" where
  "cb_run [] b = b"
| "cb_run (e # es) b = cb_run es (snd (cb_step e b))"

text \<open>The answers of the \<^verbatim>\<open>allowRequest\<close> calls of a history.\<close>

fun answers :: "cb_event list \<Rightarrow> breaker \<Rightarrow> bool list" where
  "answers [] b = []"
| "answers (Allow now # es) b = fst (allowRequest now b) # answers es (snd (allowRequest now b))"
| "answers (e # es) b = answers es (snd (cb_step e b))"

inductive reachable :: "breaker \<Rightarrow> breaker \<Rightarrow> bool" for b0 where
  start: "reachable b0 b0"
| step: "reachable b0 b \<Longrightarrow> cb_step e b = (r, b') \<Longrightarrow> reachable b0 b'"

lemmas cb_ops = allowRequest_def recordSuccess_def recordFailure_def transitionToOpen_def Let_def

lemma cb_step_consts [simp]:
  "cb_threshold (snd (cb_step e b)) = cb_threshold b" "cb_openMs (snd (cb_step e b)) = cb_openMs b"
  "cb_maxProbes (snd (cb_step e b)) = cb_maxProbes b"
  by (cases e; auto simp: cb_ops split: cb_state.splits)+

lemma cb_run_append [simp]: "cb_run (a @ b) c = cb_run b (cb_run a c)"
  by (induction a arbitrary: c) auto

lemma cb_run_consts [simp]:
  "cb_threshold (cb_run es b) = cb_threshold b" "cb_openMs (cb_run es b) = cb_openMs b"
  "cb_maxProbes (cb_run es b) = cb_maxProbes b"
  by (induction es arbitrary: b) auto

lemma reachable_run: "reachable b0 b \<longleftrightarrow> (\<exists>es. b = cb_run es b0)"
proof
  assume "reachable b0 b"
  then show "\<exists>es. b = cb_run es b0"
  proof induction
    case start
    show ?case by (rule exI [of _ "[]"]) simp
  next
    case (step b e r b')
    then obtain es where "b = cb_run es b0" by blast
    with step.hyps(2) have "b' = cb_run (es @ [e]) b0" by simp
    then show ?case by blast
  qed
next
  assume "\<exists>es. b = cb_run es b0"
  then obtain es where "b = cb_run es b0" by blast
  then show "reachable b0 b"
  proof (induction es arbitrary: b rule: rev_induct)
    case Nil
    then show ?case by (simp add: reachable.start)
  next
    case (snoc e es)
    then show ?case by (auto intro: reachable.step prod.collapse [symmetric])
  qed
qed

section \<open>The invariant\<close>

definition breaker_inv :: "breaker \<Rightarrow> bool" where
  "breaker_inv b \<longleftrightarrow> 0 \<le> cb_failures b \<and> (case cb_state b of
     Closed \<Rightarrow> cb_probes b = 0 \<and> cb_failures b < max 1 (cb_threshold b)
   | Open \<Rightarrow> cb_probes b = 0
   | HalfOpen \<Rightarrow> 1 \<le> cb_probes b \<and> cb_probes b \<le> max 1 (cb_maxProbes b))"

lemma new_breaker_inv [inv_intros]: "breaker_inv (new_breaker t n m)"
  by (simp add: breaker_inv_def new_breaker_def)

lemma cb_step_inv [inv_intros]: "breaker_inv b \<Longrightarrow> breaker_inv (snd (cb_step e b))"
  by (cases e) (auto simp: breaker_inv_def cb_ops split: cb_state.splits)

lemma reachable_inv: "reachable b0 b \<Longrightarrow> breaker_inv b0 \<Longrightarrow> breaker_inv b"
proof (induction rule: reachable.induct)
  case (step b e r b')
  then show ?case using cb_step_inv [of b e] by simp
qed

lemma new_breaker_simps [simp]:
  "cb_state (new_breaker t n m) = Closed" "cb_failures (new_breaker t n m) = 0"
  "cb_probes (new_breaker t n m) = 0" "cb_threshold (new_breaker t n m) = t"
  "cb_openMs (new_breaker t n m) = n" "cb_maxProbes (new_breaker t n m) = m"
  by (simp_all add: new_breaker_def)

section \<open>Steps by state\<close>

lemma allow_closed: "cb_state b = Closed \<Longrightarrow> allowRequest now b = (True, b)"
  by (simp add: allowRequest_def)

lemma failure_closed:
  "cb_state b = Closed \<Longrightarrow> recordFailure now b =
     (if cb_failures b + 1 < cb_threshold b then b\<lparr>cb_failures := cb_failures b + 1\<rparr>
      else transitionToOpen now (b\<lparr>cb_failures := cb_failures b + 1\<rparr>))"
  by (auto simp: recordFailure_def Let_def)

lemma success_closed: "cb_state b = Closed \<Longrightarrow> recordSuccess b = b\<lparr>cb_failures := 0\<rparr>"
  by (simp add: recordSuccess_def Let_def)

section \<open>Tripping\<close>

text \<open>The number of failures since the last success.\<close>

fun streak :: "nat \<Rightarrow> cb_event list \<Rightarrow> nat" where
  "streak n [] = n"
| "streak n (Allow _ # es) = streak n es"
| "streak n (Success # es) = streak 0 es"
| "streak n (Failure _ # es) = streak (Suc n) es"

text \<open>A history that never reaches the threshold: no prefix of it does.\<close>

fun stays_below :: "int \<Rightarrow> nat \<Rightarrow> cb_event list \<Rightarrow> bool" where
  "stays_below t n [] = (int n < t)"
| "stays_below t n (e # es) = (int n < t \<and> stays_below t (streak n [e]) es)"

lemma below_stays_closed:
  "stays_below (cb_threshold b) n es \<Longrightarrow> cb_state b = Closed \<Longrightarrow> cb_failures b = int n \<Longrightarrow>
     cb_state (cb_run es b) = Closed \<and> cb_failures (cb_run es b) = int (streak n es) \<and>
     False \<notin> set (answers es b)"
proof (induction es arbitrary: n b)
  case Nil
  then show ?case by simp
next
  case (Cons e es)
  have lt: "int (streak n [e]) < cb_threshold b"
    using Cons.prems(1) by (cases es) simp_all
  show ?case
  proof (cases e)
    case (Allow now)
    with Cons.IH [of b n] Cons.prems show ?thesis by (simp add: allow_closed)
  next
    case Success
    with Cons.IH [of "recordSuccess b" 0] Cons.prems show ?thesis by (simp add: success_closed)
  next
    case (Failure now)
    with Cons.IH [of "recordFailure now b" "Suc n"] Cons.prems lt show ?thesis
      by (simp add: failure_closed)
  qed
qed

section \<open>Rejecting and probing\<close>

definition in_window :: "breaker \<Rightarrow> cb_event \<Rightarrow> bool" where
  "in_window b e = (case e of Allow now \<Rightarrow> cb_openedAt b \<le> now \<and>
       now - cb_openedAt b < cb_openMs b * 1000000
     | Success \<Rightarrow> False | Failure _ \<Rightarrow> True)"

lemma open_step:
  assumes "cb_state b = Open" "in_window b e"
  shows "cb_state (snd (cb_step e b)) = Open \<and> cb_openedAt (snd (cb_step e b)) = cb_openedAt b \<and>
    (\<forall>now. e = Allow now \<longrightarrow> \<not> fst (allowRequest now b))"
  using assms by (cases e) (auto simp: in_window_def cb_ops to_millis_ge)

lemma open_run:
  "cb_state b = Open \<Longrightarrow> \<forall>e \<in> set es. in_window b e \<Longrightarrow>
     cb_state (cb_run es b) = Open \<and> cb_openedAt (cb_run es b) = cb_openedAt b \<and>
     True \<notin> set (answers es b)"
proof (induction es arbitrary: b)
  case Nil
  then show ?case by simp
next
  case (Cons e es)
  let ?b = "snd (cb_step e b)"
  have s: "cb_state ?b = Open" "cb_openedAt ?b = cb_openedAt b"
    "\<And>now. e = Allow now \<Longrightarrow> \<not> fst (allowRequest now b)"
    using open_step [OF Cons.prems(1)] Cons.prems(2) by auto
  then have "in_window ?b x \<longleftrightarrow> in_window b x" for x
    by (simp add: in_window_def split: cb_event.split)
  with Cons.IH [OF s(1)] Cons.prems(2) s(2,3) show ?case by (cases e) auto
qed

fun failures_in :: "cb_event list \<Rightarrow> nat" where
  "failures_in [] = 0"
| "failures_in (Failure _ # es) = Suc (failures_in es)"
| "failures_in (_ # es) = failures_in es"

definition budget :: "breaker \<Rightarrow> nat" where
  "budget b = nat (max 1 (cb_maxProbes b))"

text \<open>What is left of the budget: all of it while open, what is not yet out on probes while half open.\<close>

definition left :: "breaker \<Rightarrow> nat" where
  "left b = (if cb_state b = HalfOpen then budget b - nat (cb_probes b) else budget b)"

lemma cb_step_budget [simp]: "budget (snd (cb_step e b)) = budget b"
  by (simp add: budget_def)

lemma allow_left:
  "breaker_inv b \<Longrightarrow> cb_state b \<noteq> Closed \<Longrightarrow>
     cb_state (snd (allowRequest now b)) \<noteq> Closed \<and>
     of_bool (fst (allowRequest now b)) + left (snd (allowRequest now b)) = left b"
  by (auto simp: allowRequest_def left_def budget_def breaker_inv_def split: cb_state.splits)

lemma failure_left:
  "cb_state b \<noteq> Closed \<Longrightarrow>
     cb_state (recordFailure now b) \<noteq> Closed \<and> left (recordFailure now b) \<le> left b + budget b"
  by (auto simp: recordFailure_def transitionToOpen_def left_def budget_def Let_def)

lemma probes_left:
  "breaker_inv b \<Longrightarrow> cb_state b \<noteq> Closed \<Longrightarrow> Success \<notin> set es \<Longrightarrow>
     count_list (answers es b) True \<le> left b + budget b * failures_in es"
proof (induction es arbitrary: b)
  case Nil
  then show ?case by simp
next
  case (Cons e es)
  have inv: "breaker_inv (snd (cb_step e b))" using Cons.prems(1) by (rule cb_step_inv)
  show ?case
  proof (cases e)
    case (Allow now)
    with Cons.IH [OF inv] allow_left [OF Cons.prems(1,2), of now] Cons.prems(3)
      cb_step_budget [of e b]
    show ?thesis by (cases "fst (allowRequest now b)") auto
  next
    case Success
    with Cons.prems(3) show ?thesis by simp
  next
    case (Failure now)
    with Cons.IH [OF inv] failure_left [OF Cons.prems(2), of now] Cons.prems(3)
      cb_step_budget [of e b]
    show ?thesis by simp
  qed
qed

section \<open>Properties of the breaker\<close>

text \<open>Every reachable state is well formed: the probe count is 0 outside the half-open state and
  between 1 and the configured maximum (at least 1) inside it, and a closed breaker has counted
  fewer failures than the threshold.\<close>

lemma reachable_breaker_inv:
  "reachable (new_breaker t n m) b \<Longrightarrow> breaker_inv b"
  by (erule reachable_inv) (rule new_breaker_inv)

lemma reachable_breaker_witness:
  "breaker_inv (snd (allowRequest 9000000 (recordFailure 1000000 (new_breaker 1 5 2))))"
proof (rule reachable_breaker_inv)
  show "reachable (new_breaker 1 5 2) (snd (allowRequest 9000000 (recordFailure 1000000 (new_breaker 1 5 2))))"
    unfolding reachable_run by (rule exI [of _ "[Failure 1000000, Allow 9000000]"]) simp
qed

text \<open>C33: a new breaker stays closed and admits every request for as long as the failures since the
  last success stay below the threshold, and the failure that reaches it opens the breaker at the
  time of that failure.\<close>

theorem trips_at_threshold:
  assumes "stays_below t 0 es"
  shows "cb_state (cb_run es (new_breaker t n m)) = Closed \<and>
    False \<notin> set (answers es (new_breaker t n m)) \<and>
    (let b = cb_run (es @ [Failure now]) (new_breaker t n m) in
      if int (streak 0 es) + 1 < t then cb_state b = Closed
      else cb_state b = Open \<and> cb_openedAt b = now)"
  using below_stays_closed [of "new_breaker t n m" 0 es] assms
  by (auto simp: failure_closed transitionToOpen_def)

theorem trips_at_threshold_witness:
  "cb_state (cb_run ([Failure 1, Success, Failure 2, Allow 3] @ [Failure 4]) (new_breaker 2 5 1)) = Open"
  using trips_at_threshold [of 2 "[Failure 1, Success, Failure 2, Allow 3]" 5 1 4]
  by (simp add: Let_def)

text \<open>C32: an open breaker rejects every request until the configured time has passed since it opened,
  whatever late failures come in, and the first request after that is admitted as the only probe.\<close>

theorem open_rejects_until_timeout:
  assumes "cb_state b = Open" "\<forall>e \<in> set es. in_window b e"
    and "cb_openMs b * 1000000 \<le> now - cb_openedAt b" "0 \<le> cb_openMs b"
  shows "True \<notin> set (answers es b) \<and> fst (allowRequest now (cb_run es b)) \<and>
    cb_state (snd (allowRequest now (cb_run es b))) = HalfOpen \<and>
    cb_probes (snd (allowRequest now (cb_run es b))) = 1"
proof -
  from assms(3,4) have "0 \<le> now - cb_openedAt b" by simp
  with assms(3) have "to_millis (now - cb_openedAt b) \<ge> cb_openMs b" by (simp add: to_millis_ge)
  with open_run [OF assms(1,2)] show ?thesis by (simp add: allowRequest_def)
qed

theorem open_rejects_witness:
  "let b = recordFailure 0 (new_breaker 1 5 1) in
   True \<notin> set (answers [Allow 1000000, Failure 2, Allow 4999999] b) \<and>
   fst (allowRequest 5000000 (cb_run [Allow 1000000, Failure 2, Allow 4999999] b))"
proof -
  let ?b = "recordFailure 0 (new_breaker 1 5 1)"
  have "cb_state ?b = Open" "\<forall>e \<in> set [Allow 1000000, Failure 2, Allow 4999999]. in_window ?b e"
    "cb_openMs ?b * 1000000 \<le> 5000000 - cb_openedAt ?b" "0 \<le> cb_openMs ?b" by code_simp+
  from open_rejects_until_timeout [OF this] show ?thesis by (simp add: Let_def)
qed



section \<open>The registry keeps origins apart\<close>

interpretation host_order: strict_weak_order "(<) :: string \<Rightarrow> string \<Rightarrow> bool"
  by unfold_locales (auto simp: omap_equiv_def)

lemma host_equiv [simp]: "omap_equiv (<) (a :: string) b \<longleftrightarrow> a = b"
  by (auto simp: omap_equiv_def)

lemma host_map_of:
  "omap_inv (<) m \<Longrightarrow> map_of (map (\<lambda>(h, b). (h, f b)) m) (q :: string) = map_option f (omap_find (<) m q)"
proof (induction m)
  case (Cons kv m)
  obtain k v where kv: "kv = (k, v)" by (cases kv)
  have "map_of (map (\<lambda>(h, b). (h, f b)) m) q = None" if "q < k"
    using that Cons.prems by (force simp: kv omap_inv_Cons map_of_eq_None_iff)
  with Cons show ?case by (auto simp: kv omap_inv_Cons)
qed simp

definition fresh_breaker :: "config \<Rightarrow> breaker" where
  "fresh_breaker cfg = new_breaker (cf_cbThreshold cfg) (cf_cbOpenMs cfg) (cf_cbMaxProbes cfg)"

definition breaker_of :: "registry \<Rightarrow> string \<Rightarrow> breaker" where
  "breaker_of g h = (case bfind (rg_breakers g) h of None \<Rightarrow> fresh_breaker (rg_config g) | Some b \<Rightarrow> b)"

definition registry_inv :: "registry \<Rightarrow> bool" where
  "registry_inv g \<longleftrightarrow> omap_inv (<) (rg_breakers g)"

lemma new_registry_inv [inv_intros]: "registry_inv (new_registry cfg)"
  by (simp add: registry_inv_def new_registry_def)

lemma forOrigin_spec:
  assumes "registry_inv g"
  shows "fst (forOrigin h g) = breaker_of g h" "registry_inv (snd (forOrigin h g))"
    "rg_config (snd (forOrigin h g)) = rg_config g"
    "bfind (rg_breakers (snd (forOrigin h g))) q = (if q = h then Some (breaker_of g h) else bfind (rg_breakers g) q)"
  using assms
  by (auto simp: forOrigin_def breaker_of_def fresh_breaker_def registry_inv_def Let_def
      host_order.find_set host_order.inv_set split: option.splits)

lemma with_breaker_spec:
  assumes "registry_inv g"
  shows "fst (with_breaker h f g) = fst (f (breaker_of g h))" "registry_inv (snd (with_breaker h f g))"
    "rg_config (snd (with_breaker h f g)) = rg_config g"
    "bfind (rg_breakers (snd (with_breaker h f g))) q =
      (if q = h then Some (snd (f (breaker_of g h))) else bfind (rg_breakers g) q)"
proof -
  obtain b g' where g: "forOrigin h g = (b, g')" by (cases "forOrigin h g")
  obtain r b' where b: "f b = (r, b')" by (cases "f b")
  note origin = forOrigin_spec [OF assms, of h, unfolded g, simplified]
  have w: "with_breaker h f g = (r, g'\<lparr>rg_breakers := omap_set (<) (rg_breakers g') h b'\<rparr>)"
    by (simp add: with_breaker_def g b)
  show "fst (with_breaker h f g) = fst (f (breaker_of g h))" using origin(1) b by (simp add: w)
  show "registry_inv (snd (with_breaker h f g))" using origin(2) by (simp add: w registry_inv_def host_order.inv_set)
  show "rg_config (snd (with_breaker h f g)) = rg_config g" using origin(3) by (simp add: w)
  show "bfind (rg_breakers (snd (with_breaker h f g))) q =
      (if q = h then Some (snd (f (breaker_of g h))) else bfind (rg_breakers g) q)"
    using origin(1,2) origin(4) [of q] b by (simp add: w registry_inv_def host_order.find_set)
qed

lemma with_breaker_of:
  "registry_inv g \<Longrightarrow> breaker_of (snd (with_breaker h f g)) q =
     (if q = h then snd (f (breaker_of g h)) else breaker_of g q)"
  by (simp add: breaker_of_def with_breaker_spec(4)) (simp add: with_breaker_spec(3) split: option.split)

fun registry_run :: "(string \<times> cb_event) list \<Rightarrow> registry \<Rightarrow> registry" where
  "registry_run [] g = g"
| "registry_run ((h, e) # es) g = registry_run es (snd (with_breaker h (cb_step e) g))"

definition events_of :: "string \<Rightarrow> (string \<times> cb_event) list \<Rightarrow> cb_event list" where
  "events_of h es = map snd (filter (\<lambda>(k, e). k = h) es)"

lemma registry_run_spec:
  "registry_inv g \<Longrightarrow> registry_inv (registry_run es g) \<and> rg_config (registry_run es g) = rg_config g \<and>
     breaker_of (registry_run es g) h = cb_run (events_of h es) (breaker_of g h) \<and>
     (bfind (rg_breakers (registry_run es g)) h = None \<longleftrightarrow>
       events_of h es = [] \<and> bfind (rg_breakers g) h = None)"
proof (induction es arbitrary: g)
  case Nil
  then show ?case by (simp add: events_of_def)
next
  case (Cons x es)
  obtain k e where x: "x = (k, e)" by (cases x)
  note w = with_breaker_spec [OF Cons.prems, of k "cb_step e"] with_breaker_of [OF Cons.prems, of k "cb_step e"]
  from Cons.IH [OF w(2)] w(3,4) w(5) [of h] show ?case by (auto simp: x events_of_def)
qed

text \<open>C35: breakers of different origins never interfere: after any interleaving of steps on any hosts,
  the breaker of a host is what its own steps alone make of a fresh breaker, a host without a step
  has none, and the snapshot lists every host once, in order, under its breaker's state.\<close>

theorem registry_isolates_origins:
  "(let g = registry_run es (new_registry cfg) in
    bfind (rg_breakers g) h =
      (if events_of h es = [] then None else Some (cb_run (events_of h es) (fresh_breaker cfg))) \<and>
    sorted_wrt (<) (map fst (snapshot g)) \<and>
    map_of (snapshot g) h = map_option stateName (bfind (rg_breakers g) h))"
proof -
  let ?g = "registry_run es (new_registry cfg)"
  note run = registry_run_spec [OF new_registry_inv, of es cfg h]
  have ord: "sorted_wrt (<) (map fst (rg_breakers ?g))"
    using run by (simp add: registry_inv_def omap_inv_def sorted_wrt_map)
  have fst_snap: "map fst (snapshot ?g) = map fst (rg_breakers ?g)"
    by (simp add: snapshot_def case_prod_beta)
  have "breaker_of (new_registry cfg) h = fresh_breaker cfg" "bfind (rg_breakers (new_registry cfg)) h = None"
    by (simp_all add: breaker_of_def new_registry_def)
  with run have "bfind (rg_breakers ?g) h =
      (if events_of h es = [] then None else Some (cb_run (events_of h es) (fresh_breaker cfg)))"
    by (auto simp: breaker_of_def split: option.splits)
  moreover have "map_of (snapshot ?g) h = map_option stateName (bfind (rg_breakers ?g) h)"
    using run by (simp add: snapshot_def registry_inv_def host_map_of)
  ultimately show ?thesis using ord fst_snap by (simp add: Let_def)
qed

end
