(* ===== verification/InFlight.thy ===== *)
theory InFlight
  imports Http
begin

text \<open>
  \<^verbatim>\<open>coalesce/InFlightRegistry\<close>: the table that lets one request per key fetch from the origin
  while the others wait for its answer. A slot is shared (\<^verbatim>\<open>shared_ptr\<close>): it is an address in a
  heap that only grows, and the table maps a key to the address of its slot. \<^verbatim>\<open>publish\<close> has two
  critical sections, one under the table's mutex and one under the slot's; other threads can run
  between them, so they are two operations. What the callers rely on is the locale
  \<open>single_flight\<close>; the second half of the theory runs any number of threads through the
  protocol of \<^verbatim>\<open>RequestHandler::process\<close> and \<^verbatim>\<open>triggerRevalidation\<close>.
\<close>

section \<open>The registry\<close>

record slot =
  sl_ready :: bool
  sl_success :: bool
  sl_response :: http_response

definition new_slot :: slot where
  "new_slot = \<lparr>sl_ready = False, sl_success = False, sl_response = empty_response\<rparr>"

record inflight =
  if_slots :: "slot list"
  if_table :: "string \<Rightarrow> nat option"
  if_coalesced :: u64

definition new_inflight :: inflight where
  "new_inflight = \<lparr>if_slots = [], if_table = (\<lambda>k. None), if_coalesced = 0\<rparr>"

definition acquire :: "string \<Rightarrow> inflight \<Rightarrow> (bool \<times> nat) \<times> inflight" where
  "acquire key st = (case if_table st key of
     None \<Rightarrow> (let s = length (if_slots st) in
       ((True, s), st\<lparr>if_slots := if_slots st @ [new_slot], if_table := (if_table st)(key \<mapsto> s)\<rparr>))
   | Some s \<Rightarrow> ((False, s), st\<lparr>if_coalesced := if_coalesced st + 1\<rparr>))"

text \<open>The two critical sections of \<^verbatim>\<open>publish\<close>: \<open>None\<close> is the early return.\<close>

definition publish_take :: "string \<Rightarrow> inflight \<Rightarrow> nat option \<times> inflight" where
  "publish_take key st = (case if_table st key of
     None \<Rightarrow> (None, st)
   | Some s \<Rightarrow> (Some s, st\<lparr>if_table := (if_table st)(key := None)\<rparr>))"

definition publish_set :: "nat \<Rightarrow> http_response \<Rightarrow> bool \<Rightarrow> inflight \<Rightarrow> inflight" where
  "publish_set s resp success st =
     st\<lparr>if_slots := (if_slots st)[s := \<lparr>sl_ready = True, sl_success = success, sl_response = resp\<rparr>]\<rparr>"

definition publish :: "string \<Rightarrow> http_response \<Rightarrow> bool \<Rightarrow> inflight \<Rightarrow> inflight" where
  "publish key resp success st = (case publish_take key st of
     (None, st) \<Rightarrow> st
   | (Some s, st) \<Rightarrow> publish_set s resp success st)"

text \<open>What \<^verbatim>\<open>waitReady\<close> waits for, and what the waiter reads afterwards.\<close>

definition slot_ready :: "nat \<Rightarrow> inflight \<Rightarrow> bool" where
  "slot_ready s st \<longleftrightarrow> s < length (if_slots st) \<and> sl_ready (if_slots st ! s)"

definition slot_result :: "nat \<Rightarrow> inflight \<Rightarrow> http_response \<times> bool" where
  "slot_result s st = (sl_response (if_slots st ! s), sl_success (if_slots st ! s))"

section \<open>What the callers rely on\<close>

locale single_flight =
  fixes acq :: "'k \<Rightarrow> 's \<Rightarrow> (bool \<times> 'a) \<times> 's"
    and release :: "'k \<Rightarrow> 's \<Rightarrow> 's"
    and busy :: "'s \<Rightarrow> 'k \<Rightarrow> 'a option"
  assumes acq_leader: "fst (fst (acq k s)) \<longleftrightarrow> busy s k = None"
    and acq_busy: "busy (snd (acq k s)) q = (if q = k then Some (snd (fst (acq k s))) else busy s q)"
    and acq_join: "busy s k = Some a \<Longrightarrow> snd (fst (acq k s)) = a"
    and release_busy: "busy (release k s) q = (if q = k then None else busy s q)"
begin

text \<open>A history is a list of calls, \<open>(k, True)\<close> an acquire of \<open>k\<close> and \<open>(k, False)\<close> a publish.\<close>

fun calls :: "('k \<times> bool) list \<Rightarrow> 's \<Rightarrow> 's" where
  "calls [] s = s"
| "calls ((k, a) # cs) s = calls cs (if a then snd (acq k s) else release k s)"

fun leaders :: "'k \<Rightarrow> ('k \<times> bool) list \<Rightarrow> 's \<Rightarrow> nat" where
  "leaders q [] s = 0"
| "leaders q ((k, a) # cs) s =
     of_bool (k = q \<and> a \<and> fst (fst (acq k s))) +
     leaders q cs (if a then snd (acq k s) else release k s)"

definition releases :: "'k \<Rightarrow> ('k \<times> bool) list \<Rightarrow> nat" where
  "releases q cs = length (filter (\<lambda>c. c = (q, False)) cs)"

text \<open>Between two leaders of a key there is a publish of it, so leaders never outnumber the
  publishes by more than one; and calls for other keys never matter.\<close>

lemma leaders_bound: "leaders q cs s + of_bool (busy s q \<noteq> None) \<le> releases q cs + 1"
proof (induction cs arbitrary: s)
  case Nil
  then show ?case by (simp add: releases_def)
next
  case (Cons c cs)
  obtain k a where c: "c = (k, a)" by (cases c)
  note IH = Cons.IH [of "if a then snd (acq k s) else release k s"]
  show ?case
  proof (cases "k = q")
    case True
    with IH acq_leader [of k s] show ?thesis
      by (cases a; cases "busy s q") (auto simp: c acq_busy release_busy releases_def)
  next
    case False
    with IH show ?thesis by (cases a) (auto simp: c acq_busy release_busy releases_def)
  qed
qed

lemma followers_share:
  "busy s k = Some a \<Longrightarrow> acq k s = ((False, a), snd (acq k s))"
  using acq_join [of s k a] acq_leader [of k s] by (cases "acq k s") auto

end

lemma publish_table: "if_table (publish key resp ok st) q = (if q = key then None else if_table st q)"
  by (auto simp: publish_def publish_take_def publish_set_def split: option.split)

interpretation inflight: single_flight acquire "\<lambda>k. publish k resp ok" if_table for resp ok
  by unfold_locales (auto simp: acquire_def publish_table Let_def split: option.splits)

section \<open>Threads\<close>

text \<open>A thread is idle, fetches as the leader of a key, has taken its slot out of the table and is
  about to fill it, waits for a slot, or has an answer.\<close>

datatype thread =
    Idle
  | Leading string nat
  | Publishing nat http_response bool
  | Waiting nat
  | Answered nat http_response bool

record proto =
  p_reg :: inflight
  p_threads :: "nat \<Rightarrow> thread"

inductive proto_step :: "proto \<Rightarrow> proto \<Rightarrow> bool" where
  begin_lead: "p_threads p t = Idle \<Longrightarrow> acquire key (p_reg p) = ((True, s), r) \<Longrightarrow>
    proto_step p (p\<lparr>p_reg := r, p_threads := (p_threads p)(t := Leading key s)\<rparr>)"
| begin_wait: "p_threads p t = Idle \<Longrightarrow> acquire key (p_reg p) = ((False, s), r) \<Longrightarrow>
    proto_step p (p\<lparr>p_reg := r, p_threads := (p_threads p)(t := Waiting s)\<rparr>)"
| take: "p_threads p t = Leading key s \<Longrightarrow> publish_take key (p_reg p) = (Some s', r) \<Longrightarrow>
    proto_step p (p\<lparr>p_reg := r, p_threads := (p_threads p)(t := Publishing s' resp ok)\<rparr>)"
| take_none: "p_threads p t = Leading key s \<Longrightarrow> publish_take key (p_reg p) = (None, r) \<Longrightarrow>
    proto_step p (p\<lparr>p_reg := r, p_threads := (p_threads p)(t := Answered s resp ok)\<rparr>)"
| fill: "p_threads p t = Publishing s resp ok \<Longrightarrow>
    proto_step p (p\<lparr>p_reg := publish_set s resp ok (p_reg p),
      p_threads := (p_threads p)(t := Answered s resp ok)\<rparr>)"
| wake: "p_threads p t = Waiting s \<Longrightarrow> slot_ready s (p_reg p) \<Longrightarrow> slot_result s (p_reg p) = (resp, ok) \<Longrightarrow>
    proto_step p (p\<lparr>p_threads := (p_threads p)(t := Answered s resp ok)\<rparr>)"

definition proto_start :: proto where
  "proto_start = \<lparr>p_reg = new_inflight, p_threads = (\<lambda>t. Idle)\<rparr>"

inductive proto_reach :: "proto \<Rightarrow> bool" where
  start: "proto_reach proto_start"
| next_step: "proto_reach p \<Longrightarrow> proto_step p p' \<Longrightarrow> proto_reach p'"

inductive_cases proto_stepE: "proto_step p p'"

section \<open>The invariant of the protocol\<close>

definition owns :: "thread \<Rightarrow> nat \<Rightarrow> bool" where
  "owns th s = (case th of Leading k s' \<Rightarrow> s' = s | Publishing s' r ok \<Rightarrow> s' = s | _ \<Rightarrow> False)"

definition thread_ok :: "inflight \<Rightarrow> thread \<Rightarrow> bool" where
  "thread_ok r th = (case th of
     Idle \<Rightarrow> True
   | Leading k s \<Rightarrow> if_table r k = Some s \<and> s < length (if_slots r) \<and> \<not> sl_ready (if_slots r ! s)
   | Publishing s resp ok \<Rightarrow> s < length (if_slots r) \<and> \<not> sl_ready (if_slots r ! s) \<and> s \<notin> ran (if_table r)
   | Waiting s \<Rightarrow> s < length (if_slots r)
   | Answered s resp ok \<Rightarrow> s < length (if_slots r) \<and>
       if_slots r ! s = \<lparr>sl_ready = True, sl_success = ok, sl_response = resp\<rparr>)"

definition proto_inv :: "proto \<Rightarrow> bool" where
  "proto_inv p \<longleftrightarrow>
     (\<forall>t. thread_ok (p_reg p) (p_threads p t)) \<and>
     (\<forall>t t' s. owns (p_threads p t) s \<longrightarrow> owns (p_threads p t') s \<longrightarrow> t = t') \<and>
     (\<forall>k s. if_table (p_reg p) k = Some s \<longrightarrow> (\<exists>t. p_threads p t = Leading k s)) \<and>
     (\<forall>s < length (if_slots (p_reg p)). \<not> sl_ready (if_slots (p_reg p) ! s) \<longrightarrow> (\<exists>t. owns (p_threads p t) s))"

lemma proto_invD:
  assumes "proto_inv p"
  shows "thread_ok (p_reg p) (p_threads p t)"
    "owns (p_threads p t) s \<Longrightarrow> owns (p_threads p t') s \<Longrightarrow> t = t'"
    "if_table (p_reg p) k = Some s \<Longrightarrow> \<exists>t. p_threads p t = Leading k s"
    "s < length (if_slots (p_reg p)) \<Longrightarrow> \<not> sl_ready (if_slots (p_reg p) ! s) \<Longrightarrow> \<exists>t. owns (p_threads p t) s"
  using assms unfolding proto_inv_def by blast+

lemma owns_simps [simp]:
  "\<not> owns Idle s" "owns (Leading k s') s \<longleftrightarrow> s' = s" "owns (Publishing s' r ok) s \<longleftrightarrow> s' = s"
  "\<not> owns (Waiting s') s" "\<not> owns (Answered s' r ok) s"
  by (simp_all add: owns_def)

lemma owns_bound: "proto_inv p \<Longrightarrow> owns (p_threads p t) s \<Longrightarrow> s < length (if_slots (p_reg p))"
  using proto_invD(1) [of p t] by (cases "p_threads p t") (auto simp: thread_ok_def)

lemma table_unique:
  assumes "proto_inv p" "if_table (p_reg p) k = Some s" "if_table (p_reg p) k' = Some s"
  shows "k = k'"
proof -
  obtain t t' where "p_threads p t = Leading k s" "p_threads p t' = Leading k' s"
    using assms proto_invD(3) by blast
  moreover from this have "t = t'" using proto_invD(2) [OF assms(1), of t s t'] by simp
  ultimately show ?thesis by simp
qed

lemma acquire_lead:
  "acquire key r = ((True, s), r') \<Longrightarrow> if_table r key = None \<and> s = length (if_slots r) \<and>
     if_slots r' = if_slots r @ [new_slot] \<and> if_table r' = (if_table r)(key \<mapsto> s)"
  by (auto simp: acquire_def Let_def split: option.splits)

lemma acquire_wait:
  "acquire key r = ((False, s), r') \<Longrightarrow> if_table r key = Some s \<and> if_slots r' = if_slots r \<and>
     if_table r' = if_table r"
  by (auto simp: acquire_def Let_def split: option.splits)

text \<open>Every step changes one thread; what the invariant asks of the step.\<close>

lemma proto_inv_update:
  assumes inv: "proto_inv p"
    and others: "\<And>u. u \<noteq> t \<Longrightarrow> thread_ok r (p_threads p u)"
    and me: "thread_ok r th"
    and excl: "\<And>u s. owns th s \<Longrightarrow> u \<noteq> t \<Longrightarrow> \<not> owns (p_threads p u) s"
    and table: "\<And>k s. if_table r k = Some s \<Longrightarrow> th = Leading k s \<or> (\<exists>u. u \<noteq> t \<and> p_threads p u = Leading k s)"
    and ready: "\<And>s. s < length (if_slots r) \<Longrightarrow> \<not> sl_ready (if_slots r ! s) \<Longrightarrow>
      owns th s \<or> (\<exists>u. u \<noteq> t \<and> owns (p_threads p u) s)"
  shows "proto_inv (p\<lparr>p_reg := r, p_threads := (p_threads p)(t := th)\<rparr>)"
proof -
  let ?th = "(p_threads p)(t := th)"
  have "thread_ok r (?th u)" for u using others me by simp
  moreover have "u = u'" if "owns (?th u) s" "owns (?th u') s" for u u' s
    using that excl proto_invD(2) [OF inv, of u s u'] by (auto split: if_splits)
  moreover have "\<exists>u. ?th u = Leading k s" if "if_table r k = Some s" for k s
    using table [OF that] by (metis fun_upd_other fun_upd_same)
  moreover have "\<exists>u. owns (?th u) s" if "s < length (if_slots r)" "\<not> sl_ready (if_slots r ! s)" for s
    using ready [OF that] by (metis fun_upd_other fun_upd_same)
  moreover have "p_reg (p\<lparr>p_reg := r, p_threads := ?th\<rparr>) = r"
    "p_threads (p\<lparr>p_reg := r, p_threads := ?th\<rparr>) = ?th" by simp_all
  ultimately show ?thesis unfolding proto_inv_def by (simp only:) blast
qed

lemma inv_begin_lead:
  assumes inv: "proto_inv p" and idle: "p_threads p t = Idle"
    and a: "acquire key (p_reg p) = ((True, s), r)"
  shows "proto_inv (p\<lparr>p_reg := r, p_threads := (p_threads p)(t := Leading key s)\<rparr>)"
proof (rule proto_inv_update [OF inv])
  note r = acquire_lead [OF a]
  show "thread_ok r (p_threads p u)" for u
    using proto_invD(1) [OF inv, of u] r
    by (auto simp: thread_ok_def nth_append ran_def split: thread.splits if_splits)
  show "thread_ok r (Leading key s)"
    using r by (simp add: thread_ok_def new_slot_def)
  show "\<not> owns (p_threads p u) x" if "owns (Leading key s) x" for u x
    using that owns_bound [OF inv, of u x] r by auto
  show "Leading key s = Leading k x \<or> (\<exists>u. u \<noteq> t \<and> p_threads p u = Leading k x)"
    if "if_table r k = Some x" for k x
  proof (cases "k = key")
    case False
    with that r obtain u where "p_threads p u = Leading k x"
      using proto_invD(3) [OF inv, of k x] by auto
    with idle show ?thesis by force
  qed (use that r in simp)
  show "owns (Leading key s) x \<or> (\<exists>u. u \<noteq> t \<and> owns (p_threads p u) x)"
    if "x < length (if_slots r)" "\<not> sl_ready (if_slots r ! x)" for x
  proof (cases "x = s")
    case False
    with that r obtain u where "owns (p_threads p u) x"
      using proto_invD(4) [OF inv, of x] by (auto simp: nth_append less_Suc_eq)
    with idle show ?thesis by (metis owns_simps(1))
  qed simp
qed

lemma inv_begin_wait:
  assumes inv: "proto_inv p" and idle: "p_threads p t = Idle"
    and a: "acquire key (p_reg p) = ((False, s), r)"
  shows "proto_inv (p\<lparr>p_reg := r, p_threads := (p_threads p)(t := Waiting s)\<rparr>)"
proof (rule proto_inv_update [OF inv])
  note r = acquire_wait [OF a]
  have same: "thread_ok r th = thread_ok (p_reg p) th" for th
    using r by (simp add: thread_ok_def split: thread.split)
  show "thread_ok r (p_threads p u)" for u using proto_invD(1) [OF inv] by (simp add: same)
  obtain u where "p_threads p u = Leading key s" using proto_invD(3) [OF inv] r by blast
  with proto_invD(1) [OF inv, of u] show "thread_ok r (Waiting s)" using r by (simp add: thread_ok_def)
  show "Waiting s = Leading k x \<or> (\<exists>u. u \<noteq> t \<and> p_threads p u = Leading k x)"
    if "if_table r k = Some x" for k x
    using that r proto_invD(3) [OF inv, of k x] idle by force
  show "owns (Waiting s) x \<or> (\<exists>u. u \<noteq> t \<and> owns (p_threads p u) x)"
    if "x < length (if_slots r)" "\<not> sl_ready (if_slots r ! x)" for x
    using that r proto_invD(4) [OF inv, of x] idle by (metis owns_simps(1))
qed simp

lemma take_own:
  assumes "proto_inv p" "p_threads p t = Leading key s"
  shows "publish_take key (p_reg p) = (Some s, (p_reg p)\<lparr>if_table := (if_table (p_reg p))(key := None)\<rparr>)"
  using proto_invD(1) [OF assms(1), of t] assms(2) by (simp add: thread_ok_def publish_take_def)

lemma inv_take:
  assumes inv: "proto_inv p" and lead: "p_threads p t = Leading key s"
  shows "proto_inv (p\<lparr>p_reg := (p_reg p)\<lparr>if_table := (if_table (p_reg p))(key := None)\<rparr>,
    p_threads := (p_threads p)(t := Publishing s resp ok)\<rparr>)"
proof (rule proto_inv_update [OF inv])
  let ?r = "(p_reg p)\<lparr>if_table := (if_table (p_reg p))(key := None)\<rparr>"
  have mine: "if_table (p_reg p) key = Some s" "s < length (if_slots (p_reg p))"
    "\<not> sl_ready (if_slots (p_reg p) ! s)"
    using proto_invD(1) [OF inv, of t] lead by (simp_all add: thread_ok_def)
  show "thread_ok ?r (p_threads p u)" if "u \<noteq> t" for u
  proof -
    have "\<not> owns (p_threads p u) s" using proto_invD(2) [OF inv, of u s t] that lead by auto
    then have "k \<noteq> key" if "p_threads p u = Leading k x" for k x
      using that proto_invD(1) [OF inv, of u] mine by (auto simp: thread_ok_def)
    with proto_invD(1) [OF inv, of u] show ?thesis
      by (auto simp: thread_ok_def ran_def split: thread.splits)
  qed
  show "thread_ok ?r (Publishing s resp ok)"
    using mine by (auto simp: thread_ok_def ran_def dest: table_unique [OF inv mine(1)])
  show "\<not> owns (p_threads p u) x" if "owns (Publishing s resp ok) x" "u \<noteq> t" for u x
    using that lead proto_invD(2) [OF inv, of u x t] by auto
  show "Publishing s resp ok = Leading k x \<or> (\<exists>u. u \<noteq> t \<and> p_threads p u = Leading k x)"
    if "if_table ?r k = Some x" for k x
    using that proto_invD(3) [OF inv, of k x] lead by (force split: if_splits)
  show "owns (Publishing s resp ok) x \<or> (\<exists>u. u \<noteq> t \<and> owns (p_threads p u) x)"
    if "x < length (if_slots ?r)" "\<not> sl_ready (if_slots ?r ! x)" for x
    using that proto_invD(4) [OF inv, of x] lead by (force)
qed

lemma inv_fill:
  assumes inv: "proto_inv p" and pub: "p_threads p t = Publishing s resp ok"
  shows "proto_inv (p\<lparr>p_reg := publish_set s resp ok (p_reg p),
    p_threads := (p_threads p)(t := Answered s resp ok)\<rparr>)"
proof (rule proto_inv_update [OF inv])
  let ?r = "publish_set s resp ok (p_reg p)"
  have mine: "s < length (if_slots (p_reg p))" "\<not> sl_ready (if_slots (p_reg p) ! s)"
    using proto_invD(1) [OF inv, of t] pub by (simp_all add: thread_ok_def)
  show "thread_ok ?r (p_threads p u)" if "u \<noteq> t" for u
  proof -
    have "\<not> owns (p_threads p u) s" using proto_invD(2) [OF inv, of u s t] that pub by auto
    then show ?thesis
      using proto_invD(1) [OF inv, of u] mine
      by (auto simp: thread_ok_def publish_set_def nth_list_update split: thread.splits)
  qed
  show "thread_ok ?r (Answered s resp ok)" using mine by (simp add: thread_ok_def publish_set_def)
  show "Answered s resp ok = Leading k x \<or> (\<exists>u. u \<noteq> t \<and> p_threads p u = Leading k x)"
    if "if_table ?r k = Some x" for k x
    using that proto_invD(3) [OF inv, of k x] pub by (force simp: publish_set_def)
  show "owns (Answered s resp ok) x \<or> (\<exists>u. u \<noteq> t \<and> owns (p_threads p u) x)"
    if "x < length (if_slots ?r)" "\<not> sl_ready (if_slots ?r ! x)" for x
  proof -
    have x: "x \<noteq> s" "x < length (if_slots (p_reg p))" "\<not> sl_ready (if_slots (p_reg p) ! x)"
      using that mine by (auto simp: publish_set_def nth_list_update split: if_splits)
    then obtain u where u: "owns (p_threads p u) x" using proto_invD(4) [OF inv] by blast
    with pub x(1) have "u \<noteq> t" by auto
    with u show ?thesis by blast
  qed
qed simp

lemma inv_wake:
  assumes inv: "proto_inv p" and wait: "p_threads p t = Waiting s" and rdy: "slot_ready s (p_reg p)"
    and res: "slot_result s (p_reg p) = (resp, ok)"
  shows "proto_inv (p\<lparr>p_threads := (p_threads p)(t := Answered s resp ok)\<rparr>)"
proof -
  have "proto_inv (p\<lparr>p_reg := p_reg p, p_threads := (p_threads p)(t := Answered s resp ok)\<rparr>)"
  proof (rule proto_inv_update [OF inv])
    show "thread_ok (p_reg p) (p_threads p u)" for u by (rule proto_invD(1) [OF inv])
    show "thread_ok (p_reg p) (Answered s resp ok)"
      using rdy res by (auto simp: thread_ok_def slot_ready_def slot_result_def)
    show "Answered s resp ok = Leading k x \<or> (\<exists>u. u \<noteq> t \<and> p_threads p u = Leading k x)"
      if "if_table (p_reg p) k = Some x" for k x
      using proto_invD(3) [OF inv that] wait by force
    show "owns (Answered s resp ok) x \<or> (\<exists>u. u \<noteq> t \<and> owns (p_threads p u) x)"
      if "x < length (if_slots (p_reg p))" "\<not> sl_ready (if_slots (p_reg p) ! x)" for x
      using proto_invD(4) [OF inv that] wait by (metis owns_simps(4))
  qed simp
  then show ?thesis by simp
qed

lemma proto_step_inv [inv_intros]:
  assumes "proto_step p p'" "proto_inv p"
  shows "proto_inv p'"
  using assms
proof (cases rule: proto_step.cases)
  case (begin_lead t key s r)
  then show ?thesis using inv_begin_lead assms(2) by blast
next
  case (begin_wait t key s r)
  then show ?thesis using inv_begin_wait assms(2) by blast
next
  case (take t key s s' r resp ok)
  then show ?thesis using inv_take [OF assms(2)] take_own [OF assms(2)] by fastforce
next
  case (take_none t key s r resp ok)
  then show ?thesis using take_own [OF assms(2)] by fastforce
next
  case (fill t s resp ok)
  then show ?thesis using inv_fill [OF assms(2)] by blast
next
  case (wake t s resp ok)
  then show ?thesis using inv_wake [OF assms(2)] by blast
qed

lemma proto_reach_inv: "proto_reach p \<Longrightarrow> proto_inv p"
proof (induction rule: proto_reach.induct)
  case start
  show ?case by (simp add: proto_inv_def proto_start_def new_inflight_def thread_ok_def)
next
  case (next_step p p')
  then show ?case using proto_step_inv by blast
qed

text \<open>From any state the protocol can reach, the owner of a slot can fill it.\<close>

lemma owner_fills:
  assumes inv: "proto_inv p" and own: "owns (p_threads p t) s"
  shows "\<exists>p' resp ok. proto_step\<^sup>*\<^sup>* p p' \<and> p_threads p' = (p_threads p)(t := Answered s resp ok) \<and>
    slot_ready s (p_reg p')"
proof -
  have fill: "\<exists>p'. proto_step q p' \<and> p_threads p' = (p_threads q)(t := Answered s resp ok) \<and> slot_ready s (p_reg p')"
    if "p_threads q t = Publishing s resp ok" "proto_inv q" for q resp ok
    using proto_step.fill [OF that(1)] proto_invD(1) [OF that(2), of t] that(1)
    by (force simp: slot_ready_def publish_set_def thread_ok_def)
  show ?thesis
  proof (cases "p_threads p t")
    case (Leading k s')
    with own have lead: "p_threads p t = Leading k s" by simp
    let ?q = "p\<lparr>p_reg := (p_reg p)\<lparr>if_table := (if_table (p_reg p))(k := None)\<rparr>,
      p_threads := (p_threads p)(t := Publishing s empty_response True)\<rparr>"
    have "proto_step p ?q" using proto_step.take [OF lead take_own [OF inv lead]] by simp
    moreover obtain p' where "proto_step ?q p'"
      "p_threads p' = (p_threads ?q)(t := Answered s empty_response True)" "slot_ready s (p_reg p')"
      using fill [of ?q empty_response True] inv_take [OF inv lead] by auto
    ultimately show ?thesis
      by (intro exI [of _ p'] exI [of _ empty_response] exI [of _ True])
        (auto intro: converse_rtranclp_into_rtranclp)
  next
    case (Publishing s' resp ok)
    with own fill [of p resp ok] inv show ?thesis by (metis owns_simps(3) r_into_rtranclp)
  qed (use own in simp_all)
qed

section \<open>Properties\<close>

text \<open>C8: at every moment at most one thread fetches for a key, whatever the interleaving, and
  nobody is told to lead a key that is being fetched.\<close>

theorem one_leader_per_key:
  assumes "proto_reach p" "p_threads p t = Leading key s" "p_threads p t' = Leading key s'"
  shows "t = t' \<and> s = s' \<and> \<not> fst (fst (acquire key (p_reg p)))"
proof -
  note inv = proto_reach_inv [OF assms(1)]
  have "if_table (p_reg p) key = Some s" "if_table (p_reg p) key = Some s'"
    using proto_invD(1) [OF inv, of t] proto_invD(1) [OF inv, of t'] assms(2,3)
    by (simp_all add: thread_ok_def)
  then have same: "s = s'" and busy: "if_table (p_reg p) key = Some s" by simp_all
  with proto_invD(2) [OF inv, of t s t'] assms(2,3) have "t = t'" by simp
  with same busy show ?thesis by (simp add: inflight.acq_leader)
qed

definition one_lead :: proto where
  "one_lead = proto_start\<lparr>p_reg := snd (acquire ''k'' new_inflight),
     p_threads := (\<lambda>t. Idle)(0 := Leading ''k'' 0)\<rparr>"

lemma one_lead_reach: "proto_reach one_lead"
proof -
  have "acquire ''k'' (p_reg proto_start) = ((True, 0), snd (acquire ''k'' new_inflight))"
    by (simp add: proto_start_def new_inflight_def acquire_def Let_def)
  from proto_step.begin_lead [OF _ this, of 0] show ?thesis
    using proto_reach.next_step [OF proto_reach.start] by (simp add: one_lead_def proto_start_def)
qed

theorem one_leader_per_key_witness: "\<not> fst (fst (acquire ''k'' (p_reg one_lead)))"
  using one_leader_per_key [OF one_lead_reach, of 0 "''k''" 0 0 0] by (simp add: one_lead_def)

text \<open>C16: no waiter is lost and every waiter gets its leader's answer: from any reachable state a
  waiting thread can still be answered by the steps of the protocol alone, and all threads that
  were answered for the same slot, its leader included, have the same response and flag.\<close>

theorem waiters_are_answered:
  assumes "proto_reach p"
  shows "(p_threads p t = Waiting s \<longrightarrow>
      (\<exists>p' resp ok. proto_step\<^sup>*\<^sup>* p p' \<and> p_threads p' t = Answered s resp ok)) \<and>
    (p_threads p t = Answered s resp ok \<and> p_threads p t' = Answered s resp' ok' \<longrightarrow> resp = resp' \<and> ok = ok')"
proof (intro conjI impI)
  note inv = proto_reach_inv [OF assms(1)]
  have ready: "\<exists>p' resp ok. proto_step q p' \<and> p_threads p' t = Answered s resp ok"
    if "p_threads q t = Waiting s" "slot_ready s (p_reg q)" for q
    using proto_step.wake [OF that] by (metis fun_upd_same proto.select_convs(2) proto.surjective
        proto.update_convs(2) surj_pair)
  assume w: "p_threads p t = Waiting s"
  show "\<exists>p' resp ok. proto_step\<^sup>*\<^sup>* p p' \<and> p_threads p' t = Answered s resp ok"
  proof (cases "slot_ready s (p_reg p)")
    case True
    with ready [OF w] show ?thesis by blast
  next
    case False
    with proto_invD(1) [OF inv, of t] w obtain u where u: "owns (p_threads p u) s"
      using proto_invD(4) [OF inv, of s] by (auto simp: thread_ok_def slot_ready_def)
    with w have "u \<noteq> t" by auto
    moreover obtain q resp ok where q: "proto_step\<^sup>*\<^sup>* p q"
      "p_threads q = (p_threads p)(u := Answered s resp ok)" "slot_ready s (p_reg q)"
      using owner_fills [OF inv u] by blast
    ultimately have "p_threads q t = Waiting s" using w by simp
    from ready [OF this q(3)] q(1) show ?thesis by (meson rtranclp.rtrancl_into_rtrancl)
  qed
next
  note inv = proto_reach_inv [OF assms(1)]
  assume a: "p_threads p t = Answered s resp ok \<and> p_threads p t' = Answered s resp' ok'"
  with proto_invD(1) [OF inv, of t] proto_invD(1) [OF inv, of t'] show "resp = resp'" "ok = ok'"
    by (auto simp: thread_ok_def)
qed

definition one_wait :: proto where
  "one_wait = one_lead\<lparr>p_reg := snd (acquire ''k'' (p_reg one_lead)),
     p_threads := (p_threads one_lead)(1 := Waiting 0)\<rparr>"

lemma one_wait_reach: "proto_reach one_wait"
proof -
  have "acquire ''k'' (p_reg one_lead) = ((False, 0), snd (acquire ''k'' (p_reg one_lead)))"
    by (simp add: one_lead_def proto_start_def new_inflight_def acquire_def Let_def)
  moreover have "p_threads one_lead 1 = Idle" by (simp add: one_lead_def)
  ultimately show ?thesis
    using proto_reach.next_step [OF one_lead_reach proto_step.begin_wait] by (simp add: one_wait_def)
qed

theorem waiters_are_answered_witness:
  "\<exists>p' resp ok. proto_step\<^sup>*\<^sup>* one_wait p' \<and> p_threads p' 1 = Answered 0 resp ok"
  using waiters_are_answered [OF one_wait_reach, of 1 0] by (simp add: one_wait_def)

end
