(* ===== verification/Metrics.thy ===== *)
theory Metrics
  imports Http Complex_Main
begin

text \<open>
  \<^verbatim>\<open>metrics/MetricsRegistry\<close>: the counters, the latency histogram and the text that the scrape
  endpoint serves. Counters are \<open>64 word\<close>, as the atomics are. A \<^verbatim>\<open>double\<close> is read as the rational
  number it stands for (rounding is not modelled), and how a stream prints one is the
  argument \<open>shw\<close>. The callbacks that \<^verbatim>\<open>ProxyServer::wireMetrics\<close> installs are read once per
  rendering: their values are the record \<open>gauges\<close>.
\<close>

section \<open>State\<close>

record metrics =
  m_hits :: u64
  m_misses :: u64
  m_staleServed :: u64
  m_originErrors :: u64
  m_circuitRejects :: u64
  m_bytesServed :: u64
  m_purgeMessages :: u64
  m_purgedKeys :: u64
  m_l2Hits :: u64
  m_l2Misses :: u64
  m_buckets :: "u64 list"
  m_histCount :: u64
  m_histSum :: rat

definition kBounds :: "rat list" where
  "kBounds = [1/1000, 5/1000, 1/100, 5/100, 1/10, 5/10, 1, 5]"

definition new_metrics :: metrics where
  "new_metrics = \<lparr>m_hits = 0, m_misses = 0, m_staleServed = 0, m_originErrors = 0, m_circuitRejects = 0,
     m_bytesServed = 0, m_purgeMessages = 0, m_purgedKeys = 0, m_l2Hits = 0, m_l2Misses = 0,
     m_buckets = replicate 8 0, m_histCount = 0, m_histSum = 0\<rparr>"

definition recordHit :: "metrics \<Rightarrow> metrics" where
  "recordHit m = m\<lparr>m_hits := m_hits m + 1\<rparr>"

definition recordMiss :: "metrics \<Rightarrow> metrics" where
  "recordMiss m = m\<lparr>m_misses := m_misses m + 1\<rparr>"

definition recordStaleServed :: "metrics \<Rightarrow> metrics" where
  "recordStaleServed m = m\<lparr>m_staleServed := m_staleServed m + 1\<rparr>"

definition recordOriginError :: "metrics \<Rightarrow> metrics" where
  "recordOriginError m = m\<lparr>m_originErrors := m_originErrors m + 1\<rparr>"

definition recordCircuitReject :: "metrics \<Rightarrow> metrics" where
  "recordCircuitReject m = m\<lparr>m_circuitRejects := m_circuitRejects m + 1\<rparr>"

definition recordBytesServed :: "u64 \<Rightarrow> metrics \<Rightarrow> metrics" where
  "recordBytesServed n m = m\<lparr>m_bytesServed := m_bytesServed m + n\<rparr>"

definition recordPurgeMessage :: "metrics \<Rightarrow> metrics" where
  "recordPurgeMessage m = m\<lparr>m_purgeMessages := m_purgeMessages m + 1\<rparr>"

definition addPurgedKeys :: "u64 \<Rightarrow> metrics \<Rightarrow> metrics" where
  "addPurgedKeys n m = m\<lparr>m_purgedKeys := m_purgedKeys m + n\<rparr>"

definition recordL2Hit :: "metrics \<Rightarrow> metrics" where
  "recordL2Hit m = m\<lparr>m_l2Hits := m_l2Hits m + 1\<rparr>"

definition recordL2Miss :: "metrics \<Rightarrow> metrics" where
  "recordL2Miss m = m\<lparr>m_l2Misses := m_l2Misses m + 1\<rparr>"

definition observeOriginLatency :: "rat \<Rightarrow> metrics \<Rightarrow> metrics" where
  "observeOriginLatency seconds m =
     m\<lparr>m_buckets := map2 (\<lambda>b n. if seconds \<le> b then n + 1 else n) kBounds (m_buckets m),
       m_histSum := m_histSum m + seconds, m_histCount := m_histCount m + 1\<rparr>"

section \<open>Rendering\<close>

record gauges =
  g_evictions :: u64
  g_coalesced :: u64
  g_cacheSizeBytes :: u64
  g_cacheEntries :: u64
  g_ruleCount :: u64
  g_redisConnected :: bool
  g_circuitStates :: "(string \<times> string) list"

definition show_u64 :: "u64 \<Rightarrow> string" where
  "show_u64 w = show_nat (unat w)"

definition quoted :: "string \<Rightarrow> string" where
  "quoted s = CHR 0x22 # s @ [CHR 0x22]"

definition metric_head :: "string \<Rightarrow> string \<Rightarrow> string \<Rightarrow> string" where
  "metric_head name help type =
     ''# HELP '' @ name @ '' '' @ help @ [LF] @ ''# TYPE '' @ name @ '' '' @ type @ [LF]"

definition metric_value :: "string \<Rightarrow> string \<Rightarrow> string" where
  "metric_value name v = name @ '' '' @ v @ [LF]"

definition counter :: "string \<Rightarrow> string \<Rightarrow> u64 \<Rightarrow> string" where
  "counter name help v = metric_head name help ''counter'' @ metric_value name (show_u64 v)"

definition gauge :: "string \<Rightarrow> string \<Rightarrow> u64 \<Rightarrow> string" where
  "gauge name help v = metric_head name help ''gauge'' @ metric_value name (show_u64 v)"

definition result_line :: "string \<Rightarrow> string \<Rightarrow> u64 \<Rightarrow> string" where
  "result_line name r v = metric_value (name @ ''{result='' @ quoted r @ ''}'') (show_u64 v)"

definition circuit_lines :: "string \<times> string \<Rightarrow> string" where
  "circuit_lines os = concat (map (\<lambda>s.
     metric_value (''edgecache_circuit_breaker_state{origin='' @ quoted (fst os) @ '',state='' @ quoted s @ ''}'')
       (if snd os = s then ''1'' else ''0'')) [''closed'', ''open'', ''half_open''])"

definition bucket_lines :: "(rat \<Rightarrow> string) \<Rightarrow> u64 list \<Rightarrow> string" where
  "bucket_lines shw ns = concat (map2 (\<lambda>b n.
     metric_value (''edgecache_origin_latency_seconds_bucket{le='' @ quoted (shw b) @ ''}'') (show_u64 n))
     kBounds ns)"

definition render :: "(rat \<Rightarrow> string) \<Rightarrow> gauges \<Rightarrow> metrics \<Rightarrow> string" where
  "render shw g m =
     metric_head ''edgecache_requests_total'' ''Total requests by cache result'' ''counter'' @
     result_line ''edgecache_requests_total'' ''hit'' (m_hits m) @
     result_line ''edgecache_requests_total'' ''miss'' (m_misses m) @
     metric_head ''edgecache_l2_requests_total'' ''Shared Redis L2 tier lookups by result'' ''counter'' @
     result_line ''edgecache_l2_requests_total'' ''hit'' (m_l2Hits m) @
     result_line ''edgecache_l2_requests_total'' ''miss'' (m_l2Misses m) @
     counter ''edgecache_stale_served_total'' ''Responses served stale during revalidation'' (m_staleServed m) @
     counter ''edgecache_origin_errors_total'' ''Origin fetch failures'' (m_originErrors m) @
     counter ''edgecache_circuit_breaker_rejections_total''
       ''Requests fast-failed by an open circuit breaker'' (m_circuitRejects m) @
     counter ''edgecache_bytes_served_total'' ''Total response bytes served'' (m_bytesServed m) @
     counter ''edgecache_purge_messages_total'' ''Purge pub/sub messages received'' (m_purgeMessages m) @
     counter ''edgecache_purged_keys_total'' ''Cache keys evicted by purge'' (m_purgedKeys m) @
     counter ''edgecache_evictions_total'' ''LRU evictions across shards'' (g_evictions g) @
     counter ''edgecache_inflight_coalesced_total''
       ''Requests coalesced onto an in-flight origin fetch'' (g_coalesced g) @
     gauge ''edgecache_cache_size_bytes'' ''Approximate in-process cache size'' (g_cacheSizeBytes g) @
     gauge ''edgecache_cache_entries'' ''Number of cached entries'' (g_cacheEntries g) @
     gauge ''edgecache_rules_loaded'' ''Number of override rules in the local store'' (g_ruleCount g) @
     gauge ''edgecache_redis_connected'' ''1 if Redis is currently reachable'' (if g_redisConnected g then 1 else 0) @
     metric_head ''edgecache_circuit_breaker_state'' ''Circuit breaker state (1=active)'' ''gauge'' @
     concat (map circuit_lines (g_circuitStates g)) @
     metric_head ''edgecache_origin_latency_seconds'' ''Origin fetch latency'' ''histogram'' @
     bucket_lines shw (m_buckets m) @
     metric_value (''edgecache_origin_latency_seconds_bucket{le='' @ quoted ''+Inf'' @ ''}'') (show_u64 (m_histCount m)) @
     metric_value ''edgecache_origin_latency_seconds_sum'' (shw (m_histSum m)) @
     metric_value ''edgecache_origin_latency_seconds_count'' (show_u64 (m_histCount m))"

section \<open>The histogram\<close>

lemma length_kBounds [simp]: "length kBounds = 8"
  by (simp add: kBounds_def)

lemma sorted_kBounds: "sorted kBounds"
  by (simp add: kBounds_def)

definition observe_all :: "rat list \<Rightarrow> metrics \<Rightarrow> metrics" where
  "observe_all xs m = fold observeOriginLatency xs m"

lemma observe_all_snoc: "observe_all (xs @ [x]) m = observeOriginLatency x (observe_all xs m)"
  by (simp add: observe_all_def)

lemma observe_all_buckets:
  "length (m_buckets m) = 8 \<Longrightarrow> length (m_buckets (observe_all xs m)) = 8 \<and>
    m_histCount (observe_all xs m) = m_histCount m + of_nat (length xs) \<and>
    (\<forall>i < 8. m_buckets (observe_all xs m) ! i =
       m_buckets m ! i + of_nat (length (filter (\<lambda>x. x \<le> kBounds ! i) xs)))"
proof (induction xs rule: rev_induct)
  case Nil
  then show ?case by (simp add: observe_all_def)
next
  case (snoc x xs)
  then show ?case by (simp add: observe_all_snoc observeOriginLatency_def)
qed

text \<open>The histogram is cumulative: after any observations (fewer than $2^{64}$) the bucket of every
  bound holds exactly the number of observations up to that bound, so the buckets never decrease
  from one bound to the next and never exceed the total count.\<close>

lemma histogram_cumulative:
  assumes "length xs < 2 ^ 64" "i \<le> j" "j < 8"
  shows "unat (m_buckets (observe_all xs new_metrics) ! i) = length (filter (\<lambda>x. x \<le> kBounds ! i) xs) \<and>
    m_buckets (observe_all xs new_metrics) ! i \<le> m_buckets (observe_all xs new_metrics) ! j \<and>
    m_buckets (observe_all xs new_metrics) ! j \<le> m_histCount (observe_all xs new_metrics) \<and>
    unat (m_histCount (observe_all xs new_metrics)) = length xs"
proof -
  let ?n = "\<lambda>i. length (filter (\<lambda>x. x \<le> kBounds ! i) xs)"
  have new: "length (m_buckets new_metrics) = 8" "m_histCount new_metrics = 0"
    "k < 8 \<Longrightarrow> m_buckets new_metrics ! k = 0" for k
    by (simp_all add: new_metrics_def)
  note obs = observe_all_buckets [OF new(1), of xs]
  have bnd: "?n k < 2 ^ 64" for k
    using assms(1) length_filter_le [of "\<lambda>x. x \<le> kBounds ! k" xs] by linarith
  have mono: "?n i \<le> ?n j"
  proof -
    have "kBounds ! i \<le> kBounds ! j"
      using sorted_kBounds assms(2,3) by (simp add: sorted_nth_mono)
    then have "filter (\<lambda>x. x \<le> kBounds ! i) xs = filter (\<lambda>x. x \<le> kBounds ! i) (filter (\<lambda>x. x \<le> kBounds ! j) xs)"
      by (auto intro: filter_cong)
    then show ?thesis by (metis length_filter_le)
  qed
  have "m_buckets (observe_all xs new_metrics) ! k = of_nat (?n k)" if "k < 8" for k
    using obs new that by simp
  moreover have "m_histCount (observe_all xs new_metrics) = of_nat (length xs)" using obs new by simp
  ultimately show ?thesis
    using assms mono bnd length_filter_le [of "\<lambda>x. x \<le> kBounds ! j" xs]
    by (simp add: unat_of_nat_u64 u64_of_nat_le)
qed

lemma histogram_cumulative_witness:
  "m_buckets (observe_all [1/50, 2, 1/2000] new_metrics) ! 0 \<le> m_buckets (observe_all [1/50, 2, 1/2000] new_metrics) ! 3"
  using histogram_cumulative [of "[1/50, 2, 1/2000]" 0 3] by simp

end
