(* ===== verification/RedisClient.thy ===== *)
theory RedisClient
  imports Prelude
begin

text \<open>
  \<^verbatim>\<open>redis/RedisClient\<close>: one connection to Redis, its buffer and the RESP reader. The socket is
  the environment: \<open>c_in\<close> is what \<^verbatim>\<open>poll\<close> and \<^verbatim>\<open>recv\<close> will report on the current socket,
  \<open>c_sends\<close> what \<^verbatim>\<open>send\<close> will, \<open>c_dials\<close> what the next calls of \<^verbatim>\<open>connect\<close> will find (no
  address answers, or a socket with its future), and \<open>c_out\<close> the bytes handed to the current
  socket. A call whose \<^verbatim>\<open>poll\<close> waits for ever is \<open>None\<close>. Out-parameters are returned; what a
  failed call leaves in them is never read, and is not modelled. Nested arrays recurse; the reader
  takes fuel, which is always enough.
\<close>

section \<open>Replies\<close>

datatype reply_type = TNil | TStatus | TError | TInteger | TBulk | TArray

datatype reply = Reply (rp_type: reply_type) (rp_str: string) (rp_integer: int) (rp_elements: "reply list")

definition isError :: "reply \<Rightarrow> bool" where
  "isError r \<longleftrightarrow> rp_type r = TError"

definition strtoll :: "string \<Rightarrow> int" where
  "strtoll s = (case scan_number s of None \<Rightarrow> 0
     | Some (neg, n) \<Rightarrow> if neg then max (- (2 ^ 63)) (- int n) else min (2 ^ 63 - 1) (int n))"

section \<open>The connection\<close>

text \<open>\<open>Bytes []\<close> is the end of the stream; \<open>Quiet\<close> is a pause longer than any finite timeout.\<close>

datatype net_event = Bytes string | Quiet | PollIntr | PollFail | RecvRetry | RecvFail

datatype send_event = Sent nat | SendIntr | SendFail

record conn =
  c_open :: bool
  c_rbuf :: string
  c_rpos :: nat
  c_in :: "net_event list"
  c_sends :: "send_event list"
  c_out :: string
  c_dials :: "net_event list option list"

definition close_conn :: "conn \<Rightarrow> conn" where
  "close_conn c = c\<lparr>c_open := False, c_rbuf := [], c_rpos := 0\<rparr>"

fun encode_args :: "string list \<Rightarrow> string" where
  "encode_args [] = []"
| "encode_args (a # as) = ''$'' @ show_nat (length a) @ crlf @ a @ crlf @ encode_args as"

definition encode :: "string list \<Rightarrow> string" where
  "encode args = ''*'' @ show_nat (length args) @ crlf @ encode_args args"

text \<open>\<^verbatim>\<open>writeAll\<close>: what is left to send against what \<^verbatim>\<open>send\<close> reports; when nothing more is
  announced the kernel takes everything.\<close>

fun send_loop :: "string \<Rightarrow> send_event list \<Rightarrow> bool \<times> string \<times> send_event list" where
  "send_loop data [] = (True, data, [])"
| "send_loop data (e # es) =
     (if data = [] then (True, [], e # es) else
      case e of
        SendIntr \<Rightarrow> send_loop data es
      | SendFail \<Rightarrow> (False, [], es)
      | Sent 0 \<Rightarrow> (False, [], es)
      | Sent n \<Rightarrow> (case send_loop (drop n data) es of (ok, out, es') \<Rightarrow> (ok, take n data @ out, es')))"

definition writeAll :: "string \<Rightarrow> conn \<Rightarrow> bool \<times> conn" where
  "writeAll data c = (case send_loop data (c_sends c) of (ok, out, es) \<Rightarrow>
     (ok, c\<lparr>c_sends := es, c_out := c_out c @ out\<rparr>))"

definition compact :: "conn \<Rightarrow> conn" where
  "compact c = (if c_rpos c > 4096 then c\<lparr>c_rbuf := drop (c_rpos c) (c_rbuf c), c_rpos := 0\<rparr> else c)"

text \<open>\<^verbatim>\<open>poll\<close> and \<^verbatim>\<open>recv\<close> of at most 8192 bytes.\<close>

fun receive :: "int \<Rightarrow> net_event list \<Rightarrow> conn \<Rightarrow> (bool \<times> conn) option" where
  "receive timeoutMs [] c = (if timeoutMs < 0 then None else Some (False, c\<lparr>c_in := []\<rparr>))"
| "receive timeoutMs (Quiet # es) c =
     (if timeoutMs < 0 then receive timeoutMs es c else Some (False, c\<lparr>c_in := es\<rparr>))"
| "receive timeoutMs (PollIntr # es) c = Some (False, c\<lparr>c_in := es\<rparr>)"
| "receive timeoutMs (PollFail # es) c = Some (False, close_conn (c\<lparr>c_in := es\<rparr>))"
| "receive timeoutMs (RecvRetry # es) c = Some (False, c\<lparr>c_in := es\<rparr>)"
| "receive timeoutMs (RecvFail # es) c = Some (False, close_conn (c\<lparr>c_in := es\<rparr>))"
| "receive timeoutMs (Bytes s # es) c =
     (if s = [] then Some (False, close_conn (c\<lparr>c_in := es\<rparr>))
      else Some (True, c\<lparr>c_rbuf := c_rbuf c @ take 8192 s,
                 c_in := (if drop 8192 s = [] then es else Bytes (drop 8192 s) # es)\<rparr>))"

definition fillBuffer :: "int \<Rightarrow> conn \<Rightarrow> (bool \<times> conn) option" where
  "fillBuffer timeoutMs c = receive timeoutMs (c_in c) (compact c)"

text \<open>Each call takes something from the environment, so the reading loops end.\<close>

fun event_size :: "net_event \<Rightarrow> nat" where
  "event_size (Bytes s) = Suc (length s)"
| "event_size _ = 1"

definition todo :: "conn \<Rightarrow> nat" where
  "todo c = sum_list (map event_size (c_in c))"

lemma receive_todo: "receive t es c = Some (True, c') \<Longrightarrow> todo c' < sum_list (map event_size es)"
  by (induction t es c rule: receive.induct) (auto simp: todo_def split: if_splits)

lemma fillBuffer_todo: "fillBuffer t c = Some (True, c') \<Longrightarrow> todo c' < todo c"
  using receive_todo by (simp add: fillBuffer_def todo_def)

function readLine :: "int \<Rightarrow> conn \<Rightarrow> (string option \<times> conn) option" where
  "readLine timeoutMs c =
     (case find_from crlf (c_rbuf c) (c_rpos c) of
        Some nl \<Rightarrow> Some (Some (substr (c_rbuf c) (c_rpos c) (nl - c_rpos c)), c\<lparr>c_rpos := nl + 2\<rparr>)
      | None \<Rightarrow> (case fillBuffer timeoutMs c of
            None \<Rightarrow> None
          | Some (False, c') \<Rightarrow> Some (None, c')
          | Some (True, c') \<Rightarrow> readLine timeoutMs c'))"
  by auto
termination by (relation "measure (\<lambda>(t, c). todo c)") (auto dest: fillBuffer_todo)

function readN :: "nat \<Rightarrow> int \<Rightarrow> conn \<Rightarrow> (string option \<times> conn) option" where
  "readN n timeoutMs c =
     (if length (c_rbuf c) - c_rpos c < n + 2
      then (case fillBuffer timeoutMs c of
            None \<Rightarrow> None
          | Some (False, c') \<Rightarrow> Some (None, c')
          | Some (True, c') \<Rightarrow> readN n timeoutMs c')
      else Some (Some (substr (c_rbuf c) (c_rpos c) n), c\<lparr>c_rpos := c_rpos c + n + 2\<rparr>))"
  by auto
termination by (relation "measure (\<lambda>(n, t, c). todo c)") (auto dest: fillBuffer_todo)

declare readLine.simps [simp del] readN.simps [simp del]

lemma readLine_here: "find_from crlf (c_rbuf c) (c_rpos c) = Some nl \<Longrightarrow>
    readLine t c = Some (Some (substr (c_rbuf c) (c_rpos c) (nl - c_rpos c)), c\<lparr>c_rpos := nl + 2\<rparr>)"
  by (subst readLine.simps) simp

lemma readLine_more: "find_from crlf (c_rbuf c) (c_rpos c) = None \<Longrightarrow> fillBuffer t c = Some (b, c') \<Longrightarrow>
    readLine t c = (if b then readLine t c' else Some (None, c'))"
  by (subst readLine.simps) simp

text \<open>The element loop runs the reader \<open>p\<close> once per element.\<close>

fun elements_loop :: "nat \<Rightarrow> (conn \<Rightarrow> (reply option \<times> conn) option) \<Rightarrow> conn \<Rightarrow>
    (reply list option \<times> conn) option" where
  "elements_loop 0 p c = Some (Some [], c)"
| "elements_loop (Suc n) p c = (case p c of
     None \<Rightarrow> None
   | Some (None, c') \<Rightarrow> Some (None, c')
   | Some (Some r, c') \<Rightarrow> (case elements_loop n p c' of
         None \<Rightarrow> None
       | Some (None, c'') \<Rightarrow> Some (None, c'')
       | Some (Some rs, c'') \<Rightarrow> Some (Some (r # rs), c'')))"

fun parseReply :: "nat \<Rightarrow> int \<Rightarrow> conn \<Rightarrow> (reply option \<times> conn) option" where
  "parseReply 0 timeoutMs c = None"
| "parseReply (Suc d) timeoutMs c = (case readLine timeoutMs c of
     None \<Rightarrow> None
   | Some (None, c) \<Rightarrow> Some (None, c)
   | Some (Some [], c) \<Rightarrow> Some (None, c)
   | Some (Some (ty # rest), c) \<Rightarrow>
       if ty = CHR ''+'' then Some (Some (Reply TStatus rest 0 []), c)
       else if ty = CHR ''-'' then Some (Some (Reply TError rest 0 []), c)
       else if ty = CHR '':'' then Some (Some (Reply TInteger [] (strtoll rest) []), c)
       else if ty = CHR ''$'' then
         (let len = strtoll rest in
          if len < 0 then Some (Some (Reply TNil [] 0 []), c)
          else (case readN (nat len) timeoutMs c of
              None \<Rightarrow> None
            | Some (None, c) \<Rightarrow> Some (None, c)
            | Some (Some s, c) \<Rightarrow> Some (Some (Reply TBulk s 0 []), c)))
       else if ty = CHR ''*'' then
         (let n = strtoll rest in
          if n < 0 then Some (Some (Reply TNil [] 0 []), c)
          else (case elements_loop (nat n) (parseReply d timeoutMs) c of
              None \<Rightarrow> None
            | Some (None, c) \<Rightarrow> Some (None, c)
            | Some (Some rs, c) \<Rightarrow> Some (Some (Reply TArray [] 0 rs), c)))
       else Some (None, c))"

definition error_reply :: "string \<Rightarrow> reply" where
  "error_reply s = Reply TError s 0 []"

text \<open>The bytes the connection holds or will bring. Every level of nesting takes some of them, so one
  more than their number is enough fuel (\<open>parse_enough\<close>).\<close>

fun event_bytes :: "net_event \<Rightarrow> string" where
  "event_bytes (Bytes s) = s"
| "event_bytes _ = []"

definition unread :: "conn \<Rightarrow> string" where
  "unread c = drop (c_rpos c) (c_rbuf c) @ concat (map event_bytes (c_in c))"

definition parse_reply :: "int \<Rightarrow> conn \<Rightarrow> (reply option \<times> conn) option" where
  "parse_reply timeoutMs c = parseReply (Suc (length (unread c))) timeoutMs c"

definition command :: "string list \<Rightarrow> conn \<Rightarrow> (reply \<times> conn) option" where
  "command args c =
     (if \<not> c_open c then Some (error_reply ''not connected'', c)
      else (case writeAll (encode args) c of
          (False, c) \<Rightarrow> Some (error_reply ''write failed'', close_conn c)
        | (True, c) \<Rightarrow> (case parse_reply (- 1) c of
              None \<Rightarrow> None
            | Some (None, c) \<Rightarrow> Some (error_reply ''read failed'', c)
            | Some (Some r, c) \<Rightarrow> Some (r, c))))"

fun skip_replies :: "nat \<Rightarrow> conn \<Rightarrow> (bool \<times> conn) option" where
  "skip_replies 0 c = Some (True, c)"
| "skip_replies (Suc n) c = (case parse_reply 5000 c of
     None \<Rightarrow> None
   | Some (None, c) \<Rightarrow> Some (False, c)
   | Some (Some r, c) \<Rightarrow> skip_replies n c)"

definition subscribe :: "string list \<Rightarrow> conn \<Rightarrow> (bool \<times> conn) option" where
  "subscribe channels c =
     (if \<not> c_open c then Some (False, c)
      else (case writeAll (encode (''SUBSCRIBE'' # channels)) c of
          (False, c) \<Rightarrow> Some (False, close_conn c)
        | (True, c) \<Rightarrow> skip_replies (length channels) c))"

definition readReply :: "int \<Rightarrow> conn \<Rightarrow> (reply option \<times> conn) option" where
  "readReply timeoutMs c = (if \<not> c_open c then Some (None, c) else parse_reply timeoutMs c)"

definition connect :: "string \<Rightarrow> conn \<Rightarrow> (bool \<times> conn) option" where
  "connect password c =
     (let c = close_conn c in
      case c_dials c of
        [] \<Rightarrow> Some (False, c)
      | None # ds \<Rightarrow> Some (False, c\<lparr>c_dials := ds\<rparr>)
      | Some es # ds \<Rightarrow>
          (let c = c\<lparr>c_open := True, c_in := es, c_out := [], c_dials := ds\<rparr> in
           if password = [] then Some (True, c)
           else (case command [''AUTH'', password] c of
               None \<Rightarrow> None
             | Some (r, c) \<Rightarrow> if isError r then Some (False, close_conn c) else Some (True, c))))"

section \<open>What the peer sends\<close>

text \<open>The RESP form of a reply, and the replies that have one.\<close>

fun wire :: "reply \<Rightarrow> string" where
  "wire (Reply TStatus s i es) = CHR ''+'' # s @ crlf"
| "wire (Reply TError s i es) = CHR ''-'' # s @ crlf"
| "wire (Reply TInteger s i es) = CHR '':'' # show_int i @ crlf"
| "wire (Reply TNil s i es) = ''$-1'' @ crlf"
| "wire (Reply TBulk s i es) = CHR ''$'' # show_nat (length s) @ crlf @ s @ crlf"
| "wire (Reply TArray s i es) = CHR ''*'' # show_nat (length es) @ crlf @ concat (map wire es)"

fun reply_ok :: "reply \<Rightarrow> bool" where
  "reply_ok (Reply TStatus s i es) = (CR \<notin> set s \<and> i = 0 \<and> es = [])"
| "reply_ok (Reply TError s i es) = (CR \<notin> set s \<and> i = 0 \<and> es = [])"
| "reply_ok (Reply TInteger s i es) = (s = [] \<and> - (2 ^ 63) \<le> i \<and> i < 2 ^ 63 \<and> es = [])"
| "reply_ok (Reply TNil s i es) = (s = [] \<and> i = 0 \<and> es = [])"
| "reply_ok (Reply TBulk s i es) = (length s < 2 ^ 63 \<and> i = 0 \<and> es = [])"
| "reply_ok (Reply TArray s i es) = (s = [] \<and> i = 0 \<and> length es < 2 ^ 63 \<and> list_all reply_ok es)"

fun depth :: "reply \<Rightarrow> nat" where
  "depth (Reply ty s i es) = Suc (fold max (map depth es) 0)"

text \<open>The connection will deliver the bytes \<open>s\<close>, in pieces of any sizes, before anything else happens
  on it.\<close>

definition pieces :: "net_event list \<Rightarrow> bool" where
  "pieces es \<longleftrightarrow> (\<forall>e \<in> set es. \<exists>b. b \<noteq> [] \<and> e = Bytes b)"

lemma pieces_simps [simp]:
  "pieces []" "pieces (e # es) \<longleftrightarrow> (\<exists>b. b \<noteq> [] \<and> e = Bytes b) \<and> pieces es" "pieces (map Bytes bs) \<longleftrightarrow> [] \<notin> set bs"
  by (auto simp: pieces_def)

definition delivers :: "conn \<Rightarrow> string \<Rightarrow> bool" where
  "delivers c s \<longleftrightarrow> c_rpos c \<le> length (c_rbuf c) \<and>
     (\<exists>es later. c_in c = es @ later \<and> pieces es \<and> drop (c_rpos c) (c_rbuf c) @ concat (map event_bytes es) = s)"

lemma deliversI:
  "c_in c = es @ later \<Longrightarrow> pieces es \<Longrightarrow> c_rpos c \<le> length (c_rbuf c) \<Longrightarrow>
     drop (c_rpos c) (c_rbuf c) @ concat (map event_bytes es) = s \<Longrightarrow> delivers c s"
  unfolding delivers_def by blast

lemma deliversE:
  assumes "delivers c s"
  obtains es later where "c_in c = es @ later" "pieces es" "c_rpos c \<le> length (c_rbuf c)"
    "drop (c_rpos c) (c_rbuf c) @ concat (map event_bytes es) = s"
  using assms unfolding delivers_def by blast

lemma delivers_now: "pieces (c_in c) \<Longrightarrow> c_rpos c \<le> length (c_rbuf c) \<Longrightarrow> unread c = s \<Longrightarrow> delivers c s"
  by (rule deliversI [where later = "[]"]) (simp_all add: unread_def)

lemma delivers_unread: "delivers c s \<Longrightarrow> length s \<le> length (unread c)"
  by (auto simp: delivers_def unread_def)

lemma delivers_frame [simp]:
  "delivers (c\<lparr>c_sends := ss\<rparr>) s = delivers c s" "delivers (c\<lparr>c_out := out\<rparr>) s = delivers c s"
  by (simp_all add: delivers_def)

section \<open>The reader ends\<close>

lemma compact_unread [simp]: "drop (c_rpos (compact c)) (c_rbuf (compact c)) = drop (c_rpos c) (c_rbuf c)"
  "c_in (compact c) = c_in c"
  by (simp_all add: compact_def)

lemma close_unread: "length (unread (close_conn c)) \<le> length (unread c)"
  by (simp add: unread_def close_conn_def)

lemma receive_unread:
  "receive t es c = Some (b, c') \<Longrightarrow> length (unread c') \<le> length (unread (c\<lparr>c_in := es\<rparr>))"
proof (induction t es c rule: receive.induct)
  case (7 t s es c)
  have "length (take 8192 s) + length (drop 8192 s) = length s" by simp
  with 7 show ?case by (auto simp: unread_def close_conn_def split: if_splits)
qed (auto simp: unread_def close_conn_def split: if_splits)

lemma fillBuffer_unread: "fillBuffer t c = Some (b, c') \<Longrightarrow> length (unread c') \<le> length (unread c)"
proof -
  assume "fillBuffer t c = Some (b, c')"
  then have "length (unread c') \<le> length (unread ((compact c)\<lparr>c_in := c_in c\<rparr>))"
    unfolding fillBuffer_def by (rule receive_unread)
  then show ?thesis by (simp add: unread_def)
qed

text \<open>A line takes its end with it, a string of \<open>n\<close> bytes the two behind it.\<close>

lemma readLine_unread:
  "readLine t c = Some (l, c') \<Longrightarrow> length (unread c') + (if l = None then 0 else 2) \<le> length (unread c)"
proof (induction t c rule: readLine.induct)
  case (1 t c)
  show ?case
  proof (cases "find_from crlf (c_rbuf c) (c_rpos c)")
    case (Some nl)
    have "c_rpos c \<le> nl" "nl + 2 \<le> length (c_rbuf c)"
      using find_from_bounds [OF Some] by (auto simp: crlf_def)
    with Some 1(2) show ?thesis by (auto simp: readLine_here unread_def)
  next
    case None
    show ?thesis
    proof (cases "fillBuffer t c")
      case None': None
      with None 1(2) show ?thesis by (subst (asm) readLine.simps) simp
    next
      case (Some bc)
      then obtain b c1 where f: "fillBuffer t c = Some (b, c1)" by (cases bc) simp
      note less = fillBuffer_unread [OF f]
      show ?thesis
      proof (cases b)
        case True
        from 1(1) [OF None f [unfolded True] refl] 1(2) less show ?thesis
          using readLine_more [OF None f] True by fastforce
      next
        case False
        with 1(2) less show ?thesis using readLine_more [OF None f] by auto
      qed
    qed
  qed
qed

lemma readN_unread: "readN n t c = Some (s, c') \<Longrightarrow> length (unread c') \<le> length (unread c)"
proof (induction n t c rule: readN.induct)
  case (1 n t c)
  show ?case
  proof (cases "length (c_rbuf c) - c_rpos c < n + 2")
    case True
    with 1(2) obtain b c1 where f: "fillBuffer t c = Some (b, c1)" by (subst (asm) readN.simps) (auto split: option.splits)
    show ?thesis
      using 1(1) [OF True f refl] 1(2) True f fillBuffer_unread [OF f]
      by (subst (asm) readN.simps) (auto split: bool.splits)
  next
    case False
    with 1(2) show ?thesis by (subst (asm) readN.simps) (auto simp: unread_def)
  qed
qed

lemma elements_unread:
  assumes "\<And>c r c'. p c = Some (r, c') \<Longrightarrow> length (unread c') \<le> length (unread c)"
  shows "elements_loop n p c = Some (r, c') \<Longrightarrow> length (unread c') \<le> length (unread c)"
proof (induction n arbitrary: c r)
  case (Suc n)
  then obtain x c1 where p: "p c = Some (x, c1)" by (auto split: option.splits)
  note le = assms [OF p]
  show ?case
  proof (cases x)
    case None
    with p le Suc.prems show ?thesis by simp
  next
    case (Some y)
    with p Suc.prems obtain ys where e: "elements_loop n p c1 = Some (ys, c')" by (auto split: option.splits)
    from Suc.IH [OF e] le show ?thesis by simp
  qed
qed simp

lemma parse_unread: "parseReply d t c = Some (r, c') \<Longrightarrow> length (unread c') \<le> length (unread c)"
proof (induction d arbitrary: c r c')
  case (Suc d)
  then obtain l c1 where l: "readLine t c = Some (l, c1)" by (auto split: option.splits)
  have le: "length (unread c1) \<le> length (unread c)" using readLine_unread [OF l] by simp
  have readN: "length (unread c2) \<le> length (unread c)" if "readN n t c1 = Some (s, c2)" for n s c2
    using readN_unread [OF that] le by simp
  have elems: "length (unread c2) \<le> length (unread c)"
    if "elements_loop n (parseReply d t) c1 = Some (s, c2)" for n s c2
    using elements_unread [where p = "parseReply d t", OF _ that] Suc.IH le by fastforce
  show ?case
    using Suc.prems l le readN elems
    by (auto simp: Let_def split: option.splits list.splits if_splits prod.splits)
qed simp

text \<open>More fuel than bytes changes nothing, and a finite timeout always gives a result.\<close>

lemma elements_cong:
  assumes "\<And>c'. length (unread c') \<le> length (unread c) \<Longrightarrow> p c' = q c'"
    and "\<And>c r c'. p c = Some (r, c') \<Longrightarrow> length (unread c') \<le> length (unread c)"
  shows "elements_loop n p c = elements_loop n q c"
  using assms(1)
proof (induction n arbitrary: c)
  case (Suc n)
  have "elements_loop n p c1 = elements_loop n q c1" if "p c = Some (r, c1)" for r c1
    using Suc assms(2) [OF that] by (intro Suc.IH) auto
  with Suc.prems [OF order_refl] show ?case by (auto split: option.splits)
qed simp

lemma parse_enough:
  "length (unread c) < d \<Longrightarrow> length (unread c) < d' \<Longrightarrow> parseReply d t c = parseReply d' t c"
proof (induction d arbitrary: c d')
  case (Suc d)
  obtain e where d': "d' = Suc e" using Suc.prems(2) by (cases d') auto
  have "elements_loop n (parseReply d t) c1 = elements_loop n (parseReply e t) c1"
    if "readLine t c = Some (Some l, c1)" for n l c1
  proof (rule elements_cong)
    fix c' assume "length (unread c') \<le> length (unread c1)"
    then show "parseReply d t c' = parseReply e t c'"
      using readLine_unread [OF that] Suc.prems d' by (intro Suc.IH) auto
  qed (rule parse_unread)
  then show ?case by (auto simp: d' Let_def split: option.split list.split)
qed simp

text \<open>A connection whose peer breaks it in the end: the last thing that happens on it closes it.\<close>

definition dies :: "net_event list \<Rightarrow> bool" where
  "dies es \<longleftrightarrow> es \<noteq> [] \<and> last es \<in> {PollFail, RecvFail, Bytes []}"

lemma dies_Cons [simp]: "dies (e # es) \<longleftrightarrow> (if es = [] then e \<in> {PollFail, RecvFail, Bytes []} else dies es)"
  by (simp add: dies_def)

definition live :: "bool \<Rightarrow> conn \<Rightarrow> bool" where
  "live b c \<longleftrightarrow> (c_open c \<longrightarrow> b \<or> dies (c_in c))"

lemma live_close [simp]: "live b (close_conn c)"
  by (simp add: live_def close_conn_def)

definition ends_well :: "bool \<Rightarrow> conn \<Rightarrow> ('a option \<times> conn) option \<Rightarrow> bool" where
  "ends_well b c res \<longleftrightarrow> (\<exists>r c'. res = Some (r, c') \<and> live b c' \<and> (r \<noteq> None \<longrightarrow> c_open c') \<and> c_dials c' = c_dials c)"

lemma receive_live:
  "b \<longrightarrow> 0 \<le> t \<Longrightarrow> b \<or> dies es \<Longrightarrow> c_open c \<Longrightarrow>
     \<exists>ok c'. receive t es c = Some (ok, c') \<and> live b c' \<and> (ok \<longrightarrow> c_open c') \<and> c_dials c' = c_dials c"
  by (induction t es c rule: receive.induct)
    (auto simp: live_def close_conn_def dies_def split: if_splits)

lemma compact_frame [simp]: "c_open (compact c) = c_open c" "c_dials (compact c) = c_dials c"
  by (simp_all add: compact_def)

lemma fillBuffer_live:
  assumes "b \<longrightarrow> 0 \<le> t" "c_open c" "live b c"
  shows "\<exists>ok c'. fillBuffer t c = Some (ok, c') \<and> live b c' \<and> (ok \<longrightarrow> c_open c') \<and> c_dials c' = c_dials c"
  using receive_live [of b t "c_in c" "compact c"] assms
  by (simp add: fillBuffer_def live_def)

lemma readLine_live: "b \<longrightarrow> 0 \<le> t \<Longrightarrow> c_open c \<Longrightarrow> live b c \<Longrightarrow> ends_well b c (readLine t c)"
proof (induction t c rule: readLine.induct)
  case (1 t c)
  show ?case
  proof (cases "find_from crlf (c_rbuf c) (c_rpos c)")
    case (Some nl)
    with 1(3,4) show ?thesis by (simp add: readLine_here ends_well_def live_def)
  next
    case None
    obtain ok c1 where f: "fillBuffer t c = Some (ok, c1)" "live b c1" "ok \<longrightarrow> c_open c1" "c_dials c1 = c_dials c"
      using fillBuffer_live [OF 1(2-4)] by blast
    show ?thesis
    proof (cases ok)
      case True
      with 1(1) [OF None f(1) refl] 1(2) f show ?thesis
        by (simp add: readLine_more [OF None f(1)] ends_well_def)
    qed (use f in \<open>simp add: readLine_more [OF None f(1)] ends_well_def\<close>)
  qed
qed

lemma readN_live: "b \<longrightarrow> 0 \<le> t \<Longrightarrow> c_open c \<Longrightarrow> live b c \<Longrightarrow> ends_well b c (readN n t c)"
proof (induction n t c rule: readN.induct)
  case (1 n t c)
  show ?case
  proof (cases "length (c_rbuf c) - c_rpos c < n + 2")
    case True
    obtain ok c1 where f: "fillBuffer t c = Some (ok, c1)" "live b c1" "ok \<longrightarrow> c_open c1" "c_dials c1 = c_dials c"
      using fillBuffer_live [OF 1(2-4)] by blast
    show ?thesis
    proof (cases ok)
      case True': True
      with 1(1) [OF True f(1) refl] 1(2) True f show ?thesis
        by (subst readN.simps) (simp add: ends_well_def)
    qed (use True f in \<open>subst readN.simps, simp add: ends_well_def\<close>)
  next
    case False
    with 1(3,4) show ?thesis by (subst readN.simps) (simp add: ends_well_def live_def)
  qed
qed

lemma elements_live:
  assumes "\<And>c'. length (unread c') \<le> length (unread c) \<Longrightarrow> c_open c' \<Longrightarrow> live b c' \<Longrightarrow> ends_well b c' (p c')"
    and "\<And>c r c'. p c = Some (r, c') \<Longrightarrow> length (unread c') \<le> length (unread c)"
  shows "c_open c \<Longrightarrow> live b c \<Longrightarrow> ends_well b c (elements_loop n p c)"
  using assms(1)
proof (induction n arbitrary: c)
  case (Suc n)
  from Suc.prems(3) [OF order_refl Suc.prems(1,2)] obtain r c1
    where p: "p c = Some (r, c1)" "live b c1" "r \<noteq> None \<longrightarrow> c_open c1" "c_dials c1 = c_dials c"
    by (auto simp: ends_well_def)
  show ?case
  proof (cases r)
    case (Some x)
    have "ends_well b c1 (elements_loop n p c1)"
      using p Some Suc.prems(3) assms(2) [OF p(1)] by (intro Suc.IH) auto
    with p Some show ?thesis by (auto simp: ends_well_def split: option.split)
  qed (use p in \<open>simp add: ends_well_def\<close>)
qed (simp add: ends_well_def)

lemma parse_live:
  "length (unread c) < d \<Longrightarrow> b \<longrightarrow> 0 \<le> t \<Longrightarrow> c_open c \<Longrightarrow> live b c \<Longrightarrow> ends_well b c (parseReply d t c)"
proof (induction d arbitrary: c)
  case (Suc d)
  from readLine_live [OF Suc.prems(2-4)] obtain l c1
    where l: "readLine t c = Some (l, c1)" "live b c1" "l \<noteq> None \<longrightarrow> c_open c1" "c_dials c1 = c_dials c"
    by (auto simp: ends_well_def)
  show ?case
  proof (cases l)
    case (Some x)
    have o1: "c_open c1" using l(3) Some by simp
    have elems: "ends_well b c1 (elements_loop n (parseReply d t) c1)" for n
    proof (rule elements_live [OF _ _ o1 l(2)])
      fix c' assume "length (unread c') \<le> length (unread c1)" "c_open c'" "live b c'"
      then show "ends_well b c' (parseReply d t c')"
        using readLine_unread [OF l(1)] Some Suc.prems(1,2) by (intro Suc.IH) auto
    qed (rule parse_unread)
    show ?thesis
    proof (cases x)
      case Nil
      with l Some o1 show ?thesis by (simp add: ends_well_def)
    next
      case (Cons ty rest)
      let ?n = "nat (strtoll rest)"
      obtain s c2 where r: "readN ?n t c1 = Some (s, c2)" "live b c2" "s \<noteq> None \<longrightarrow> c_open c2" "c_dials c2 = c_dials c1"
        using readN_live [OF Suc.prems(2) o1 l(2), of ?n] by (auto simp: ends_well_def)
      obtain rs c3 where e: "elements_loop ?n (parseReply d t) c1 = Some (rs, c3)" "live b c3"
        "rs \<noteq> None \<longrightarrow> c_open c3" "c_dials c3 = c_dials c1"
        using elems [of ?n] by (auto simp: ends_well_def)
      show ?thesis
        using l Some Cons o1 r e by (cases s; cases rs; simp add: ends_well_def Let_def)
    qed
  qed (use l in \<open>simp add: ends_well_def\<close>)
qed simp

lemma parse_reply_live: "b \<longrightarrow> 0 \<le> t \<Longrightarrow> c_open c \<Longrightarrow> live b c \<Longrightarrow> ends_well b c (parse_reply t c)"
  unfolding parse_reply_def by (rule parse_live) simp_all

section \<open>Reading what is delivered\<close>

lemma compact_pos: "c_rpos c \<le> length (c_rbuf c) \<Longrightarrow> c_rpos (compact c) \<le> length (c_rbuf (compact c))"
  by (simp add: compact_def)

lemma fillBuffer_delivers:
  assumes "delivers c s" "length (drop (c_rpos c) (c_rbuf c)) < length s"
  shows "\<exists>c'. fillBuffer t c = Some (True, c') \<and> delivers c' s"
proof -
  from assms(1) obtain es later where d: "c_in c = es @ later" "pieces es" "c_rpos c \<le> length (c_rbuf c)"
    "drop (c_rpos c) (c_rbuf c) @ concat (map event_bytes es) = s" by (rule deliversE)
  with assms(2) obtain b es' where e: "es = Bytes b # es'" "b \<noteq> []" "pieces es'" by (cases es) auto
  let ?es = "(if drop 8192 b = [] then es' else Bytes (drop 8192 b) # es')"
  let ?c = "(compact c)\<lparr>c_rbuf := c_rbuf (compact c) @ take 8192 b, c_in := ?es @ later\<rparr>"
  have "fillBuffer t c = Some (True, ?c)" using d(1) e(1,2) by (simp add: fillBuffer_def)
  moreover have "delivers ?c s"
  proof (rule deliversI [of _ ?es later])
    have "take 8192 b @ drop 8192 b @ x = b @ x" for x :: string
      by (simp only: append_assoc [symmetric] append_take_drop_id)
    then show "drop (c_rpos ?c) (c_rbuf ?c) @ concat (map event_bytes ?es) = s"
      using d(3,4) compact_pos [OF d(3)] by (auto simp: e(1))
  qed (use e(3) compact_pos [OF d(3)] in auto)
  ultimately show ?thesis by blast
qed

lemma split_prefix:
  assumes "b @ x = p @ r" "length p \<le> length b"
  shows "b = p @ drop (length p) b" "drop (length p) b @ x = r"
proof -
  from assms have "take (length p) b = p"
    by (metis append_eq_conv_conj take_append take_all_iff diff_is_0_eq take0 append_Nil2)
  then show "b = p @ drop (length p) b" by (metis append_take_drop_id)
  from assms show "drop (length p) b @ x = r"
    by (metis append_eq_conv_conj diff_is_0_eq drop0 drop_append)
qed

lemma find_line:
  assumes "CR \<notin> set l"
  shows "find_sub crlf (l @ crlf @ r) = Some (length l)"
  using assms find_sub_skip [of crlf l "crlf @ r"] find_sub_here [of crlf r] by (auto simp: crlf_def)

lemma find_line_prefix:
  assumes "b @ x = l @ crlf @ r" "CR \<notin> set l"
  shows "find_sub crlf b = (if length l + 2 \<le> length b then Some (length l) else None)"
proof (cases "length l + 2 \<le> length b")
  case True
  then have "b = (l @ crlf) @ drop (length (l @ crlf)) b"
    using split_prefix(1) [of b x "l @ crlf" r] assms(1) by (simp add: crlf_def)
  with find_line [OF assms(2)] True show ?thesis by (metis append_assoc)
next
  case False
  have "find_sub crlf b = None"
  proof (rule ccontr)
    assume "find_sub crlf b \<noteq> None"
    then obtain k where k: "find_sub crlf b = Some k" by auto
    then have kb: "k + 2 \<le> length b" and "prefix crlf (drop k b)"
      using find_sub_le [OF k] find_sub_at [OF k] by (simp_all add: crlf_def)
    then have "prefix crlf (drop k (b @ x))" by (auto simp: prefix_def)
    moreover have "k < length l" using kb False by simp
    ultimately show False
      using find_sub_least [OF find_line [OF assms(2)], of k r] assms(1) by simp
  qed
  with False show ?thesis by simp
qed

lemma readLine_delivers:
  "delivers c (l @ crlf @ r) \<Longrightarrow> CR \<notin> set l \<Longrightarrow>
     \<exists>c'. readLine t c = Some (Some l, c') \<and> delivers c' r"
proof (induction t c rule: readLine.induct)
  case (1 t c)
  let ?b = "drop (c_rpos c) (c_rbuf c)"
  from "1.prems"(1) obtain es later where u: "?b @ concat (map event_bytes es) = l @ crlf @ r"
    and pos: "c_rpos c \<le> length (c_rbuf c)" and es: "c_in c = es @ later" "pieces es" by (elim deliversE)
  note find = find_line_prefix [OF u "1.prems"(2)]
  show ?case
  proof (cases "length l + 2 \<le> length ?b")
    case True
    then have f: "find_from crlf (c_rbuf c) (c_rpos c) = Some (c_rpos c + length l)"
      using find pos by (simp add: find_from_def)
    have len: "length (l @ crlf) = length l + 2" by (simp add: crlf_def)
    have b: "?b = l @ crlf @ drop (length l + 2) ?b"
      using split_prefix(1) [of ?b _ "l @ crlf" r] u True by (simp only: len append_assoc)
    then have "take (length l) ?b = l" by (metis append_eq_conv_conj)
    moreover have "drop (length l + 2) ?b @ concat (map event_bytes es) = r"
      using split_prefix(2) [of ?b _ "l @ crlf" r] u True by (simp only: len append_assoc)
    ultimately show ?thesis
      using True pos es f
      by (subst readLine.simps) (auto simp: substr_def add.commute intro!: deliversI [of _ es later])
  next
    case False
    then have f: "find_from crlf (c_rbuf c) (c_rpos c) = None" using find by (simp add: find_from_def)
    have "length ?b < length (l @ crlf @ r)" using False by (simp add: crlf_def)
    then obtain c' where c': "fillBuffer t c = Some (True, c')" "delivers c' (l @ crlf @ r)"
      using fillBuffer_delivers [OF "1.prems"(1)] by blast
    from "1.IH" [OF f c'(1) refl _ c'(2) "1.prems"(2)] show ?thesis
      using f c'(1) by (subst readLine.simps) simp
  qed
qed

lemma readN_delivers:
  "delivers c (s @ e @ r) \<Longrightarrow> length e = 2 \<Longrightarrow>
     \<exists>c'. readN (length s) t c = Some (Some s, c') \<and> delivers c' r"
proof (induction "length s" t c rule: readN.induct)
  case (1 t c)
  let ?b = "drop (c_rpos c) (c_rbuf c)"
  from "1.prems"(1) obtain es later where u: "?b @ concat (map event_bytes es) = s @ e @ r"
    and pos: "c_rpos c \<le> length (c_rbuf c)" and es: "c_in c = es @ later" "pieces es" by (elim deliversE)
  show ?case
  proof (cases "length (c_rbuf c) - c_rpos c < length s + 2")
    case False
    then have big: "length s + 2 \<le> length ?b" by simp
    have len: "length (s @ e) = length s + 2" using "1.prems"(2) by simp
    have b: "?b = s @ e @ drop (length s + 2) ?b"
      using split_prefix(1) [of ?b _ "s @ e" r] u big by (simp only: len append_assoc)
    then have "take (length s) ?b = s" by (metis append_eq_conv_conj)
    moreover have "drop (length s + 2) ?b @ concat (map event_bytes es) = r"
      using split_prefix(2) [of ?b _ "s @ e" r] u big by (simp only: len append_assoc)
    ultimately show ?thesis
      using False pos es
      by (subst readN.simps) (auto simp: substr_def add.commute intro!: deliversI [of _ es later])
  next
    case True
    have "length ?b < length (s @ e @ r)" using True "1.prems"(2) by simp
    then obtain c' where c': "fillBuffer t c = Some (True, c')" "delivers c' (s @ e @ r)"
      using fillBuffer_delivers [OF "1.prems"(1)] by blast
    from "1.hyps" [OF True c'(1) refl _ c'(2) "1.prems"(2)] show ?thesis
      using True c'(1) by (subst readN.simps) simp
  qed
qed

section \<open>Reading a reply\<close>

lemma strtoll_show_nat: "n < 2 ^ 63 \<Longrightarrow> strtoll (show_nat n) = int n"
  by (simp add: strtoll_def)

lemma scan_minus: "scan_number (CHR ''-'' # show_nat n) = Some (True, n)"
proof -
  have "takeWhile isdigit (show_nat n) = show_nat n"
    using show_nat_digits [of n] by (simp add: takeWhile_eq_all_conv)
  moreover have "\<not> isspace CHR ''-''" by code_simp
  ultimately show ?thesis by (simp add: scan_number_def Let_def del: takeWhile_eq_all_conv)
qed

lemma CR_neq_types: "CR \<noteq> CHR ''+''" "CR \<noteq> CHR ''-''" "CR \<noteq> CHR '':''" "CR \<noteq> CHR ''$''" "CR \<noteq> CHR ''*''"
  "CR \<noteq> CHR ''1''"
  by code_simp+

lemma strtoll_show_int: "- (2 ^ 63) \<le> i \<Longrightarrow> i < 2 ^ 63 \<Longrightarrow> strtoll (show_int i) = i"
  using strtoll_show_nat [of "nat i"] by (auto simp: show_int_def strtoll_def scan_minus)

lemma CR_not_in_show_int [simp]: "CR \<notin> set (show_int i)"
  by (auto simp: show_int_def CR_neq_types)

lemma depth_elements:
  assumes "depth (Reply ty s i es) \<le> Suc d" "e \<in> set es"
  shows "depth e \<le> d"
proof -
  have "fold max (map depth es) 0 = Max (set (0 # map depth es))" by (simp only: Max.set_eq_fold)
  with assms show ?thesis by simp
qed

lemma elements_delivers:
  assumes "\<And>r c rest. r \<in> set rs \<Longrightarrow> delivers c (wire r @ rest) \<Longrightarrow>
      \<exists>c'. p c = Some (Some r, c') \<and> delivers c' rest"
  shows "delivers c (concat (map wire rs) @ rest) \<Longrightarrow>
    \<exists>c'. elements_loop (length rs) p c = Some (Some rs, c') \<and> delivers c' rest"
  using assms
proof (induction rs arbitrary: c)
  case Nil
  then show ?case by simp
next
  case (Cons r rs)
  from Cons.prems(1) have "delivers c (wire r @ concat (map wire rs) @ rest)" by simp
  then obtain c1 where c1: "p c = Some (Some r, c1)" "delivers c1 (concat (map wire rs) @ rest)"
    using Cons.prems(2) [of r c "concat (map wire rs) @ rest"] by auto
  then obtain c2 where "elements_loop (length rs) p c1 = Some (Some rs, c2)" "delivers c2 rest"
    using Cons.IH [OF c1(2)] Cons.prems(2) by auto
  with c1(1) show ?case by simp
qed

lemma parse_wire:
  "reply_ok r \<Longrightarrow> depth r \<le> d \<Longrightarrow> delivers c (wire r @ rest) \<Longrightarrow>
     \<exists>c'. parseReply d t c = Some (Some r, c') \<and> delivers c' rest"
proof (induction d arbitrary: r c rest)
  case 0
  then show ?case by (cases r) simp
next
  case (Suc d)
  obtain ty s i es where r: "r = Reply ty s i es" by (cases r)
  have line: "\<exists>c'. readLine t c = Some (Some (x # l), c') \<and> delivers c' q"
    if "wire r @ rest = (x # l) @ crlf @ q" "x \<noteq> CR" "CR \<notin> set l" for x l q
    using readLine_delivers [of c "x # l" q t] Suc.prems(3) that by auto
  show ?case
  proof (cases ty)
    case TNil
    with r line [of "CHR ''$''" "''-1''" rest] Suc.prems(1) CR_neq_types obtain c'
      where c': "readLine t c = Some (Some ''$-1'', c')" "delivers c' rest" by auto
    have "strtoll ''-1'' = -1" by code_simp
    with c' r TNil Suc.prems(1) show ?thesis by simp
  next
    case TStatus
    with r line [of "CHR ''+''" s rest] Suc.prems(1) CR_neq_types show ?thesis by auto
  next
    case TError
    with r line [of "CHR ''-''" s rest] Suc.prems(1) CR_neq_types show ?thesis by auto
  next
    case TInteger
    with r line [of "CHR '':''" "show_int i" rest] Suc.prems(1) CR_neq_types show ?thesis
      by (auto simp: strtoll_show_int)
  next
    case TBulk
    with r line [of "CHR ''$''" "show_nat (length s)" "s @ crlf @ rest"] CR_neq_types obtain c'
      where c': "readLine t c = Some (Some (CHR ''$'' # show_nat (length s)), c')"
        "delivers c' (s @ crlf @ rest)" by auto
    obtain c'' where "readN (length s) t c' = Some (Some s, c'')" "delivers c'' rest"
      using readN_delivers [OF c'(2)] by (auto simp: crlf_def)
    with c'(1) r TBulk Suc.prems(1) show ?thesis by (simp add: strtoll_show_nat)
  next
    case TArray
    with r line [of "CHR ''*''" "show_nat (length es)" "concat (map wire es) @ rest"] CR_neq_types obtain c'
      where c': "readLine t c = Some (Some (CHR ''*'' # show_nat (length es)), c')"
        "delivers c' (concat (map wire es) @ rest)" by auto
    have "\<exists>c2. parseReply d t c1 = Some (Some e, c2) \<and> delivers c2 q"
      if "e \<in> set es" "delivers c1 (wire e @ q)" for e c1 q
      using Suc.IH [OF _ _ that(2)] depth_elements [of ty s i es d e] that(1) Suc.prems(1,2) r TArray
      by (simp add: list_all_iff)
    then obtain c''
      where "elements_loop (length es) (parseReply d t) c' = Some (Some es, c'')" "delivers c'' rest"
      using elements_delivers [where p = "parseReply d t" and rs = es, OF _ c'(2)] by blast
    with c'(1) r TArray Suc.prems(1) show ?thesis by (simp add: strtoll_show_nat)
  qed
qed

lemma depth_wire: "reply_ok r \<Longrightarrow> depth r \<le> length (wire r)"
proof (induction r)
  case (Reply ty s i es)
  show ?case
  proof (cases "ty = TArray")
    case True
    have "depth e \<le> length (concat (map wire es))" if "e \<in> set es" for e
    proof -
      have "depth e \<le> length (wire e)" using Reply that True by (auto simp: list_all_iff)
      also have "\<dots> \<le> sum_list (map (length \<circ> wire) es)" using that by (intro member_le_sum_list) auto
      finally show ?thesis by (simp add: length_concat)
    qed
    moreover have "fold max (map depth es) 0 = Max (set (0 # map depth es))" by (simp only: Max.set_eq_fold)
    ultimately show ?thesis using True by (auto simp: crlf_def intro!: le_SucI trans_le_add2)
  next
    case False
    with Reply.prems show ?thesis by (cases ty) (auto simp: crlf_def)
  qed
qed

lemma parse_reply_wire:
  assumes "reply_ok r" "delivers c (wire r @ rest)"
  shows "\<exists>c'. parse_reply t c = Some (Some r, c') \<and> delivers c' rest"
  unfolding parse_reply_def
proof (rule parse_wire [OF assms(1) _ assms(2)])
  show "depth r \<le> Suc (length (unread c))" using depth_wire [OF assms(1)] delivers_unread [OF assms(2)] by simp
qed

section \<open>Properties\<close>

definition bulk :: "string \<Rightarrow> reply" where
  "bulk s = Reply TBulk s 0 []"

definition bulks :: "string list \<Rightarrow> reply" where
  "bulks args = Reply TArray [] 0 (map bulk args)"

lemma encode_args_wire: "encode_args args = concat (map wire (map bulk args))"
  by (induction args) (simp_all add: bulk_def)

lemma encode_wire: "encode args = wire (bulks args)"
  by (simp add: encode_def bulks_def encode_args_wire)

text \<open>C24: whatever pieces the network cuts it into, a reply is read as exactly that reply, for
  nested arrays, binary strings with line ends in them and null values alike, under any timeout,
  and what follows it stays unread; so replies never get mixed up on a connection that delivers.\<close>

theorem reply_roundtrip:
  assumes "reply_ok r" "c_open c" "delivers c (wire r @ rest)"
  shows "\<exists>c'. readReply timeoutMs c = Some (Some r, c') \<and> delivers c' rest"
  using parse_reply_wire [OF assms(1,3)] assms(2) by (simp add: readReply_def)

definition chopped :: "string list \<Rightarrow> conn" where
  "chopped ss = \<lparr>c_open = True, c_rbuf = [], c_rpos = 0, c_in = map Bytes ss, c_sends = [], c_out = [], c_dials = []\<rparr>"

theorem reply_roundtrip_witness:
  "\<exists>c'. readReply 1000 (chopped [''*2'', crlf, ''$2'' @ crlf @ ''o'', ''k'' @ crlf @ ''$-1'' @ crlf @ ''+''])
     = Some (Some (Reply TArray [] 0 [bulk ''ok'', Reply TNil [] 0 []]), c') \<and> delivers c' ''+''"
proof (rule reply_roundtrip)
  show "reply_ok (Reply TArray [] 0 [bulk ''ok'', Reply TNil [] 0 []])"
    "c_open (chopped [''*2'', crlf, ''$2'' @ crlf @ ''o'', ''k'' @ crlf @ ''$-1'' @ crlf @ ''+''])"
    by code_simp+
  have "show_nat (Suc (Suc 0)) = ''2''" by code_simp
  then show "delivers (chopped [''*2'', crlf, ''$2'' @ crlf @ ''o'', ''k'' @ crlf @ ''$-1'' @ crlf @ ''+''])
      (wire (Reply TArray [] 0 [bulk ''ok'', Reply TNil [] 0 []]) @ ''+'')"
    by (intro delivers_now) (auto simp: chopped_def unread_def bulk_def crlf_def)
qed

text \<open>A command is framed so that no argument can be mistaken for another command or argument,
  whatever bytes it holds (line ends, markers, other commands): a reader of the protocol gets back
  exactly the argument list, and the bytes of the next command follow.\<close>

theorem commands_cannot_be_injected:
  assumes "length args < 2 ^ 63" "\<forall>a \<in> set args. length a < 2 ^ 63"
    and "c_open c" "delivers c (encode args @ rest)"
  shows "\<exists>c'. readReply timeoutMs c = Some (Some (bulks args), c') \<and> delivers c' rest"
proof -
  have "reply_ok (bulks args)" using assms(1,2) by (auto simp: bulks_def bulk_def list_all_iff)
  then show ?thesis
    using parse_reply_wire [of "bulks args" c rest timeoutMs] assms(3,4) by (simp add: readReply_def encode_wire)
qed

theorem commands_cannot_be_injected_witness:
  "\<exists>c'. readReply 0 (chopped [encode [''GET'', crlf @ ''DEL x'']]) = Some (Some (bulks [''GET'', crlf @ ''DEL x'']), c') \<and>
     delivers c' []"
proof (rule commands_cannot_be_injected)
  show "delivers (chopped [encode [''GET'', crlf @ ''DEL x'']]) (encode [''GET'', crlf @ ''DEL x''] @ [])"
    by (intro delivers_now) (auto simp: chopped_def unread_def encode_def)
qed (auto simp: chopped_def crlf_def)

definition paused :: "string \<Rightarrow> string \<Rightarrow> string \<Rightarrow> string \<Rightarrow> conn" where
  "paused kind channel payload rest = (chopped [])\<lparr>c_in :=
     [Bytes (''*3'' @ crlf), Quiet, Bytes (encode_args [kind, channel, payload] @ rest)]\<rparr>"

lemma paused_first:
  "\<exists>c1. readReply 1000 (paused kind channel payload rest) = Some (None, c1) \<and> c_open c1 \<and>
     delivers c1 (encode_args [kind, channel, payload] @ rest)"
proof -
  let ?c = "paused kind channel payload rest" and ?s = "encode_args [kind, channel, payload] @ rest"
  let ?c1 = "(chopped [])\<lparr>c_rbuf := ''*3'' @ crlf, c_in := [Quiet, Bytes ?s]\<rparr>"
  let ?c2 = "?c1\<lparr>c_rpos := 4\<rparr>" and ?c3 = "?c1\<lparr>c_rpos := 4, c_in := [Bytes ?s]\<rparr>"
  have none: "find_from crlf [] 0 = None" "find_from crlf (''*3'' @ crlf) 4 = None"
    and some: "find_from crlf (''*3'' @ crlf) 0 = Some 2"
    and sub: "substr (''*3'' @ crlf) 0 2 = ''*3''" by code_simp+
  have fill: "fillBuffer 1000 ?c = Some (True, ?c1)" "fillBuffer 1000 ?c2 = Some (False, ?c3)"
    by (simp_all add: fillBuffer_def compact_def paused_def chopped_def crlf_def)
  have fields: "c_rbuf ?c = []" "c_rpos ?c = 0" "c_rbuf ?c1 = ''*3'' @ crlf" "c_rpos ?c1 = 0"
    "c_rbuf ?c2 = ''*3'' @ crlf" "c_rpos ?c2 = 4" by (simp_all add: paused_def chopped_def)
  have one: "readLine 1000 ?c = readLine 1000 ?c1"
    using readLine_more [OF _ fill(1)] none(1) by (simp only: fields simp_thms if_True)
  have "2 + 2 = (4 :: nat)" by simp
  then have two: "readLine 1000 ?c1 = Some (Some ''*3'', ?c2)"
    using readLine_here [of ?c1 2 1000] some sub by (simp only: fields diff_zero)
  have three: "readLine 1000 ?c2 = Some (None, ?c3)"
    using readLine_more [OF _ fill(2)] none(2) by (simp only: fields simp_thms if_False)
  have n: "strtoll ''3'' = 3" by code_simp
  have p: "parseReply (Suc d) 1000 ?c2 = Some (None, ?c3)" for d
    by (simp only: parseReply.simps three option.case prod.case)
  have loop: "elements_loop (Suc k) (parseReply (Suc d) 1000) ?c2 = Some (None, ?c3)" for k d
    by (simp only: elements_loop.simps p option.case prod.case)
  have nat3: "nat 3 = Suc 2" and pos: "\<not> (3 :: int) < 0" by simp_all
  have fuel: "length (unread ?c) = Suc (length (unread ?c) - 1)" and open': "c_open ?c"
    by (simp_all add: unread_def paused_def chopped_def)
  have "parse_reply 1000 ?c = Some (None, ?c3)"
    unfolding parse_reply_def parseReply.simps(2) [of "length (unread ?c)"] one two option.case prod.case list.case n Let_def nat3
    by (subst fuel, subst loop) simp
  with open' have "readReply 1000 ?c = Some (None, ?c3)" unfolding readReply_def by (simp only: simp_thms if_False)
  moreover have "delivers ?c3 ?s"
    by (intro delivers_now) (auto simp: unread_def chopped_def crlf_def)
  ultimately show ?thesis by (auto simp: chopped_def)
qed

text \<open>A read that times out inside a message drops the part it has read: when a published
  message arrives with a pause after its first line, the read fails and leaves the connection open,
  and the next read returns the message's first element as if it were a message of its own. The
  subscriber then never sees the channel and payload as a message, and the purge is lost.\<close>

lemma pause_loses_message:
  assumes "length kind < 2 ^ 63"
  shows "\<exists>c1 c2. readReply 1000 (paused kind channel payload rest) = Some (None, c1) \<and>
    readReply 1000 c1 = Some (Some (bulk kind), c2) \<and> delivers c2 (encode_args [channel, payload] @ rest)"
proof -
  obtain c1 where c1: "readReply 1000 (paused kind channel payload rest) = Some (None, c1)" "c_open c1"
    "delivers c1 (wire (bulk kind) @ encode_args [channel, payload] @ rest)"
    using paused_first [of kind channel payload rest] by (auto simp: bulk_def)
  have "reply_ok (bulk kind)" using assms by (simp add: bulk_def)
  from parse_reply_wire [OF this c1(3), of 1000] c1(1,2) show ?thesis by (auto simp: readReply_def)
qed

lemma pause_loses_message_witness:
  "\<exists>c1 c2. readReply 1000 (paused ''message'' ''edgecache:purge'' ''/a/*'' []) = Some (None, c1) \<and>
    readReply 1000 c1 = Some (Some (bulk ''message''), c2)"
  using pause_loses_message [of "''message''" "''edgecache:purge''" "''/a/*''" "[]"] by auto

end
