(* ===== verification/RedisL2.thy ===== *)
theory RedisL2
  imports CacheEntry Config RedisClient
begin

text \<open>
  \<^verbatim>\<open>redis/RedisL2Cache\<close>: the shared tier. The blob format, its writer and its reader, and the two
  operations over the connection of theory \<open>RedisClient\<close>. \<open>wall\<close> is \<^verbatim>\<open>nowWallMs()\<close>, \<open>now\<close> the
  steady clock; the mutex makes each operation one step. As in \<open>RedisClient\<close>, \<open>None\<close> stands for a
  call that never returns because the peer never answers.
\<close>

section \<open>The blob\<close>

definition writeStr :: "string \<Rightarrow> string" where
  "writeStr s = show_nat (length s) @ [LF] @ s @ [LF]"

fun write_headers :: "headers \<Rightarrow> string" where
  "write_headers [] = []"
| "write_headers (kv # h) = writeStr (fst kv) @ writeStr (snd kv) @ write_headers h"

definition l2_serialize :: "u64 \<Rightarrow> cache_entry \<Rightarrow> string" where
  "l2_serialize wall e =
     ''EC2'' @ [LF] @ show_int (ce_status e) @ [LF] @ show_nat (unat (ce_ttl e)) @ [LF] @
     show_nat (unat (ce_swr e)) @ [LF] @ show_nat (unat wall) @ [LF] @
     writeStr (ce_reason e) @ writeStr (ce_etag e) @
     show_nat (length (ce_headers e)) @ [LF] @ write_headers (ce_headers e) @ writeStr (ce_body e)"

text \<open>The readers take and return the position \<^verbatim>\<open>p\<close>; its sum with a length wraps.\<close>

definition l2_readLine :: "string \<Rightarrow> nat \<Rightarrow> (string \<times> nat) option" where
  "l2_readLine blob p = (case find_char LF (drop p blob) of None \<Rightarrow> None
     | Some n \<Rightarrow> Some (substr blob p n, p + n + 1))"

definition readU :: "string \<Rightarrow> nat \<Rightarrow> (u64 \<times> nat) option" where
  "readU blob p = (case l2_readLine blob p of None \<Rightarrow> None
     | Some (l, p) \<Rightarrow> (case stoull l of None \<Rightarrow> None | Some v \<Rightarrow> Some (v, p)))"

definition readStr :: "string \<Rightarrow> nat \<Rightarrow> (string \<times> nat) option" where
  "readStr blob p = (case l2_readLine blob p of None \<Rightarrow> None
     | Some (l, p) \<Rightarrow> (case stoull l of None \<Rightarrow> None
         | Some len \<Rightarrow>
             let e = unat (of_nat p + len) in
             if length blob < e then None
             else (let s = substr blob p (unat len); p = e in
               if length blob \<le> p \<or> blob ! p \<noteq> LF then None else Some (s, p + 1))))"

fun read_headers :: "nat \<Rightarrow> string \<Rightarrow> headers \<Rightarrow> nat \<Rightarrow> (headers \<times> nat) option" where
  "read_headers 0 blob h p = Some (h, p)"
| "read_headers (Suc n) blob h p = (case readStr blob p of None \<Rightarrow> None
     | Some (k, p) \<Rightarrow> (case readStr blob p of None \<Rightarrow> None
         | Some (v, p) \<Rightarrow> read_headers n blob (hset h k v) p))"

definition to_int32 :: "u64 \<Rightarrow> int" where
  "to_int32 w = sint (ucast w :: 32 word)"

definition deserialize :: "string \<Rightarrow> (cache_entry \<times> u64 \<times> u64) option" where
  "deserialize blob =
     (case l2_readLine blob 0 of None \<Rightarrow> None
      | Some (magic, p) \<Rightarrow> if magic \<noteq> ''EC2'' then None else
     (case readU blob p of None \<Rightarrow> None | Some (status, p) \<Rightarrow>
     (case readU blob p of None \<Rightarrow> None | Some (ttl, p) \<Rightarrow>
     (case readU blob p of None \<Rightarrow> None | Some (swr, p) \<Rightarrow>
     (case readU blob p of None \<Rightarrow> None | Some (storedAt, p) \<Rightarrow>
     (case readStr blob p of None \<Rightarrow> None | Some (reason, p) \<Rightarrow>
     (case readStr blob p of None \<Rightarrow> None | Some (etag, p) \<Rightarrow>
     (case readU blob p of None \<Rightarrow> None | Some (nHeaders, p) \<Rightarrow>
     (case read_headers (unat nHeaders) blob [] p of None \<Rightarrow> None | Some (headers, p) \<Rightarrow>
     (case readStr blob p of None \<Rightarrow> None | Some (body, p) \<Rightarrow>
        Some (empty_entry\<lparr>ce_status := to_int32 status, ce_reason := reason, ce_etag := etag,
            ce_swr := swr, ce_headers := headers, ce_body := body\<rparr>, storedAt, ttl)))))))))))"

section \<open>The operations\<close>

definition keyFor :: "config \<Rightarrow> string \<Rightarrow> string" where
  "keyFor cfg cacheKey = cf_l2KeyPrefix cfg @ cacheKey"

definition ensureConnected :: "config \<Rightarrow> conn \<Rightarrow> (bool \<times> conn) option" where
  "ensureConnected cfg c = (if c_open c then Some (True, c) else connect (cf_redisPassword cfg) c)"

text \<open>What is made of the stored blob.\<close>

definition revive :: "u64 \<Rightarrow> time \<Rightarrow> string \<Rightarrow> cache_entry option" where
  "revive wall now blob = (case deserialize blob of None \<Rightarrow> None
     | Some (e, storedAt, ttl) \<Rightarrow>
         let elapsedMs = (if storedAt < wall then wall - storedAt else 0) in
         if ttl * 1000 \<le> elapsedMs then None
         else (let remaining = ttl - elapsedMs div 1000 in
           Some (e\<lparr>ce_storedAt := now, ce_ttl := (if remaining = 0 then 1 else remaining)\<rparr>)))"

definition l2_get :: "config \<Rightarrow> u64 \<Rightarrow> time \<Rightarrow> string \<Rightarrow> conn \<Rightarrow> (cache_entry option \<times> conn) option" where
  "l2_get cfg wall now cacheKey c =
     (if \<not> cf_l2Enabled cfg then Some (None, c)
      else (case ensureConnected cfg c of None \<Rightarrow> None
        | Some (False, c) \<Rightarrow> Some (None, c)
        | Some (True, c) \<Rightarrow>
            (case command [''GET'', keyFor cfg cacheKey] c of None \<Rightarrow> None
             | Some (r, c) \<Rightarrow>
                 if isError r then Some (None, close_conn c)
                 else if rp_type r \<noteq> TBulk then Some (None, c)
                 else Some (revive wall now (rp_str r), c))))"

definition l2_put :: "config \<Rightarrow> u64 \<Rightarrow> string \<Rightarrow> cache_entry \<Rightarrow> u64 \<Rightarrow> conn \<Rightarrow> conn option" where
  "l2_put cfg wall cacheKey entry ttlSeconds c =
     (if \<not> cf_l2Enabled cfg \<or> ttlSeconds = 0 then Some c
      else (let blob = l2_serialize wall entry in
        case ensureConnected cfg c of None \<Rightarrow> None
        | Some (False, c) \<Rightarrow> Some c
        | Some (True, c) \<Rightarrow>
            (case command [''SET'', keyFor cfg cacheKey, blob, ''EX'', show_nat (unat ttlSeconds)] c of
               None \<Rightarrow> None
             | Some (r, c) \<Rightarrow> Some (if isError r then close_conn c else c))))"

section \<open>Reading what was written\<close>

definition at :: "string \<Rightarrow> nat \<Rightarrow> string \<Rightarrow> bool" where
  "at blob p s \<longleftrightarrow> p \<le> length blob \<and> drop p blob = s"

lemma at_skip: "at blob p (a @ s) \<Longrightarrow> at blob (p + length a) s"
proof -
  assume a: "at blob p (a @ s)"
  then have d: "drop p blob = a @ s" and p: "p \<le> length blob" by (simp_all add: at_def)
  have "drop (p + length a) blob = drop (length a) (drop p blob)" by (simp add: add.commute)
  then have "drop (p + length a) blob = s" by (simp add: d)
  moreover have "length blob - p = length a + length s" using arg_cong [OF d, of length] by simp
  then have "p + length a \<le> length blob" using p by linarith
  ultimately show ?thesis by (simp add: at_def)
qed

lemma readLine_at:
  assumes "at blob p (l @ LF # r)" "LF \<notin> set l"
  shows "\<exists>q. l2_readLine blob p = Some (l, q) \<and> at blob q r"
proof -
  have d: "drop p blob = l @ LF # r" using assms(1) by (simp add: at_def)
  have "at blob (p + length (l @ [LF])) r" using assms(1) by (intro at_skip) simp
  then show ?thesis
    using find_char_append [OF assms(2), of r] by (simp add: l2_readLine_def d substr_def add.assoc)
qed

lemma readU_at: "at blob p (show_nat (unat w) @ LF # r) \<Longrightarrow> \<exists>q. readU blob p = Some (w, q) \<and> at blob q r"
  using readLine_at [of blob p "show_nat (unat w)" r] by (auto simp: readU_def)

lemma readStr_at:
  assumes "at blob p (writeStr s @ r)" "length blob < 2 ^ 63"
  shows "\<exists>q. readStr blob p = Some (s, q) \<and> at blob q r"
proof -
  from assms(1) have "at blob p (show_nat (length s) @ LF # (s @ LF # r))" by (simp add: writeStr_def)
  then obtain q where q: "l2_readLine blob p = Some (show_nat (length s), q)" "at blob q (s @ LF # r)"
    using readLine_at by fastforce
  have q': "at blob (q + length s) (LF # r)" using q(2) by (rule at_skip)
  have next': "at blob (q + length s + 1) r" using at_skip [of blob "q + length s" "[LF]" r] q' by simp
  have len: "length blob = q + length s + 1 + length r"
    using q(2) by (auto simp: at_def dest: arg_cong [where f = length])
  have lf: "blob ! (q + length s) = LF" using q' by (auto simp: at_def nth_via_drop)
  have small: "length s < 2 ^ 64" "q + length s < 2 ^ 64" using len assms(2) by simp_all
  then have "unat (of_nat q + of_nat (length s) :: u64) = q + length s"
    by (metis of_nat_add unat_of_nat_u64)
  moreover have "substr blob q (length s) = s" using q(2) by (simp add: at_def substr_def)
  moreover have "stoull (show_nat (length s)) = Some (of_nat (length s))"
    using small by (simp add: stoull_show_nat)
  ultimately show ?thesis
    using q(1) len lf next' small by (simp add: readStr_def Let_def unat_of_nat_u64)
qed

lemma read_headers_at:
  assumes "length blob < 2 ^ 63"
  shows "at blob p (write_headers hs @ r) \<Longrightarrow>
    \<exists>q. read_headers (length hs) blob h p = Some (omap_sets ci_less h hs, q) \<and> at blob q r"
proof (induction hs arbitrary: h p)
  case Nil
  then show ?case by simp
next
  case (Cons kv hs)
  then have "at blob p (writeStr (fst kv) @ writeStr (snd kv) @ write_headers hs @ r)" by simp
  from readStr_at [OF this assms] obtain p1
    where p1: "readStr blob p = Some (fst kv, p1)" "at blob p1 (writeStr (snd kv) @ write_headers hs @ r)" by blast
  from readStr_at [OF p1(2) assms] obtain p2
    where p2: "readStr blob p1 = Some (snd kv, p2)" "at blob p2 (write_headers hs @ r)" by blast
  from Cons.IH [OF p2(2)] p1(1) p2(1) show ?case by simp
qed

lemma write_headers_length: "length hs \<le> length (write_headers hs)"
  by (induction hs) (auto simp: writeStr_def)

lemma LF_not_in_show_int: "LF \<notin> set (show_int i)"
proof -
  have "LF \<noteq> CHR ''-''" by code_simp
  then show ?thesis by (simp add: show_int_def)
qed

lemma stoull_show_int: "int32 i \<Longrightarrow> stoull (show_int i) = Some (of_int i)"
proof -
  assume i: "int32 i"
  show ?thesis
  proof (cases "i < 0")
    case True
    have "(of_nat (nat (- i)) :: u64) = of_int (- i)" using True by (simp add: of_nat_nat)
    moreover have "nat (- i) < 2 ^ 64" using i True by (simp add: int32_def nat_less_iff)
    ultimately show ?thesis using True by (simp add: show_int_def stoull_def scan_minus)
  next
    case False
    then have "nat i < 2 ^ 64" using i by (simp add: int32_def)
    then show ?thesis using False by (simp add: show_int_def stoull_show_nat)
  qed
qed

lemma to_int32_of_int: "int32 i \<Longrightarrow> to_int32 (of_int i) = i"
proof -
  assume i: "int32 i"
  have "(ucast (of_int i :: u64) :: 32 word) = of_int i"
    by (rule bit_word_eqI) (simp add: bit_simps)
  then show ?thesis
    using i by (simp add: to_int32_def int32_def sint_sbintrunc' signed_take_bit_int_eq_self)
qed

text \<open>The four numbers, and the strings and headers behind them.\<close>

lemma numbers_at:
  assumes "int32 i" "at b p (show_int i @ LF # show_nat (unat ttl) @ LF # show_nat (unat swr) @ LF #
    show_nat (unat wall) @ LF # r)"
  shows "\<exists>p1 p2 p3 q. readU b p = Some (of_int i, p1) \<and> readU b p1 = Some (ttl, p2) \<and>
    readU b p2 = Some (swr, p3) \<and> readU b p3 = Some (wall, q) \<and> at b q r"
proof -
  from readLine_at [OF assms(2) LF_not_in_show_int] obtain p1
    where p1: "readU b p = Some (of_int i, p1)"
      "at b p1 (show_nat (unat ttl) @ LF # show_nat (unat swr) @ LF # show_nat (unat wall) @ LF # r)"
    using stoull_show_int [OF assms(1)] by (auto simp: readU_def)
  from readU_at [OF p1(2)] obtain p2 where p2: "readU b p1 = Some (ttl, p2)"
    "at b p2 (show_nat (unat swr) @ LF # show_nat (unat wall) @ LF # r)" by blast
  from readU_at [OF p2(2)] obtain p3 where p3: "readU b p2 = Some (swr, p3)"
    "at b p3 (show_nat (unat wall) @ LF # r)" by blast
  from readU_at [OF p3(2)] p1(1) p2(1) p3(1) show ?thesis by blast
qed

lemma strings_at:
  assumes "hinv h" "length b < 2 ^ 63"
    and "at b p (writeStr reason @ writeStr etag @ show_nat (length h) @ LF # write_headers h @ writeStr body @ [])"
  shows "\<exists>p1 p2 p3 p4 q. readStr b p = Some (reason, p1) \<and> readStr b p1 = Some (etag, p2) \<and>
    readU b p2 = Some (of_nat (length h), p3) \<and> unat (of_nat (length h) :: u64) = length h \<and>
    read_headers (length h) b [] p3 = Some (h, p4) \<and> readStr b p4 = Some (body, q)"
proof -
  from readStr_at [OF assms(3,2)] obtain p1 where p1: "readStr b p = Some (reason, p1)"
    "at b p1 (writeStr etag @ show_nat (length h) @ LF # write_headers h @ writeStr body @ [])" by blast
  from readStr_at [OF p1(2) assms(2)] obtain p2 where p2: "readStr b p1 = Some (etag, p2)"
    "at b p2 (show_nat (length h) @ LF # write_headers h @ writeStr body @ [])" by blast
  have "length (write_headers h) \<le> length b"
    using p2(2) by (auto simp: at_def dest!: arg_cong [where f = length])
  with write_headers_length [of h] assms(2) have n: "unat (of_nat (length h) :: u64) = length h"
    by (intro unat_of_nat_u64) simp
  from readU_at [of b p2 "of_nat (length h)"] p2(2) obtain p3
    where p3: "readU b p2 = Some (of_nat (length h), p3)" "at b p3 (write_headers h @ writeStr body @ [])"
    by (auto simp: n)
  from read_headers_at [OF assms(2) p3(2), of "[]"] obtain p4
    where p4: "read_headers (length h) b [] p3 = Some (h, p4)" "at b p4 (writeStr body @ [])"
    by (auto simp: omap_sets_rebuild [OF assms(1)])
  from readStr_at [OF p4(2) assms(2)] p1(1) p2(1) p3(1) p4(1) n show ?thesis by blast
qed

lemma deserialize_serialize:
  assumes "int32 (ce_status e)" "hinv (ce_headers e)" "length (l2_serialize wall e) < 2 ^ 63"
  shows "deserialize (l2_serialize wall e) = Some (e\<lparr>ce_storedAt := 0, ce_ttl := 0\<rparr>, wall, ce_ttl e)"
proof -
  let ?b = "l2_serialize wall e"
  let ?r = "writeStr (ce_reason e) @ writeStr (ce_etag e) @
     show_nat (length (ce_headers e)) @ LF # write_headers (ce_headers e) @ writeStr (ce_body e) @ []"
  have "at ?b 0 (''EC2'' @ LF # show_int (ce_status e) @ LF # show_nat (unat (ce_ttl e)) @ LF #
     show_nat (unat (ce_swr e)) @ LF # show_nat (unat wall) @ LF # ?r)"
    by (simp add: at_def l2_serialize_def)
  moreover have "LF \<notin> set ''EC2''" by code_simp
  ultimately obtain p where p: "l2_readLine ?b 0 = Some (''EC2'', p)"
    "at ?b p (show_int (ce_status e) @ LF # show_nat (unat (ce_ttl e)) @ LF #
     show_nat (unat (ce_swr e)) @ LF # show_nat (unat wall) @ LF # ?r)"
    using readLine_at by blast
  from numbers_at [OF assms(1) p(2)] obtain p1 p2 p3 p4
    where n: "readU ?b p = Some (of_int (ce_status e), p1)" "readU ?b p1 = Some (ce_ttl e, p2)"
      "readU ?b p2 = Some (ce_swr e, p3)" "readU ?b p3 = Some (wall, p4)" and r: "at ?b p4 ?r" by blast
  from strings_at [OF assms(2,3) r] obtain p5 p6 p7 p8 p9
    where "readStr ?b p4 = Some (ce_reason e, p5)" "readStr ?b p5 = Some (ce_etag e, p6)"
      "readU ?b p6 = Some (of_nat (length (ce_headers e)), p7)"
      "unat (of_nat (length (ce_headers e)) :: u64) = length (ce_headers e)"
      "read_headers (length (ce_headers e)) ?b [] p7 = Some (ce_headers e, p8)"
      "readStr ?b p8 = Some (ce_body e, p9)" by blast
  then show ?thesis
    by (simp add: deserialize_def p(1) n to_int32_of_int [OF assms(1)] empty_entry_def)
qed

section \<open>Properties\<close>

text \<open>How long the copy may still be served: never longer than the entry that was stored, rounded up
  to the next second.\<close>

lemma revive_lifetime:
  assumes "deserialize blob = Some (e, storedAt, ttl)" "unat ttl * 1000 < 2 ^ 64" "storedAt \<le> wall"
  shows "revive wall now blob =
    (if unat ttl * 1000 \<le> unat wall - unat storedAt then None
     else Some (e\<lparr>ce_storedAt := now, ce_ttl := of_nat (unat ttl - (unat wall - unat storedAt) div 1000)\<rparr>))"
proof -
  let ?d = "wall - storedAt"
  have d: "unat ?d = unat wall - unat storedAt" using assms(3) by (rule unat_sub)
  have el: "(if storedAt < wall then wall - storedAt else 0) = ?d" using assms(3) by auto
  have ms: "unat (ttl * 1000) = unat ttl * 1000" using assms(2) by (simp add: unat_word_ariths)
  have late: "ttl * 1000 \<le> ?d \<longleftrightarrow> unat ttl * 1000 \<le> unat wall - unat storedAt"
    by (simp add: word_le_nat_alt ms d)
  show ?thesis
  proof (cases "ttl * 1000 \<le> ?d")
    case True
    with late assms(1) show ?thesis by (simp add: revive_def Let_def el)
  next
    case False
    have div: "unat (?d div 1000) = (unat wall - unat storedAt) div 1000" by (simp add: unat_div d)
    then have lt: "unat (?d div 1000) < unat ttl" using False late by (simp add: div_less_iff_less_mult)
    then have "ttl - ?d div 1000 \<noteq> 0" by auto
    moreover have "ttl - ?d div 1000 = of_nat (unat ttl - (unat wall - unat storedAt) div 1000)"
      using lt div unat_sub [of "?d div 1000" ttl] by (metis less_imp_le of_nat_unat ucast_id word_le_nat_alt)
    ultimately show ?thesis using False late assms(1) by (simp add: revive_def Let_def el)
  qed
qed

lemma command_delivers:
  assumes "c_open c" "c_sends c = []" "reply_ok r" "delivers c (wire r @ rest)"
  shows "\<exists>c'. command args c = Some (r, c') \<and> delivers c' rest"
proof -
  have "delivers (c\<lparr>c_sends := [], c_out := c_out c @ encode args\<rparr>) (wire r @ rest)"
    using assms(4) by simp
  from parse_reply_wire [OF assms(3) this, of "- 1"] assms(1,2) show ?thesis
    by (auto simp: command_def writeAll_def)
qed

text \<open>C39: an entry written to the shared tier comes back whole: whatever bytes its body, reason, etag
  and headers hold and however the network cuts the reply, \<^verbatim>\<open>get\<close> returns the entry with what is
  left of its lifetime (the elapsed whole seconds are taken off, and at least one second is left),
  or nothing once the lifetime has passed; the connection stays in step.\<close>

theorem l2_get_returns_stored:
  assumes "cf_l2Enabled cfg" "c_open c" "c_sends c = []"
    and "delivers c (wire (bulk (l2_serialize wall0 e)) @ rest)"
    and "int32 (ce_status e)" "hinv (ce_headers e)" "length (l2_serialize wall0 e) < 2 ^ 63"
    and "unat (ce_ttl e) * 1000 < 2 ^ 64" "wall0 \<le> wall"
  shows "\<exists>c'. l2_get cfg wall now key c =
      Some (if unat (ce_ttl e) * 1000 \<le> unat wall - unat wall0 then None
        else Some (e\<lparr>ce_storedAt := now, ce_ttl := of_nat (unat (ce_ttl e) - (unat wall - unat wall0) div 1000)\<rparr>), c') \<and>
    delivers c' rest"
proof -
  let ?blob = "l2_serialize wall0 e"
  have "reply_ok (bulk ?blob)" using assms(7) by (simp add: bulk_def)
  from command_delivers [OF assms(2,3) this assms(4)] obtain c'
    where c': "command [''GET'', keyFor cfg key] c = Some (bulk ?blob, c')" "delivers c' rest" by blast
  note revive = revive_lifetime [OF deserialize_serialize [OF assms(5-7)] assms(8,9), of now]
  have "l2_get cfg wall now key c = Some (revive wall now ?blob, c')"
    using assms(1,2) c'(1) by (simp add: l2_get_def ensureConnected_def bulk_def isError_def)
  with c'(2) revive show ?thesis by simp
qed

definition stored_entry :: cache_entry where
  "stored_entry = empty_entry\<lparr>ce_status := 404, ce_reason := ''Not Found'', ce_headers := [(''ETag'', ''x'')],
     ce_body := crlf @ ''EC2'', ce_ttl := 60, ce_swr := 5\<rparr>"

theorem l2_get_returns_stored_witness:
  "\<exists>c'. l2_get (default_config\<lparr>cf_l2Enabled := True\<rparr>) 42500 7 ''GET|h|/'' (chopped [wire (bulk (l2_serialize 40000 stored_entry))])
    = Some (Some (stored_entry\<lparr>ce_storedAt := 7, ce_ttl := 58\<rparr>), c')"
proof -
  let ?c = "chopped [wire (bulk (l2_serialize 40000 stored_entry))]"
  have d: "delivers ?c (wire (bulk (l2_serialize 40000 stored_entry)) @ [])"
    by (intro delivers_now) (simp_all add: chopped_def unread_def bulk_def)
  have "cf_l2Enabled (default_config\<lparr>cf_l2Enabled := True\<rparr>)" "c_open ?c" "c_sends ?c = []"
    by (simp_all add: chopped_def)
  moreover have "int32 (ce_status stored_entry)" "hinv (ce_headers stored_entry)"
    "length (l2_serialize 40000 stored_entry) < 2 ^ 63" "unat (ce_ttl stored_entry) * 1000 < 2 ^ 64"
    "(40000 :: u64) \<le> 42500" "\<not> unat (ce_ttl stored_entry) * 1000 \<le> unat (42500 :: u64) - unat (40000 :: u64)"
    "of_nat (unat (ce_ttl stored_entry) - (unat (42500 :: u64) - unat (40000 :: u64)) div 1000) = (58 :: u64)"
    by code_simp+
  ultimately show ?thesis
    using l2_get_returns_stored [OF _ _ _ d, of "default_config\<lparr>cf_l2Enabled := True\<rparr>" 42500 7 "''GET|h|/''"]
    by auto
qed

text \<open>Beyond about $1.8 \cdot 10^{16}$ seconds the lifetime in milliseconds wraps: with
  \<^verbatim>\<open>"ttl":18446744073709552\<close> in a rule, a copy counts as expired 384 milliseconds after it was
  written.\<close>

lemma huge_lifetime_wraps:
  assumes "deserialize blob = Some (e, storedAt, 18446744073709552)" "storedAt < wall" "unat wall - unat storedAt \<ge> 384"
  shows "revive wall now blob = None"
proof -
  have "unat (wall - storedAt) = unat wall - unat storedAt"
    using assms(2) by (intro unat_sub) simp
  moreover have "unat (18446744073709552 * 1000 :: u64) = 384" by code_simp
  ultimately have "18446744073709552 * 1000 \<le> wall - storedAt"
    using assms(3) unfolding word_le_nat_alt by simp
  with assms(1,2) show ?thesis by (simp add: revive_def)
qed

end
