(* ===== verification/RequestHandler.thy ===== *)
theory RequestHandler
  imports ShardedCache CachePolicy CircuitBreaker InFlight Metrics RedisL2 "HOL-Library.Monad_Syntax"
begin

text \<open>
  \<^verbatim>\<open>RequestHandler\<close>, the origin interface it calls and the access-log event. The handler's
  references are the fields of \<open>world\<close>. Its collaborators that are interfaces are arguments:
  \<open>decide\<close> (the virtual policy) and \<open>fetch\<close> (the virtual origin client). Other threads run
  while a request waits, so \<open>fetch\<close> also returns the world as they leave it, and \<open>wait\<close> is what
  they do until a slot is ready. Each reading of a clock takes the next value of an arbitrary
  sequence. A detached thread is a job put into \<open>w_jobs\<close>; \<open>revalidate\<close> is its body. \<open>None\<close> is
  a call that does not return, or a dangling iterator in the cache.
\<close>

section \<open>The world of a request\<close>

record origin_target =
  ot_host :: string
  ot_port :: "16 word"
  ot_connectMs :: int
  ot_readMs :: int

record origin_result =
  or_ok :: bool
  or_timedOut :: bool
  or_response :: http_response
  or_error :: string

definition no_result :: origin_result where
  "no_result = \<lparr>or_ok = False, or_timedOut = False, or_response = empty_response, or_error = []\<rparr>"

record log_event =
  ev_timestampMs :: int
  ev_replicaId :: string
  ev_path :: string
  ev_cacheKey :: string
  ev_result :: string
  ev_status :: int
  ev_latencyMs :: rat
  ev_bytesServed :: u64

record world =
  w_cache :: sharded
  w_breakers :: registry
  w_inflight :: inflight
  w_metrics :: metrics
  w_l2 :: "conn option"
  w_log :: "log_event list option"
  w_jobs :: "(http_request \<times> string) list"
  w_clock :: "nat \<Rightarrow> time"
  w_wall :: "nat \<Rightarrow> u64"
  w_reads :: nat

type_synonym fetcher = "http_request \<Rightarrow> origin_target \<Rightarrow> world \<Rightarrow> origin_result \<times> world"

type_synonym decider = "string \<Rightarrow> http_response \<Rightarrow> cache_decision"

definition clock :: "world \<Rightarrow> time \<times> world" where
  "clock w = (w_clock w (w_reads w), w\<lparr>w_reads := Suc (w_reads w)\<rparr>)"

definition wall_clock :: "world \<Rightarrow> u64 \<times> world" where
  "wall_clock w = (w_wall w (w_reads w), w\<lparr>w_reads := Suc (w_reads w)\<rparr>)"

definition count_metric :: "(metrics \<Rightarrow> metrics) \<Rightarrow> world \<Rightarrow> world" where
  "count_metric f w = w\<lparr>w_metrics := f (w_metrics w)\<rparr>"

definition cache_get :: "(string \<Rightarrow> u64) \<Rightarrow> string \<Rightarrow> world \<Rightarrow> (cache_entry option \<times> world) option" where
  "cache_get h key w = do { (c, r) \<leftarrow> sharded_get h (w_cache w) key; Some (r, w\<lparr>w_cache := c\<rparr>) }"

definition cache_put :: "(string \<Rightarrow> u64) \<Rightarrow> string \<Rightarrow> cache_entry \<Rightarrow> world \<Rightarrow> world option" where
  "cache_put h key e w = do { c \<leftarrow> sharded_put h (w_cache w) key e; Some (w\<lparr>w_cache := c\<rparr>) }"

definition breaker_op :: "string \<Rightarrow> (breaker \<Rightarrow> 'a \<times> breaker) \<Rightarrow> world \<Rightarrow> 'a \<times> world" where
  "breaker_op host f w = (let (r, g) = with_breaker host f (w_breakers w) in (r, w\<lparr>w_breakers := g\<rparr>))"

section \<open>Helpers of the handler\<close>

definition decorate :: "http_response \<Rightarrow> string \<Rightarrow> config \<Rightarrow> string \<Rightarrow> http_response" where
  "decorate resp xcache cfg policyReason =
     (let h = hset (hset (resp_headers resp) ''X-Cache'' xcache) ''X-EdgeCache-Replica'' (cf_replicaId cfg) in
      resp\<lparr>resp_headers := (if policyReason \<noteq> [] then hset h ''X-Cache-Policy'' policyReason else h)\<rparr>)"

definition entryFrom :: "time \<Rightarrow> http_response \<Rightarrow> cache_decision \<Rightarrow> cache_entry" where
  "entryFrom now resp d =
     \<lparr>ce_status = resp_status resp, ce_reason = resp_reason resp, ce_headers = resp_headers resp,
      ce_body = resp_body resp, ce_storedAt = now, ce_ttl = d_ttl d, ce_swr = d_swr d,
      ce_etag = resp_header resp ''ETag'' []\<rparr>"

definition targetFor :: "config \<Rightarrow> string \<Rightarrow> origin_target" where
  "targetFor cfg path = \<lparr>ot_host = cf_originHost cfg, ot_port = cf_originPort cfg,
     ot_connectMs = cf_originConnectMs cfg, ot_readMs = cf_originReadMs cfg\<rparr>"

definition seconds_of :: "time \<Rightarrow> rat" where
  "seconds_of d = of_int d / 1000000000"

definition fetchGuarded :: "fetcher \<Rightarrow> http_request \<Rightarrow> origin_target \<Rightarrow> world \<Rightarrow>
    (origin_result \<times> bool) \<times> world" where
  "fetchGuarded fetch req target w =
     (let (t, w) = clock w;
          (allowed, w) = breaker_op (ot_host target) (allowRequest t) w
      in if \<not> allowed
         then ((no_result\<lparr>or_error := ''circuit open''\<rparr>, True), count_metric recordCircuitReject w)
         else
           let (start, w) = clock w;
               (r, w) = fetch req target w;
               (stop, w) = clock w;
               w = count_metric (observeOriginLatency (seconds_of (stop - start))) w
           in if or_ok r
              then ((r, False), snd (breaker_op (ot_host target) (\<lambda>b. ((), recordSuccess b)) w))
              else
                let (t, w) = clock w;
                    w = snd (breaker_op (ot_host target) (\<lambda>b. ((), recordFailure t b)) w)
                in ((r, False), count_metric recordOriginError w))"

definition request_key :: "config \<Rightarrow> http_request \<Rightarrow> string" where
  "request_key cfg req = fromRequest req (ot_host (targetFor cfg (req_path req)))"

definition maybeStore :: "config \<Rightarrow> decider \<Rightarrow> (string \<Rightarrow> u64) \<Rightarrow> http_request \<Rightarrow> http_response \<Rightarrow> world \<Rightarrow> world option" where
  "maybeStore cfg decide h req resp w =
     (if \<not> isCacheableMethod req then Some w else
      let d = decide (req_path req) resp in
      if \<not> d_cacheable d then Some w
      else (let (now, w) = clock w in cache_put h (request_key cfg req) (entryFrom now resp d) w))"

definition l2_store :: "config \<Rightarrow> string \<Rightarrow> cache_entry \<Rightarrow> u64 \<Rightarrow> world \<Rightarrow> world option" where
  "l2_store cfg key e ttl w = (case w_l2 w of None \<Rightarrow> Some w
     | Some c \<Rightarrow> (let (wall, w) = wall_clock w in
         do { c \<leftarrow> l2_put cfg wall key e ttl c; Some (w\<lparr>w_l2 := Some c\<rparr>) }))"

definition storeTiers :: "config \<Rightarrow> decider \<Rightarrow> (string \<Rightarrow> u64) \<Rightarrow> http_request \<Rightarrow> http_response \<Rightarrow> world \<Rightarrow> world option" where
  "storeTiers cfg decide h req resp w =
     (if \<not> isCacheableMethod req then Some w else
      let d = decide (req_path req) resp in
      if \<not> d_cacheable d then Some w
      else (let key = request_key cfg req; (now, w) = clock w; entry = entryFrom now resp d in
        do { w \<leftarrow> cache_put h key entry w; l2_store cfg key entry (d_ttl d) w }))"

definition publish_slot :: "string \<Rightarrow> http_response \<Rightarrow> bool \<Rightarrow> world \<Rightarrow> world" where
  "publish_slot key resp success w = w\<lparr>w_inflight := publish key resp success (w_inflight w)\<rparr>"

definition triggerRevalidation :: "http_request \<Rightarrow> string \<Rightarrow> world \<Rightarrow> world" where
  "triggerRevalidation req key w =
     (let ((leader, s), r) = acquire key (w_inflight w); w = w\<lparr>w_inflight := r\<rparr> in
      if \<not> leader then w else w\<lparr>w_jobs := w_jobs w @ [(req, key)]\<rparr>)"

definition revalidate :: "config \<Rightarrow> decider \<Rightarrow> fetcher \<Rightarrow> (string \<Rightarrow> u64) \<Rightarrow> http_request \<times> string \<Rightarrow> world \<Rightarrow> world option" where
  "revalidate cfg decide fetch h job w =
     (let (req, key) = job;
          ((r, rejected), w) = fetchGuarded fetch req (targetFor cfg (req_path req)) w
      in if or_ok r
         then do { w \<leftarrow> storeTiers cfg decide h req (or_response r) w;
                   Some (publish_slot key (or_response r) True w) }
         else Some (publish_slot key empty_response False w))"

section \<open>Processing a request\<close>

definition origin_failure :: "bool \<Rightarrow> http_response" where
  "origin_failure rejected =
     simple (if rejected then 503 else 502)
       (if rejected then ''Service Unavailable'' else ''Bad Gateway'')
       ((if rejected then ''origin circuit open'' else ''origin error'') @ [LF]) ''text/plain''"

definition served :: "http_response \<Rightarrow> world \<Rightarrow> http_response \<times> world" where
  "served resp w = (resp, count_metric (recordBytesServed (of_nat (length (resp_body resp)))) w)"

definition pass_through :: "config \<Rightarrow> fetcher \<Rightarrow> http_request \<Rightarrow> world \<Rightarrow> http_response \<times> world" where
  "pass_through cfg fetch req w =
     (let w = count_metric recordMiss w;
          ((r, rejected), w) = fetchGuarded fetch req (targetFor cfg (req_path req)) w
      in if or_ok r then served (decorate (or_response r) ''PASS'' cfg []) w
         else served (decorate (origin_failure rejected) ''PASS'' cfg []) w)"

definition serve_fresh :: "config \<Rightarrow> cache_entry \<Rightarrow> time \<Rightarrow> world \<Rightarrow> http_response \<times> world" where
  "serve_fresh cfg e now w =
     (let w = count_metric recordHit w;
          resp = toResponse e;
          resp = resp\<lparr>resp_headers := hset (resp_headers resp) ''Age'' (show_int (to_seconds (now - ce_storedAt e)))\<rparr>
      in served (decorate resp ''HIT'' cfg []) w)"

definition serve_stale :: "config \<Rightarrow> http_request \<Rightarrow> string \<Rightarrow> cache_entry \<Rightarrow> world \<Rightarrow> http_response \<times> world" where
  "serve_stale cfg req key e w =
     (let w = count_metric recordStaleServed (count_metric recordHit w);
          resp = decorate (toResponse e) ''STALE'' cfg [];
          w = triggerRevalidation req key w
      in served resp w)"

definition l2_lookup :: "config \<Rightarrow> string \<Rightarrow> world \<Rightarrow> (cache_entry option \<times> world) option" where
  "l2_lookup cfg key w = (case w_l2 w of None \<Rightarrow> Some (None, w)
     | Some c \<Rightarrow> (let (wall, w) = wall_clock w; (now, w) = clock w in
         do { (e, c) \<leftarrow> l2_get cfg wall now key c;
              Some (e, count_metric (if e = None then recordL2Miss else recordL2Hit) (w\<lparr>w_l2 := Some c\<rparr>)) }))"

definition lead_from_l2 :: "config \<Rightarrow> (string \<Rightarrow> u64) \<Rightarrow> string \<Rightarrow> cache_entry \<Rightarrow> world \<Rightarrow> (http_response \<times> world) option" where
  "lead_from_l2 cfg h key e w =
     do { w \<leftarrow> cache_put h key e w;
          let resp = toResponse e;
          let resp = resp\<lparr>resp_headers := hset (resp_headers resp) ''Age'' ''0''\<rparr>;
          let resp = decorate resp ''HIT'' cfg ''l2'';
          let resp = resp\<lparr>resp_headers := hset (resp_headers resp) ''X-Cache-Tier'' ''L2''\<rparr>;
          let w = publish_slot key resp True w;
          Some (served resp w) }"

definition lead_from_origin :: "config \<Rightarrow> decider \<Rightarrow> fetcher \<Rightarrow> (string \<Rightarrow> u64) \<Rightarrow> http_request \<Rightarrow> string \<Rightarrow>
    cache_entry option \<Rightarrow> time \<Rightarrow> world \<Rightarrow> (http_response \<times> world) option" where
  "lead_from_origin cfg decide fetch h req key cached now w =
     (let ((r, rejected), w) = fetchGuarded fetch req (targetFor cfg (req_path req)) w in
      if or_ok r
      then do {
        let resp = or_response r;
        w \<leftarrow> storeTiers cfg decide h req resp w;
        let resp = decorate resp ''MISS'' cfg (d_reason (decide (req_path req) resp));
        let w = publish_slot key resp True w;
        Some (served resp w) }
      else (case cached of
          Some e \<Rightarrow>
            if isServeableStale e now
            then (let resp = decorate (toResponse e) ''STALE'' cfg ''origin-unavailable'';
                      w = count_metric recordStaleServed w
                  in Some (served resp (publish_slot key resp False w)))
            else (let resp = decorate (origin_failure rejected) ''MISS'' cfg []
                  in Some (served resp (publish_slot key resp False w)))
        | None \<Rightarrow>
            (let resp = decorate (origin_failure rejected) ''MISS'' cfg []
             in Some (served resp (publish_slot key resp False w)))))"

definition lead :: "config \<Rightarrow> decider \<Rightarrow> fetcher \<Rightarrow> (string \<Rightarrow> u64) \<Rightarrow> http_request \<Rightarrow> string \<Rightarrow>
    cache_entry option \<Rightarrow> time \<Rightarrow> world \<Rightarrow> (http_response \<times> world) option" where
  "lead cfg decide fetch h req key cached now w =
     do { (e, w) \<leftarrow> l2_lookup cfg key w;
          case e of Some e \<Rightarrow> lead_from_l2 cfg h key e w
          | None \<Rightarrow> lead_from_origin cfg decide fetch h req key cached now w }"

definition follow :: "config \<Rightarrow> decider \<Rightarrow> (nat \<Rightarrow> world \<Rightarrow> world option) \<Rightarrow> (string \<Rightarrow> u64) \<Rightarrow> http_request \<Rightarrow>
    nat \<Rightarrow> world \<Rightarrow> (http_response \<times> world) option" where
  "follow cfg decide wait h req s w =
     do { w \<leftarrow> wait s w;
          let (resp, success) = slot_result s (w_inflight w);
          w \<leftarrow> (if success then maybeStore cfg decide h req resp w else Some w);
          let resp = decorate resp ''MISS'' cfg ''coalesced'';
          Some (served resp w) }"

definition serve_miss :: "config \<Rightarrow> decider \<Rightarrow> fetcher \<Rightarrow> (nat \<Rightarrow> world \<Rightarrow> world option) \<Rightarrow> (string \<Rightarrow> u64) \<Rightarrow>
    http_request \<Rightarrow> string \<Rightarrow> cache_entry option \<Rightarrow> time \<Rightarrow> world \<Rightarrow> (http_response \<times> world) option" where
  "serve_miss cfg decide fetch wait h req key cached now w =
     (let w = count_metric recordMiss w;
          ((leader, s), r) = acquire key (w_inflight w);
          w = w\<lparr>w_inflight := r\<rparr>
      in if leader then lead cfg decide fetch h req key cached now w
         else follow cfg decide wait h req s w)"

definition process :: "config \<Rightarrow> decider \<Rightarrow> fetcher \<Rightarrow> (nat \<Rightarrow> world \<Rightarrow> world option) \<Rightarrow> (string \<Rightarrow> u64) \<Rightarrow>
    http_request \<Rightarrow> world \<Rightarrow> (http_response \<times> world) option" where
  "process cfg decide fetch wait h req w =
     (if \<not> isCacheableMethod req then Some (pass_through cfg fetch req w)
      else
        let key = request_key cfg req; (now, w) = clock w in
        do { (cached, w) \<leftarrow> cache_get h key w;
             case cached of
               Some e \<Rightarrow>
                 if isFresh e now then Some (serve_fresh cfg e now w)
                 else if isServeableStale e now then Some (serve_stale cfg req key e w)
                 else serve_miss cfg decide fetch wait h req key cached now w
             | None \<Rightarrow> serve_miss cfg decide fetch wait h req key cached now w })"

definition handle :: "config \<Rightarrow> decider \<Rightarrow> fetcher \<Rightarrow> (nat \<Rightarrow> world \<Rightarrow> world option) \<Rightarrow> (string \<Rightarrow> u64) \<Rightarrow>
    http_request \<Rightarrow> world \<Rightarrow> (http_response \<times> world) option" where
  "handle cfg decide fetch wait h req w =
     (let (start, w) = clock w in
      do { (resp, w) \<leftarrow> process cfg decide fetch wait h req w;
           case w_log w of None \<Rightarrow> Some (resp, w)
           | Some evs \<Rightarrow>
               (let (stop, w) = clock w;
                    (wall, w) = wall_clock w;
                    ev = \<lparr>ev_timestampMs = uint wall, ev_replicaId = cf_replicaId cfg, ev_path = req_path req,
                      ev_cacheKey = request_key cfg req,
                      ev_result = lower (resp_header resp ''X-Cache'' ''unknown''),
                      ev_status = resp_status resp, ev_latencyMs = of_int (stop - start) / 1000000,
                      ev_bytesServed = of_nat (length (resp_body resp))\<rparr>
                in Some (resp, w\<lparr>w_log := Some (evs @ [ev])\<rparr>)) })"

end
