(* ===== verification/HttpOriginClient.thy ===== *)
theory HttpOriginClient
  imports RequestHandler
begin

text \<open>
  \<^verbatim>\<open>origin/HttpOriginClient\<close>: one request to the origin over one fresh connection. The network is
  the record \<open>origin_net\<close>: what name resolution and each \<^verbatim>\<open>connect\<close> will report, what \<^verbatim>\<open>send\<close>
  will take and what \<^verbatim>\<open>recv\<close> will return. \<open>None\<close> is a call that waits for ever, which happens
  when no read timeout is set and the origin stays silent. The texts of \<^verbatim>\<open>strerror\<close> and
  \<^verbatim>\<open>gai_strerror\<close> are part of the environment. Sockets are closed on every path and have no state
  of their own here.
\<close>

section \<open>Connecting\<close>

text \<open>\<open>Writable\<close> carries \<^verbatim>\<open>SO_ERROR\<close>.\<close>

datatype select_event = Writable "string option" | SelectTimeout | SelectFail string

datatype dial = NoSocket | DialOk | DialFail string | Pending select_event

fun connect_loop :: "dial list \<Rightarrow> string \<Rightarrow> bool \<times> string" where
  "connect_loop [] err = (False, err)"
| "connect_loop (NoSocket # ds) err = connect_loop ds err"
| "connect_loop (DialOk # ds) err = (True, err)"
| "connect_loop (DialFail e # ds) err = connect_loop ds (''connect: '' @ e)"
| "connect_loop (Pending (Writable None) # ds) err = (True, err)"
| "connect_loop (Pending (Writable (Some e)) # ds) err = connect_loop ds (''connect: '' @ e)"
| "connect_loop (Pending SelectTimeout # ds) err = connect_loop ds ''connect: timeout''"
| "connect_loop (Pending (SelectFail e) # ds) err = connect_loop ds (''connect select: '' @ e)"

definition connectWithTimeout :: "string + dial list \<Rightarrow> bool \<times> string" where
  "connectWithTimeout r = (case r of
     Inl e \<Rightarrow> (False, ''dns: '' @ e)
   | Inr ds \<Rightarrow> (case connect_loop ds [] of
         (True, err) \<Rightarrow> (True, err)
       | (False, err) \<Rightarrow> (False, if err = [] then ''connect: no addresses'' else err)))"

section \<open>Sending the request\<close>

definition hop_header :: "string \<Rightarrow> bool" where
  "hop_header n \<longleftrightarrow> n \<in> {''Host'', ''Connection'', ''Keep-Alive'', ''Proxy-Connection'',
     ''Transfer-Encoding'', ''Content-Length''}"

fun forwarded_lines :: "headers \<Rightarrow> string" where
  "forwarded_lines [] = []"
| "forwarded_lines (kv # h) =
     (if hop_header (fst kv) then forwarded_lines h
      else fst kv @ '': '' @ snd kv @ crlf @ forwarded_lines h)"

definition origin_request :: "http_request \<Rightarrow> origin_target \<Rightarrow> string" where
  "origin_request req target =
     req_method req @ '' '' @ req_target req @ '' HTTP/1.0'' @ crlf @
     ''Host: '' @ ot_host target @ crlf @
     forwarded_lines (req_headers req) @
     ''X-Forwarded-Proto: http'' @ crlf @
     ''Connection: close'' @ crlf @ crlf @
     (if req_body req \<noteq> [] then req_body req else [])"

text \<open>The loop of \<^verbatim>\<open>RedisConnection::writeAll\<close> again: whether everything was sent, and what was.\<close>

definition sendAll :: "string \<Rightarrow> send_event list \<Rightarrow> bool \<times> string" where
  "sendAll data es = (case send_loop data es of (ok, out, _) \<Rightarrow> (ok, out))"

section \<open>Receiving the answer\<close>

text \<open>\<open>Chunk []\<close> is the end of the stream, \<open>Silence\<close> a pause longer than any timeout.\<close>

datatype recv_event = Chunk string | Silence | Interrupted | RecvFailed string

datatype recv_result = Whole string | TimedOut | Broken string

fun recv_size :: "recv_event \<Rightarrow> nat" where
  "recv_size (Chunk s) = Suc (length s)"
| "recv_size _ = 1"

text \<open>A timeout that is not positive sets none (zero means none, a negative one is refused).\<close>

function recv_loop :: "int \<Rightarrow> recv_event list \<Rightarrow> string \<Rightarrow> recv_result option" where
  "recv_loop t [] raw = (if t \<le> 0 then None else Some TimedOut)"
| "recv_loop t (Silence # es) raw = (if t \<le> 0 then recv_loop t es raw else Some TimedOut)"
| "recv_loop t (Interrupted # es) raw = recv_loop t es raw"
| "recv_loop t (RecvFailed e # es) raw = Some (Broken e)"
| "recv_loop t (Chunk s # es) raw =
     (if s = [] then Some (Whole raw) else
      let raw = raw @ take 16384 s in
      if 32 * 1024 * 1024 < length raw then Some (Whole raw)
      else recv_loop t (if drop 16384 s = [] then es else Chunk (drop 16384 s) # es) raw)"
  by pat_completeness auto
termination
  by (relation "measure (\<lambda>(t, es, raw). sum_list (map recv_size es))") auto

lemmas recv_chunk_step = recv_loop.simps(5)

declare recv_chunk_step [simp del]

section \<open>Parsing the answer\<close>

text \<open>\<^verbatim>\<open>stream >> status\<close>: the value, and the unread rest unless the fail bit is set.\<close>

definition extract_int :: "string \<Rightarrow> int \<times> string option" where
  "extract_int s =
     (let t = dropWhile isspace s;
          neg = (t \<noteq> [] \<and> hd t = CHR ''-'');
          u = (if t \<noteq> [] \<and> (hd t = CHR ''-'' \<or> hd t = CHR ''+'') then tl t else t);
          ds = takeWhile isdigit u;
          i = (if neg then - int (digits_val ds) else int (digits_val ds))
      in if ds = [] then (0, None)
         else if i < - (2 ^ 31) then (- (2 ^ 31), None)
         else if 2 ^ 31 \<le> i then (2 ^ 31 - 1, None)
         else (i, Some (drop (length ds) u)))"

definition origin_reason :: "string option \<Rightarrow> string" where
  "origin_reason rest =
     (let reason = (case rest of None \<Rightarrow> [] | Some r \<Rightarrow> (case getline LF r of None \<Rightarrow> [] | Some (l, _) \<Rightarrow> l));
          reason = (if reason \<noteq> [] \<and> hd reason = CHR '' '' then tl reason else reason)
      in strip_cr reason)"

definition status_line :: "string \<Rightarrow> int \<times> string" where
  "status_line line =
     (let (status, rest) = (case next_token line of None \<Rightarrow> (0, None) | Some (version, r) \<Rightarrow> extract_int r)
      in (if status \<noteq> 0 then status else 502, origin_reason rest))"

definition framing_name :: "string \<Rightarrow> bool" where
  "framing_name n \<longleftrightarrow> n \<in> {''Connection'', ''Transfer-Encoding'', ''Content-Length'', ''Keep-Alive''}"

function origin_headers :: "headers \<Rightarrow> string \<Rightarrow> headers" where
  "origin_headers h s =
     (case getline LF s of None \<Rightarrow> h
      | Some (l, r) \<Rightarrow>
         (let line = strip_cr l in
          if line = [] then h
          else (case find_char CHR '':'' line of None \<Rightarrow> origin_headers h r
            | Some colon \<Rightarrow>
               (let name = take colon line; value = dropWhile blank (drop (colon + 1) line)
                in origin_headers (if framing_name name then h else hset h name value) r))))"
  by pat_completeness auto
termination
  by (relation "measure (\<lambda>(h, s). length s)") (auto dest: getline_length)

declare origin_headers.simps [simp del]

definition parseResponse :: "string \<Rightarrow> http_response option" where
  "parseResponse raw = (case find_sub (crlf @ crlf) raw of
     None \<Rightarrow> None
   | Some headerEnd \<Rightarrow> (case getline LF (take headerEnd raw) of
         None \<Rightarrow> None
       | Some (line, rest) \<Rightarrow>
           (let (status, reason) = status_line (strip_cr line) in
            Some \<lparr>resp_status = status, resp_reason = reason, resp_version = ''HTTP/1.1'',
              resp_headers = origin_headers [] rest, resp_body = drop (headerEnd + 4) raw\<rparr>)))"

section \<open>Fetching\<close>

record origin_net =
  on_dial :: "string + dial list"
  on_sends :: "send_event list"
  on_recv :: "recv_event list"

text \<open>The result, and the bytes the origin was sent.\<close>

definition http_fetch :: "origin_net \<Rightarrow> http_request \<Rightarrow> origin_target \<Rightarrow> (origin_result \<times> string) option" where
  "http_fetch net req target = (case connectWithTimeout (on_dial net) of
     (False, err) \<Rightarrow> Some (no_result\<lparr>or_error := err, or_timedOut := find_sub ''timeout'' err \<noteq> None\<rparr>, [])
   | (True, err) \<Rightarrow> (case sendAll (origin_request req target) (on_sends net) of
         (False, out) \<Rightarrow> Some (no_result\<lparr>or_error := ''send failed''\<rparr>, out)
       | (True, out) \<Rightarrow> (case recv_loop (ot_readMs target) (on_recv net) [] of
             None \<Rightarrow> None
           | Some TimedOut \<Rightarrow> Some (no_result\<lparr>or_timedOut := True, or_error := ''read timeout''\<rparr>, out)
           | Some (Broken e) \<Rightarrow> Some (no_result\<lparr>or_error := ''recv: '' @ e\<rparr>, out)
           | Some (Whole raw) \<Rightarrow> (case parseResponse raw of
                 None \<Rightarrow> Some (no_result\<lparr>or_error := ''malformed origin response''\<rparr>, out)
               | Some resp \<Rightarrow> Some (no_result\<lparr>or_response := resp, or_ok := True\<rparr>, out)))))"

section \<open>What the calls give\<close>

lemma send_loop_prefix: "send_loop data es = (ok, out, es') \<Longrightarrow> prefix out data \<and> (ok \<longrightarrow> out = data)"
proof (induction es arbitrary: data ok out es')
  case (Cons e es)
  show ?case
  proof (cases "\<exists>n. e = Sent (Suc n) \<and> data \<noteq> []")
    case True
    then obtain n where e: "e = Sent (Suc n)" "data \<noteq> []" by blast
    obtain ok1 out1 es1 where r: "send_loop (drop (Suc n) data) es = (ok1, out1, es1)" by (metis prod_cases3)
    have "prefix out1 (drop (Suc n) data)" "ok1 \<longrightarrow> out1 = drop (Suc n) data"
      using Cons.IH [OF r] by simp_all
    moreover have "ok = ok1" "out = take (Suc n) data @ out1" using Cons.prems e r by simp_all
    ultimately show ?thesis by (metis append_take_drop_id same_prefix_prefix)
  next
    case False
    then have "data = [] \<or> e = SendIntr \<or> e = SendFail \<or> e = Sent 0"
      by (cases e) (auto simp: gr0_conv_Suc)
    then show ?thesis
      using Cons.prems Cons.IH by (auto split: if_splits)
  qed
qed simp

lemma recv_loop_returns: "0 < t \<Longrightarrow> \<exists>r. recv_loop t es raw = Some r"
  by (induction t es raw rule: recv_loop.induct) (auto simp: recv_chunk_step Let_def)

text \<open>Events that only bring bytes, however they are cut and whatever interrupts the reading.\<close>

fun chunk_bytes :: "recv_event \<Rightarrow> string" where
  "chunk_bytes (Chunk s) = s"
| "chunk_bytes _ = []"

definition arriving :: "recv_event \<Rightarrow> bool" where
  "arriving e \<longleftrightarrow> e = Interrupted \<or> (\<exists>s. s \<noteq> [] \<and> e = Chunk s)"

definition arrives :: "recv_event list \<Rightarrow> string \<Rightarrow> bool" where
  "arrives es s \<longleftrightarrow> list_all arriving es \<and> concat (map chunk_bytes es) = s"

lemma recv_chunk:
  assumes "length raw + length s \<le> 32 * 1024 * 1024"
  shows "s \<noteq> [] \<Longrightarrow> recv_loop t (Chunk s # es) raw = recv_loop t es (raw @ s)"
  using assms
proof (induction "length s" arbitrary: s raw rule: less_induct)
  case less
  have small: "\<not> 32 * 1024 * 1024 < length (raw @ take 16384 s)" using less.prems(2) by simp
  show ?case
  proof (cases "drop 16384 s = []")
    case True
    with less.prems(1) small show ?thesis by (simp add: recv_chunk_step Let_def)
  next
    case False
    then have "recv_loop t (Chunk (drop 16384 s) # es) (raw @ take 16384 s) =
        recv_loop t es ((raw @ take 16384 s) @ drop 16384 s)"
      using less.prems by (intro less.hyps) auto
    with False less.prems(1) small show ?thesis by (simp add: recv_chunk_step Let_def)
  qed
qed

lemma recv_loop_whole:
  "list_all arriving es \<Longrightarrow> length raw + length (concat (map chunk_bytes es)) \<le> 32 * 1024 * 1024 \<Longrightarrow>
     recv_loop t (es @ Chunk [] # fs) raw = Some (Whole (raw @ concat (map chunk_bytes es)))"
proof (induction es arbitrary: raw)
  case (Cons e es)
  then show ?case
    using recv_chunk [of raw "chunk_bytes e" t "es @ Chunk [] # fs"] by (auto simp: arriving_def)
qed (simp add: recv_chunk_step)

section \<open>Reading a well-formed answer\<close>

definition wire_response :: "string \<Rightarrow> int \<Rightarrow> string \<Rightarrow> headers \<Rightarrow> string \<Rightarrow> string" where
  "wire_response v status reason hs body =
     line_block ((v @ '' '' @ show_int status @ '' '' @ reason) # map header_line hs) @ crlf @ body"

definition reason_ok :: "string \<Rightarrow> bool" where
  "reason_ok r \<longleftrightarrow> LF \<notin> set r \<and> (r = [] \<or> last r \<noteq> CR)"

lemma digits_number:
  assumes "s = show_nat n @ r" "r = [] \<or> \<not> isdigit (hd r)"
  shows "takeWhile isdigit s = show_nat n" "drop (length (show_nat n)) s = r"
    "dropWhile isspace s = s" "s \<noteq> []" "hd s \<noteq> CHR ''-''" "hd s \<noteq> CHR ''+''"
proof -
  obtain d e where de: "show_nat n = d # e" by (cases "show_nat n") auto
  have d: "isdigit d" using show_nat_hd [of n] de by simp
  have "takeWhile isdigit r = []" using assms(2) by (cases r) auto
  then show "takeWhile isdigit s = show_nat n"
    using assms(1) show_nat_digits [of n] by (simp add: takeWhile_append)
  show "drop (length (show_nat n)) s = r" using assms(1) by simp
  show "dropWhile isspace s = s" "s \<noteq> []" "hd s \<noteq> CHR ''-''" "hd s \<noteq> CHR ''+''"
    using assms(1) de d isdigit_not_space [OF d] isdigit_not_sign [OF d] by simp_all
qed

lemma extract_int_number:
  assumes "0 \<le> i" "i < 2 ^ 31"
  shows "extract_int (CHR '' '' # show_int i @ CHR '' '' # r) = (i, Some (CHR '' '' # r))"
proof -
  let ?s = "show_nat (nat i) @ CHR '' '' # r"
  have "CHR '' '' # r = [] \<or> \<not> isdigit (hd (CHR '' '' # r))" by (simp add: isdigit_def)
  note d = digits_number [OF refl this, of "nat i"]
  have "dropWhile isspace (CHR '' '' # ?s) = ?s" using d(3) by (simp add: isspace_def)
  moreover have "\<not> i < - (2 ^ 31)" "\<not> 2 ^ 31 \<le> i" using assms by simp_all
  ultimately show ?thesis
    using assms(1) d unfolding extract_int_def Let_def show_int_def by simp
qed

lemma status_line_read:
  assumes "token v" "0 < i" "i < 2 ^ 31" "reason_ok r"
  shows "status_line (v @ '' '' @ show_int i @ '' '' @ r) = (i, r)"
proof -
  have "origin_reason (Some (CHR '' '' # r)) = r"
    using assms(4) getline_last [of "CHR '' '' # r"]
    by (auto simp: origin_reason_def reason_ok_def strip_cr_def)
  then show ?thesis
    using assms(1-3) extract_int_number [of i r]
    by (simp add: status_line_def next_token_here)
qed

lemma LF_not_minus [simp]: "LF \<noteq> CHR ''-''"
  by code_simp

lemma status_line_plain:
  assumes "token v" "reason_ok r"
  shows "plain_line (v @ '' '' @ show_int i @ '' '' @ r)"
    "strip_cr (v @ '' '' @ show_int i @ '' '' @ r) = v @ '' '' @ show_int i @ '' '' @ r"
  using assms token_not [OF assms(1)]
  by (auto simp: plain_line_def reason_ok_def strip_cr_def show_int_def)

lemma dropWhile_clean: "clean x \<Longrightarrow> dropWhile blank (CHR '' '' # x) = x"
  by (cases x) (auto simp: clean_def)

lemma origin_headers_lines:
  "\<forall>kv \<in> set hs. header_ok kv \<Longrightarrow> origin_headers h (join_lines (map header_line hs)) =
     omap_sets ci_less h (filter (\<lambda>kv. \<not> framing_name (fst kv)) hs)"
proof (induction hs arbitrary: h)
  case Nil
  then show ?case by (simp add: origin_headers.simps)
next
  case (Cons kv hs)
  then have ok: "header_ok kv" by simp
  note p = header_line_parts [OF ok]
  have v: "take (length (fst kv)) (header_line kv) = fst kv"
    "dropWhile blank (drop (length (fst kv) + 1) (header_line kv)) = snd kv"
    using ok dropWhile_clean [of "snd kv"] by (simp_all add: header_line_def header_ok_def)
  obtain r where r: "r = header_line kv \<or> r = header_line kv @ [CR]"
    and g: "getline LF (join_lines (map header_line (kv # hs))) = Some (r, join_lines (map header_line hs))"
    using getline_join [OF p(1), of "map header_line hs"] by (cases hs) auto
  from r p(2) have "strip_cr r = header_line kv" by auto
  moreover have "header_line kv \<noteq> []" by (simp add: header_line_def)
  ultimately show ?case using g p(3) v Cons
    by (subst origin_headers.simps) (simp add: Let_def)
qed

lemma parseResponse_wire:
  assumes "token v" "0 < i" "i < 2 ^ 31" "reason_ok r" "\<forall>kv \<in> set hs. header_ok kv"
  shows "parseResponse (wire_response v i r hs body) =
    Some \<lparr>resp_status = i, resp_reason = r, resp_version = ''HTTP/1.1'',
      resp_headers = omap_sets ci_less [] (filter (\<lambda>kv. \<not> framing_name (fst kv)) hs), resp_body = body\<rparr>"
proof -
  let ?l0 = "v @ '' '' @ show_int i @ '' '' @ r"
  let ?ls = "?l0 # map header_line hs"
  let ?buf = "wire_response v i r hs body"
  let ?e = "length (line_block ?ls) - 2"
  have buf: "?buf = line_block ?ls @ crlf @ body" by (simp add: wire_response_def)
  have plain: "plain_line ?l0" by (rule status_line_plain(1) [OF assms(1,4)])
  have "\<forall>l \<in> set ?ls. plain_line l" using plain assms(5) header_line_parts(1) by auto
  then have e: "find_sub (crlf @ crlf) ?buf = Some ?e" unfolding buf by (rule find_end_block)
  have tk: "take ?e ?buf = join_lines ?ls" unfolding buf by (rule take_line_block)
  obtain l where l: "l = ?l0 \<or> l = ?l0 @ [CR]"
    and g: "getline LF (join_lines ?ls) = Some (l, join_lines (map header_line hs))"
    using getline_join [OF plain, of "map header_line hs"] by (cases hs) auto
  have "strip_cr l = ?l0" using l status_line_plain(2) [OF assms(1,4)] strip_cr_snoc [of ?l0] by metis
  then have st: "status_line (strip_cr l) = (i, r)" using status_line_read [OF assms(1-4)] by simp
  have "?e + 4 = length (line_block ?ls @ crlf)" by (simp add: crlf_def)
  then have d: "drop (?e + 4) ?buf = body" unfolding buf by (metis append.assoc append_eq_conv_conj)
  show ?thesis
    unfolding parseResponse_def e option.case tk g prod.case st Let_def d origin_headers_lines [OF assms(5)] ..
qed

section \<open>Properties\<close>


text \<open>C19: an answer is read for what it says: the status, the reason and every header that does not
  frame the message, wherever the network cuts the stream, and the body is all that arrives before
  the origin closes the connection. The length the origin announced is not compared with it, so a
  connection that breaks in the middle of a body is a good answer with the part that came.\<close>

theorem origin_answer_read:
  assumes "fst (connectWithTimeout (on_dial net))" "on_sends net = []"
    and "token v" "0 < i" "i < 2 ^ 31" "reason_ok r" "\<forall>kv \<in> set hs. header_ok kv"
    and "on_recv net = es @ Chunk [] # fs" "arrives es (wire_response v i r hs body)"
    and "length (wire_response v i r hs body) \<le> 32 * 1024 * 1024"
  shows "http_fetch net req target = Some (no_result\<lparr>or_ok := True,
    or_response := \<lparr>resp_status = i, resp_reason = r, resp_version = ''HTTP/1.1'',
      resp_headers = omap_sets ci_less [] (filter (\<lambda>kv. \<not> framing_name (fst kv)) hs), resp_body = body\<rparr>\<rparr>,
    origin_request req target)"
proof -
  have "recv_loop (ot_readMs target) (on_recv net) [] = Some (Whole (wire_response v i r hs body))"
    using recv_loop_whole [of es "[]"] assms(8-10) by (simp add: arrives_def)
  moreover obtain e where "connectWithTimeout (on_dial net) = (True, e)"
    using assms(1) by (metis prod.collapse)
  ultimately show ?thesis
    using parseResponse_wire [OF assms(3-7), of body] assms(2)
    by (simp add: http_fetch_def sendAll_def)
qed

lemma forwarded_lines_block:
  "forwarded_lines hs = line_block (map header_line (filter (\<lambda>kv. \<not> hop_header (fst kv)) hs))"
  by (induction hs) (auto simp: header_line_def)

definition forwarded :: "http_request \<Rightarrow> origin_target \<Rightarrow> headers" where
  "forwarded req target = (''Host'', ot_host target) # filter (\<lambda>kv. \<not> hop_header (fst kv)) (req_headers req) @
     [(''X-Forwarded-Proto'', ''http''), (''Connection'', ''close'')]"

lemma origin_request_wire: "origin_request req target =
    wire_request (req_method req) (req_target req) ''HTTP/1.0'' (forwarded req target) [] @ req_body req"
  by (simp add: origin_request_def wire_request_def forwarded_def forwarded_lines_block header_line_def line_block_def)

text \<open>What an HTTP server reads from the bytes sent for a request (its parser being the proxy's own)
  is the client's method and target under HTTP/1.0, with exactly the forwarded headers, and no
  body: the length is not forwarded, so the bytes of a body stand behind the end of the message.\<close>

theorem origin_reads_request:
  assumes "token (req_method req)" "token (req_target req)"
    and "\<forall>kv \<in> set (req_headers req). header_ok kv" "LF \<notin> set (ot_host target)" "clean (ot_host target)"
    and "hfind (omap_sets ci_less [] (forwarded req target)) ''Transfer-Encoding'' = None"
    and "hfind (omap_sets ci_less [] (forwarded req target)) ''Content-Length'' = None"
    and "length (origin_request req target) < 2 ^ 64"
  shows "\<exists>r. parse (origin_request req target) = (Complete r, req_body req) \<and>
    req_method r = req_method req \<and> req_target r = req_target req \<and> req_version r = ''HTTP/1.0'' \<and>
    req_body r = [] \<and> req_headers r = omap_sets ci_less [] (forwarded req target)"
proof -
  have v: "token ''HTTP/1.0''" by code_simp
  have "header_ok (''X-Forwarded-Proto'', ''http'')" "header_ok (''Connection'', ''close'')" by code_simp+
  moreover have "CHR '':'' \<notin> set ''Host''" "LF \<notin> set ''Host''" "clean ''Host''" by code_simp+
  then have "header_ok (''Host'', ot_host target)" using assms(4,5) unfolding header_ok_def by simp
  ultimately have hs: "\<forall>kv \<in> set (forwarded req target). header_ok kv"
    using assms(3) by (auto simp: forwarded_def)
  have "parse (origin_request req target) = (Complete (split_target (empty_request\<lparr>req_method := req_method req,
      req_target := req_target req, req_version := ''HTTP/1.0'',
      req_headers := omap_sets ci_less [] (forwarded req target), req_body := []\<rparr>)), req_body req)"
    unfolding origin_request_wire
    using assms(7,8) by (intro parse_wire_request [OF assms(1,2) v hs assms(6), of 0])
      (simp_all add: content_length_def origin_request_wire)
  then show ?thesis by (simp add: split_target_fields)
qed

section \<open>Concrete runs\<close>

definition target0 :: origin_target where
  "target0 = \<lparr>ot_host = ''origin'', ot_port = 80, ot_connectMs = 2000, ot_readMs = 5000\<rparr>"

definition upload :: http_request where
  "upload = empty_request\<lparr>req_method := ''POST'', req_target := ''/a?x=1'', req_body := ''hi'',
     req_headers := [(''Accept'', ''any''), (''Content-Length'', ''2''), (''Host'', ''edge'')]\<rparr>"

definition cut_answer :: origin_net where
  "cut_answer = \<lparr>on_dial = Inr [DialFail ''refused'', Pending (Writable None)], on_sends = [],
     on_recv = [Chunk (wire_response ''HTTP/1.1'' 200 ''OK'' [(''ETag'', ''x''), (''Content-Length'', ''10'')] ''hal''),
       Interrupted, Chunk ''f'', Chunk []]\<rparr>"


theorem origin_answer_read_witness:
  "\<exists>r. http_fetch cut_answer upload target0 = Some (r, origin_request upload target0) \<and>
     or_ok r \<and> resp_body (or_response r) = ''half''"
proof -
  let ?hs = "[(''ETag'', ''x''), (''Content-Length'', ''10'')]"
  let ?es = "[Chunk (wire_response ''HTTP/1.1'' 200 ''OK'' ?hs ''hal''), Interrupted, Chunk ''f'']"
  have c: "fst (connectWithTimeout (on_dial cut_answer))" "on_sends cut_answer = []"
    "token ''HTTP/1.1''" "(0 :: int) < 200" "(200 :: int) < 2 ^ 31" "reason_ok ''OK''" "\<forall>kv \<in> set ?hs. header_ok kv"
    by code_simp+
  have r: "on_recv cut_answer = ?es @ Chunk [] # []" by (simp add: cut_answer_def)
  have a: "arrives ?es (wire_response ''HTTP/1.1'' 200 ''OK'' ?hs ''half'')"
    "length (wire_response ''HTTP/1.1'' 200 ''OK'' ?hs ''half'') \<le> 32 * 1024 * 1024"
    by (simp_all add: arrives_def arriving_def wire_response_def) code_simp
  from origin_answer_read [OF c r a, of upload target0] show ?thesis by simp
qed

theorem origin_reads_request_witness:
  "\<exists>r. parse (origin_request upload target0) = (Complete r, ''hi'') \<and> req_method r = ''POST'' \<and> req_body r = []"
proof -
  have "token (req_method upload)" "token (req_target upload)" "\<forall>kv \<in> set (req_headers upload). header_ok kv"
    "LF \<notin> set (ot_host target0)" "clean (ot_host target0)"
    "hfind (omap_sets ci_less [] (forwarded upload target0)) ''Transfer-Encoding'' = None"
    "hfind (omap_sets ci_less [] (forwarded upload target0)) ''Content-Length'' = None"
    "length (origin_request upload target0) < 2 ^ 64"
    by code_simp+
  moreover have "req_body upload = ''hi''" "req_method upload = ''POST''" by (simp_all add: upload_def)
  ultimately show ?thesis using origin_reads_request [of upload target0] by metis
qed

end
