(* ===== verification/Listener.thy ===== *)
theory Listener
  imports Prelude
begin

text \<open>
  \<^verbatim>\<open>net/Listener\<close>: making a listening socket. The answers of the system calls are the record
  \<open>listen_env\<close>: an error carries the text of \<^verbatim>\<open>strerror\<close>, and \<open>le_pton\<close> is
  \<^verbatim>\<open>inet_pton\<close>. The socket the function makes is its only state.
\<close>

section \<open>The socket\<close>

text \<open>\<open>sk_flags\<close> are the status flags, \<open>sk_bound\<close> the address and port.\<close>

record sock =
  sk_open :: bool
  sk_flags :: "32 word"
  sk_bound :: "(32 word \<times> 16 word) option"
  sk_backlog :: "nat option"

record listen_env =
  le_socket :: "string option"
  le_flags0 :: "32 word"
  le_reusePort :: "string option"
  le_pton :: "string \<Rightarrow> 32 word option"
  le_bind :: "32 word \<Rightarrow> 16 word \<Rightarrow> string option"
  le_listen :: "string option"
  le_getfl :: bool
  le_setfl :: bool

definition O_NONBLOCK :: "32 word" where "O_NONBLOCK = 2048"

definition setNonBlocking :: "listen_env \<Rightarrow> bool \<Rightarrow> sock \<Rightarrow> bool \<times> sock" where
  "setNonBlocking e nb s =
     (if \<not> le_getfl e then (False, s)
      else let flags = (if nb then or (sk_flags s) O_NONBLOCK else and (sk_flags s) (not O_NONBLOCK)) in
        if le_setfl e then (True, s\<lparr>sk_flags := flags\<rparr>) else (False, s))"

definition close_sock :: "sock \<Rightarrow> sock" where
  "close_sock s = s\<lparr>sk_open := False\<rparr>"

definition bind_address :: "(string \<Rightarrow> 32 word option) \<Rightarrow> string \<Rightarrow> 32 word" where
  "bind_address pton host =
     (if host = [] \<or> host = ''0.0.0.0'' then 0 else (case pton host of None \<Rightarrow> 0 | Some a \<Rightarrow> a))"

text \<open>Whether a descriptor is returned (and not \<open>-1\<close>), the error text and the socket, if one was made.\<close>

definition createReusePortListener :: "listen_env \<Rightarrow> string \<Rightarrow> 16 word \<Rightarrow> bool \<times> string \<times> sock option" where
  "createReusePortListener e host port = (case le_socket e of
     Some msg \<Rightarrow> (False, ''socket: '' @ msg, None)
   | None \<Rightarrow>
       (let s = \<lparr>sk_open = True, sk_flags = le_flags0 e, sk_bound = None, sk_backlog = None\<rparr> in
        case le_reusePort e of
          Some msg \<Rightarrow> (False, ''SO_REUSEPORT: '' @ msg, Some (close_sock s))
        | None \<Rightarrow>
            (let a = bind_address (le_pton e) host in
             case le_bind e a port of
               Some msg \<Rightarrow> (False, ''bind: '' @ msg, Some (close_sock s))
             | None \<Rightarrow>
                 (let s = s\<lparr>sk_bound := Some (a, port)\<rparr> in
                  case le_listen e of
                    Some msg \<Rightarrow> (False, ''listen: '' @ msg, Some (close_sock s))
                  | None \<Rightarrow>
                      (case setNonBlocking e True (s\<lparr>sk_backlog := Some 1024\<rparr>) of
                         (False, s) \<Rightarrow> (False, ''set nonblocking failed'', Some (close_sock s))
                       | (True, s) \<Rightarrow> (True, [], Some s))))))"

section \<open>What the callers get\<close>

text \<open>A descriptor is returned exactly with an open socket that listens without blocking on the wanted
  port; every failure names its call and leaves no socket open.\<close>

lemma listener_result:
  assumes "createReusePortListener e host port = (ok, err, s)"
  shows "if ok then err = [] \<and> (\<exists>k. s = Some k \<and> sk_open k \<and> bit (sk_flags k) 11 \<and> sk_backlog k = Some 1024 \<and>
      sk_bound k = Some (bind_address (le_pton e) host, port))
    else err \<noteq> [] \<and> (\<forall>k. s = Some k \<longrightarrow> \<not> sk_open k)"
proof -
  have "bit (or w O_NONBLOCK) 11" for w by (simp add: bit_simps O_NONBLOCK_def)
  then show ?thesis
    using assms
    by (auto simp: createReusePortListener_def setNonBlocking_def close_sock_def Let_def
        split: option.splits prod.splits bool.splits if_splits)
qed

text \<open>A host that is not a dotted address, such as a name, listens on every interface.\<close>

lemma unreadable_host_binds_all: "le_pton e host = None \<Longrightarrow> bind_address (le_pton e) host = 0"
  by (simp add: bind_address_def)

end
