(* ===== verification/EventLoop.thy ===== *)
theory EventLoop
  imports Http Listener
begin

text \<open>
  \<^verbatim>\<open>net/EventLoop\<close>: one worker's connections. What the kernel reports is the environment: the
  results of \<^verbatim>\<open>recv\<close>, \<^verbatim>\<open>send\<close>, \<^verbatim>\<open>accept\<close> and \<^verbatim>\<open>epoll_wait\<close> are lists of events, and
  \<open>ec_sent\<close> is the byte stream a client has been given. The callback \<^verbatim>\<open>requestFn_\<close> is an argument
  that threads a state; it may not return (\<open>None\<close>). The loop over the requests in a buffer may
  not end either, so it is a \<^theory_text>\<open>partial_function\<close>, and \<open>None\<close> is a worker that hangs.
\<close>

section \<open>Connections\<close>

text \<open>\<open>ec_want\<close> is the interest in writability registered with epoll.\<close>

record econn =
  ec_buf :: string
  ec_out :: string
  ec_off :: nat
  ec_close :: bool
  ec_want :: bool
  ec_sent :: string

definition new_econn :: econn where
  "new_econn = \<lparr>ec_buf = [], ec_out = [], ec_off = 0, ec_close = False, ec_want = False, ec_sent = []\<rparr>"

text \<open>One result of \<^verbatim>\<open>recv\<close>; when nothing more is listed the call would block.\<close>

datatype read_event = Got string | ReadIntr | ReadBlock | ReadFail

fun read_loop :: "read_event list \<Rightarrow> string \<Rightarrow> bool \<times> string" where
  "read_loop [] buf = (False, buf)"
| "read_loop (Got s # es) buf = (if s = [] then (True, buf) else read_loop es (feed buf s))"
| "read_loop (ReadIntr # es) buf = read_loop es buf"
| "read_loop (ReadBlock # es) buf = (False, buf)"
| "read_loop (ReadFail # es) buf = (True, buf)"

text \<open>One result of \<^verbatim>\<open>send\<close>; when nothing more is listed the kernel takes all that is left.\<close>

datatype write_event = Took nat | WriteIntr | WriteBlock | WriteFail

datatype flush_end = Flushed | Blocked | Broke

definition took :: "nat \<Rightarrow> econn \<Rightarrow> econn" where
  "took n c = (let m = min n (length (ec_out c) - ec_off c) in
     c\<lparr>ec_off := ec_off c + m, ec_sent := ec_sent c @ take m (drop (ec_off c) (ec_out c))\<rparr>)"

fun flush_loop :: "write_event list \<Rightarrow> econn \<Rightarrow> flush_end \<times> econn" where
  "flush_loop [] c = (Flushed, if ec_off c < length (ec_out c) then took (length (ec_out c)) c else c)"
| "flush_loop (e # es) c =
     (if ec_off c < length (ec_out c)
      then (case e of
          Took n \<Rightarrow> if n = 0 then (Broke, c) else flush_loop es (took n c)
        | WriteIntr \<Rightarrow> flush_loop es c
        | WriteBlock \<Rightarrow> (Blocked, c)
        | WriteFail \<Rightarrow> (Broke, c))
      else (Flushed, c))"

definition updateEpollOut :: "bool \<Rightarrow> econn \<Rightarrow> econn" where
  "updateEpollOut wantWrite c = c\<lparr>ec_want := wantWrite\<rparr>"

declare updateEpollOut_def [simp]

text \<open>Whether the connection is still open, and what became of it.\<close>

definition flush :: "write_event list \<Rightarrow> econn \<Rightarrow> bool \<times> econn" where
  "flush es c = (case flush_loop es c of
     (Blocked, c) \<Rightarrow> (True, updateEpollOut True c)
   | (Broke, c) \<Rightarrow> (False, c)
   | (Flushed, c) \<Rightarrow> (let c = updateEpollOut False (c\<lparr>ec_out := [], ec_off := 0\<rparr>) in (\<not> ec_close c, c)))"

section \<open>Requests\<close>

type_synonym 's request_fn = "http_request \<Rightarrow> 's \<Rightarrow> (http_response \<times> 's) option"

definition bad_request :: http_response where
  "bad_request = simple 400 ''Bad Request'' (''bad request'' @ [LF]) ''text/plain''"

partial_function (option) request_loop :: "'s request_fn \<Rightarrow> string \<Rightarrow> string \<Rightarrow> bool \<Rightarrow> 's \<Rightarrow>
    (string \<times> string \<times> bool \<times> 's) option" where
  "request_loop f buf out cl s = (case parse buf of
     (NeedMore, buf) \<Rightarrow> Some (buf, out, cl, s)
   | (ParseError, buf) \<Rightarrow> Some (buf, out @ serialize bad_request False, True, s)
   | (Complete req, buf) \<Rightarrow> (case f req s of
         None \<Rightarrow> None
       | Some (resp, s) \<Rightarrow>
           (if \<not> keepAlive req then Some (buf, out @ serialize resp (keepAlive req), True, s)
            else request_loop f buf (out @ serialize resp (keepAlive req)) cl s)))"

definition onReadable :: "'s request_fn \<Rightarrow> read_event list \<Rightarrow> write_event list \<Rightarrow> econn \<Rightarrow> 's \<Rightarrow>
    ((bool \<times> econn) \<times> 's) option" where
  "onReadable f reads writes c s =
     (let (peerClosed, buf) = read_loop reads (ec_buf c) in
      case request_loop f buf (ec_out c) (ec_close c) s of
        None \<Rightarrow> None
      | Some (buf, out, cl, s) \<Rightarrow>
          (let (alive, c) = flush writes (c\<lparr>ec_buf := buf, ec_out := out, ec_close := cl\<rparr>) in
           Some ((alive \<and> \<not> (peerClosed \<and> ec_out c = []), c), s)))"

section \<open>The loop\<close>

text \<open>The connections by descriptor. A closed one is erased.\<close>

type_synonym conns = "int \<Rightarrow> econn option"

datatype accept_event = Accepted int bool | AcceptIntr | AcceptBlock | AcceptFail

fun accept_loop :: "accept_event list \<Rightarrow> conns \<Rightarrow> conns" where
  "accept_loop [] m = m"
| "accept_loop (Accepted fd added # es) m =
     accept_loop es (if added then m(fd \<mapsto> (case m fd of None \<Rightarrow> new_econn | Some c \<Rightarrow> c)) else m)"
| "accept_loop (AcceptIntr # es) m = accept_loop es m"
| "accept_loop (AcceptBlock # es) m = m"
| "accept_loop (AcceptFail # es) m = m"

definition keep_conn :: "int \<Rightarrow> bool \<times> econn \<Rightarrow> conns \<Rightarrow> conns" where
  "keep_conn fd r m = (if fst r then m(fd \<mapsto> snd r) else m(fd := None))"

text \<open>What epoll reports of one descriptor: an error or hang-up, what the socket will take if it is
  writable, and what it will give (and then take) if it is readable.\<close>

datatype ready_event = Listening "accept_event list"
  | Ready int bool "write_event list option" "(read_event list \<times> write_event list) option"

definition ready_in :: "'s request_fn \<Rightarrow> int \<Rightarrow> (read_event list \<times> write_event list) option \<Rightarrow>
    conns \<times> 's \<Rightarrow> (conns \<times> 's) option" where
  "ready_in f fd input st = (case input of None \<Rightarrow> Some st
     | Some (reads, writes) \<Rightarrow> (case fst st fd of None \<Rightarrow> Some st
       | Some c \<Rightarrow> (case onReadable f reads writes c (snd st) of None \<Rightarrow> None
         | Some (r, s) \<Rightarrow> Some (keep_conn fd r (fst st), s))))"

definition ready_out :: "int \<Rightarrow> write_event list option \<Rightarrow> conns \<times> 's \<Rightarrow> conns \<times> 's" where
  "ready_out fd output st = (case output of None \<Rightarrow> st
     | Some writes \<Rightarrow> (case fst st fd of None \<Rightarrow> st
       | Some c \<Rightarrow> (keep_conn fd (flush writes c) (fst st), snd st)))"

fun ready_step :: "'s request_fn \<Rightarrow> ready_event \<Rightarrow> conns \<times> 's \<Rightarrow> (conns \<times> 's) option" where
  "ready_step f (Listening es) st = Some (accept_loop es (fst st), snd st)"
| "ready_step f (Ready fd hup output input) st = (case fst st fd of
     None \<Rightarrow> Some st
   | Some c \<Rightarrow> (if hup then Some ((fst st)(fd := None), snd st)
       else ready_in f fd input (ready_out fd output st)))"

fun ready_steps :: "'s request_fn \<Rightarrow> ready_event list \<Rightarrow> conns \<times> 's \<Rightarrow> (conns \<times> 's) option" where
  "ready_steps f [] st = Some st"
| "ready_steps f (e # es) st = (case ready_step f e st of None \<Rightarrow> None | Some st \<Rightarrow> ready_steps f es st)"

text \<open>One round of \<^verbatim>\<open>run\<close> ends with the tick; the loop ends when the server stops or the wait fails,
  and closes every connection.\<close>

datatype turn = Turn "ready_event list" | WaitIntr | WaitFail

fun el_run :: "'s request_fn \<Rightarrow> ('s \<Rightarrow> 's) \<Rightarrow> turn list \<Rightarrow> conns \<times> 's \<Rightarrow> (conns \<times> 's) option" where
  "el_run f tick [] st = Some (\<lambda>fd. None, snd st)"
| "el_run f tick (WaitIntr # ts) st = el_run f tick ts st"
| "el_run f tick (WaitFail # ts) st = Some (\<lambda>fd. None, snd st)"
| "el_run f tick (Turn es # ts) st = (case ready_steps f es st of
     None \<Rightarrow> None
   | Some st \<Rightarrow> el_run f tick ts (fst st, tick (snd st)))"

text \<open>The whole of \<^verbatim>\<open>run\<close>: nothing is served when the listener or the epoll descriptor (\<open>epoll\<close>) cannot
  be made.\<close>

definition el_main :: "listen_env \<Rightarrow> string \<Rightarrow> 16 word \<Rightarrow> bool \<Rightarrow> 's request_fn \<Rightarrow> ('s \<Rightarrow> 's) \<Rightarrow> turn list \<Rightarrow> 's \<Rightarrow>
    (bool \<times> 's) option" where
  "el_main le host port epoll f tick ts s =
     (case createReusePortListener le host port of
        (False, err, lsock) \<Rightarrow> Some (False, s)
      | (True, err, lsock) \<Rightarrow>
          if \<not> epoll then Some (False, s)
          else (case el_run f tick ts (\<lambda>fd. None, s) of None \<Rightarrow> None | Some (m, s) \<Rightarrow> Some (True, s)))"

section \<open>Sockets\<close>

text \<open>What a list of \<^verbatim>\<open>recv\<close> results brings, and whether it ends the connection.\<close>

fun incoming :: "read_event list \<Rightarrow> string" where
  "incoming [] = []"
| "incoming (Got s # es) = (if s = [] then [] else s @ incoming es)"
| "incoming (ReadIntr # es) = incoming es"
| "incoming (ReadBlock # es) = []"
| "incoming (ReadFail # es) = []"

fun hangs_up :: "read_event list \<Rightarrow> bool" where
  "hangs_up [] = False"
| "hangs_up (Got s # es) = (s = [] \<or> hangs_up es)"
| "hangs_up (ReadIntr # es) = hangs_up es"
| "hangs_up (ReadBlock # es) = False"
| "hangs_up (ReadFail # es) = True"

lemma read_loop_incoming [simp]: "read_loop es buf = (hangs_up es, buf @ incoming es)"
  by (induction es buf rule: read_loop.induct) (auto simp: feed_def)

text \<open>What has been answered but not sent.\<close>

definition pending :: "econn \<Rightarrow> string" where
  "pending c = drop (ec_off c) (ec_out c)"

definition stream :: "econn \<Rightarrow> string" where
  "stream c = ec_sent c @ pending c"

definition econn_inv :: "econn \<Rightarrow> bool" where
  "econn_inv c \<longleftrightarrow> ec_off c \<le> length (ec_out c)"

lemma took_stream [simp]: "stream (took n c) = stream c" "ec_out (took n c) = ec_out c"
  "ec_buf (took n c) = ec_buf c" "ec_close (took n c) = ec_close c"
  by (simp_all add: took_def Let_def stream_def pending_def) (metis append_take_drop_id drop_drop add.commute)

lemma took_inv: "econn_inv c \<Longrightarrow> econn_inv (took n c)"
  by (auto simp: took_def Let_def econn_inv_def)

lemma flush_loop_frame:
  "flush_loop es c = (r, c') \<Longrightarrow> stream c' = stream c \<and> ec_out c' = ec_out c \<and> ec_buf c' = ec_buf c \<and>
     ec_close c' = ec_close c \<and> (econn_inv c \<longrightarrow> econn_inv c') \<and> (r = Flushed \<longrightarrow> length (ec_out c') \<le> ec_off c')"
proof (induction es arbitrary: c)
  case Nil
  have "length (ec_out c) \<le> ec_off (took (length (ec_out c)) c)" by (simp add: took_def Let_def)
  with Nil show ?case by (auto simp: took_inv split: if_splits)
next
  case (Cons e es)
  consider (quit) "ec_off c < length (ec_out c)" "e = WriteBlock \<or> e = WriteFail \<or> e = Took 0"
    | (empty) "\<not> ec_off c < length (ec_out c)" | (retry) "ec_off c < length (ec_out c)" "e = WriteIntr"
    | (sent) n where "ec_off c < length (ec_out c)" "e = Took n" "n \<noteq> 0"
    by (cases e) auto
  then show ?case
  proof cases
    case (sent n)
    then have "flush_loop es (took n c) = (r, c')" using Cons.prems by simp
    from Cons.IH [OF this] show ?thesis using took_inv by auto
  next
    case retry
    then have "flush_loop es c = (r, c')" using Cons.prems by simp
    then show ?thesis by (rule Cons.IH)
  qed (use Cons.prems in auto)
qed

lemma flush_frame:
  assumes "flush es c = (alive, c')"
  shows "stream c' = stream c" "ec_buf c' = ec_buf c" "ec_close c' = ec_close c" "econn_inv c \<Longrightarrow> econn_inv c'"
proof -
  obtain r c1 where r: "flush_loop es c = (r, c1)" by (metis surj_pair)
  note f = flush_loop_frame [OF r]
  have "stream c' = stream c \<and> ec_buf c' = ec_buf c \<and> ec_close c' = ec_close c \<and> (econn_inv c \<longrightarrow> econn_inv c')"
    using assms r f by (cases r) (auto simp: flush_def stream_def pending_def econn_inv_def Let_def)
  then show "stream c' = stream c" "ec_buf c' = ec_buf c" "ec_close c' = ec_close c" "econn_inv c \<Longrightarrow> econn_inv c'"
    by simp_all
qed

section \<open>The loop over requests\<close>

lemma request_loop_more: "parse buf = (NeedMore, buf') \<Longrightarrow> request_loop f buf out cl s = Some (buf', out, cl, s)"
  by (subst request_loop.simps) simp

lemma request_loop_next:
  "parse buf = (Complete r, buf') \<Longrightarrow> keepAlive r \<Longrightarrow> f r s = Some (resp, s') \<Longrightarrow>
     request_loop f buf out cl s = request_loop f buf' (out @ serialize resp True) cl s'"
  by (subst request_loop.simps) simp

text \<open>The requests of a list, answered one after the other.\<close>

fun answer_all :: "'s request_fn \<Rightarrow> http_request list \<Rightarrow> 's \<Rightarrow> (http_response list \<times> 's) option" where
  "answer_all f [] s = Some ([], s)"
| "answer_all f (r # rs) s = (case f r s of None \<Rightarrow> None
     | Some (resp, s) \<Rightarrow> (case answer_all f rs s of None \<Rightarrow> None | Some (resps, s) \<Rightarrow> Some (resp # resps, s)))"

lemma answer_all_append:
  "answer_all f (rs @ qs) s = (case answer_all f rs s of None \<Rightarrow> None
     | Some (as, s) \<Rightarrow> (case answer_all f qs s of None \<Rightarrow> None | Some (bs, s) \<Rightarrow> Some (as @ bs, s)))"
  by (induction rs arbitrary: s) (auto split: option.splits)

text \<open>A handler that answers every request in the states of \<open>I\<close>, and stays in them.\<close>

definition answers_in :: "('s \<Rightarrow> bool) \<Rightarrow> 's request_fn \<Rightarrow> bool" where
  "answers_in I f \<longleftrightarrow> (\<forall>r s. I s \<longrightarrow> (\<exists>resp s'. f r s = Some (resp, s') \<and> I s'))"

lemma answer_all_total: "answers_in I f \<Longrightarrow> I s \<Longrightarrow> \<exists>rs' s'. answer_all f rs s = Some (rs', s') \<and> I s'"
proof (induction rs arbitrary: s)
  case (Cons r rs)
  obtain resp s1 where f: "f r s = Some (resp, s1)" "I s1" using Cons.prems by (meson answers_in_def)
  with Cons.IH [OF Cons.prems(1) f(2)] show ?case by auto
qed simp

definition written :: "http_response list \<Rightarrow> string" where
  "written rs = concat (map (\<lambda>r. serialize r True) rs)"

text \<open>A request as it stands on the wire: method, target, version, headers and body.\<close>

type_synonym wire_req = "string \<times> string \<times> string \<times> headers \<times> string"

fun wire_of :: "wire_req \<Rightarrow> string" where
  "wire_of (m, t, v, hs, body) = wire_request m t v hs body"

fun request_of :: "wire_req \<Rightarrow> http_request" where
  "request_of (m, t, v, hs, body) = split_target (empty_request\<lparr>req_method := m, req_target := t, req_version := v,
     req_headers := omap_sets ci_less [] hs, req_body := body\<rparr>)"

fun wire_ok :: "wire_req \<Rightarrow> bool" where
  "wire_ok (m, t, v, hs, body) \<longleftrightarrow> token m \<and> token t \<and> token v \<and> list_all header_ok hs \<and>
     hfind (omap_sets ci_less [] hs) ''Transfer-Encoding'' = None \<and>
     content_length (omap_sets ci_less [] hs) = Some (of_nat (length body)) \<and> length body < 2 ^ 63 \<and>
     length (wire_request m t v hs []) \<le> max_header"

lemma parse_wire_req:
  assumes "wire_ok w" "length (wire_of w @ rest) < 2 ^ 64"
  shows "parse (wire_of w @ rest) = (Complete (request_of w), rest)"
proof -
  obtain m t v hs body where w: "w = (m, t, v, hs, body)" by (metis prod_cases5)
  have "length body = unat (of_nat (length body) :: u64)"
    using assms(1) unat_of_nat_u64 [of "length body"] by (simp add: w)
  with assms parse_wire_request [of m t v hs "of_nat (length body)" body rest] show ?thesis
    by (auto simp: w list_all_iff)
qed

text \<open>As long as the announced body has not arrived, the parser waits.\<close>

lemma parse_prefix:
  assumes p: "parse W = (Complete r, [])"
    and cl: "content_length (req_headers r) = Some n" "length (req_body r) = unat n"
    and len: "length W < 2 ^ 64" "length W \<le> max_header + unat n" and pre: "strict_prefix q W"
  shows "parse q = (NeedMore, q)"
proof -
  obtain e line tl0 r0 n' where *:
    "find_sub (crlf @ crlf) W = Some e" "getline LF (take e W) = Some (line, tl0)"
    "request_line (strip_cr line) = Some r0" "req_headers r = headers_loop [] tl0"
    "hfind (req_headers r) ''Transfer-Encoding'' = None" "content_length (req_headers r) = Some n'"
    "r = split_target (r0\<lparr>req_headers := headers_loop [] tl0, req_body := substr W (e + 4) (unat n')\<rparr>)"
    using p by (rule parse_CompleteD)
  have n': "n' = n" using * cl by simp
  have e4: "e + 4 \<le> length W" using find_sub_le [OF *(1)] by (simp add: crlf_def)
  have "req_body r = substr W (e + 4) (unat n)" using * n' by (simp add: split_target_fields)
  then have fits: "e + 4 + unat n \<le> length W" using cl(2) e4 by (simp add: substr_def min_def split: if_splits)
  have "length W \<le> e + 4 + unat n"
  proof (rule ccontr)
    assume "\<not> length W \<le> e + 4 + unat n"
    moreover have "parse (take (e + 4 + unat n) W @ drop (e + 4 + unat n) W) = (Complete r, [])" using p by simp
    moreover have "unat (of_nat e + 4 + n :: u64) = e + 4 + unat n"
      using fits len(1) unat_of_nat_u64 [of "e + 4 + unat n"] by simp
    ultimately show False
      using p * n' by (auto simp: parse_def Let_def split: if_splits)
  qed
  then have lenW: "length W = e + 4 + unat n" using fits by simp
  from pre obtain x where x: "W = q @ x" "x \<noteq> []" by (auto simp: strict_prefix_def prefix_def)
  show ?thesis
  proof (cases "find_sub (crlf @ crlf) q")
    case None
    have "length q < e + 4"
    proof (rule ccontr)
      assume "\<not> length q < e + 4"
      moreover have "prefix (crlf @ crlf) (drop e W)" using find_sub_at [OF *(1)] .
      ultimately have "prefix (crlf @ crlf) (drop e q)"
        using x by (auto simp: crlf_def intro: prefix_length_prefix)
      with find_sub_None [OF None] show False by blast
    qed
    then show ?thesis using None len(2) lenW by (simp add: parse_def)
  next
    case (Some e')
    then have e': "e' = e" using find_sub_append [OF Some, of x] x *(1) by simp
    have "e + 4 \<le> length q" using find_sub_le [OF Some] e' by (simp add: crlf_def)
    then have tk: "take e q = take e W" using x by simp
    have "length q < e + 4 + unat n" using x lenW by (cases x) auto
    moreover have "(of_nat e + 4 + n :: u64) = of_nat (e + 4 + unat n)" by simp
    ultimately have "(of_nat (length q) :: u64) < of_nat e + 4 + n"
      using len(1) lenW unat_of_nat_u64 [of "length q"] unat_of_nat_u64 [of "e + 4 + unat n"]
      by (simp add: word_less_nat_alt del: of_nat_add)
    then show ?thesis
      using Some e' * n' by (simp add: parse_def tk Let_def)
  qed
qed

lemma wire_prefix_waits:
  assumes "wire_ok w" "strict_prefix q (wire_of w)"
  shows "parse q = (NeedMore, q)"
proof -
  obtain m t v hs body where w: "w = (m, t, v, hs, body)" by (metis prod_cases5)
  let ?n = "of_nat (length body) :: u64"
  have lb: "length body < 2 ^ 63" "length (wire_request m t v hs []) \<le> max_header"
    using assms(1) by (simp_all add: w)
  then have n: "unat ?n = length body" by (intro unat_of_nat_u64) simp
  have len: "length (wire_of w) = length (wire_request m t v hs []) + length body"
    by (simp add: w wire_request_def)
  have total: "length (wire_of w) < 2 ^ 64" using lb len by (simp add: max_header_def)
  then have p: "parse (wire_of w) = (Complete (request_of w), [])"
    using parse_wire_req [OF assms(1), of "[]"] by simp
  have "content_length (req_headers (request_of w)) = Some ?n" "length (req_body (request_of w)) = unat ?n"
    using assms(1) n by (simp_all add: w split_target_fields)
  from parse_prefix [OF p this total _ assms(2)] show ?thesis using len lb(2) n by simp
qed

lemma parse_Nil: "parse [] = (NeedMore, [])"
  by (simp add: parse_def crlf_def)

lemma request_loop_stream:
  assumes "\<forall>w \<in> set ws. wire_ok w \<and> keepAlive (request_of w)" "parse q = (NeedMore, q)"
    and "answer_all f (map request_of ws) s = Some (rs, s')" "length (concat (map wire_of ws) @ q) < 2 ^ 64"
  shows "request_loop f (concat (map wire_of ws) @ q) out cl s = Some (q, out @ written rs, cl, s')"
  using assms
proof (induction ws arbitrary: out s rs)
  case Nil
  then show ?case by (simp add: request_loop_more written_def)
next
  case (Cons w ws)
  let ?rest = "concat (map wire_of ws) @ q"
  have "parse (wire_of w @ ?rest) = (Complete (request_of w), ?rest)"
    using Cons.prems by (intro parse_wire_req) auto
  moreover obtain resp s1 rs1 where f: "f (request_of w) s = Some (resp, s1)"
    "answer_all f (map request_of ws) s1 = Some (rs1, s')" "rs = resp # rs1"
    using Cons.prems(3) by (auto split: option.splits)
  moreover have "keepAlive (request_of w)" using Cons.prems(1) by simp
  ultimately have "request_loop f (wire_of w @ ?rest) out cl s = request_loop f ?rest (out @ serialize resp True) cl s1"
    by (intro request_loop_next)
  moreover have "request_loop f ?rest (out @ serialize resp True) cl s1 =
      Some (q, (out @ serialize resp True) @ written rs1, cl, s')"
    using Cons.prems f(2) by (intro Cons.IH) auto
  ultimately show ?case using f(3) by (simp add: written_def)
qed

text \<open>Every prefix of a stream of requests is some whole requests and a proper part of the next.\<close>

lemma stream_split:
  assumes "prefix p (concat (map wire_of ws))"
  shows "\<exists>k q. p = concat (map wire_of (take k ws)) @ q \<and>
    (q = [] \<or> k < length ws \<and> strict_prefix q (wire_of (ws ! k)))"
  using assms
proof (induction ws arbitrary: p)
  case (Cons w ws)
  from Cons.prems consider "strict_prefix p (wire_of w)" | p' where "p = wire_of w @ p'" "prefix p' (concat (map wire_of ws))"
    using prefix_append [of p "wire_of w" "concat (map wire_of ws)"]
    by (cases "p = wire_of w") (auto simp: strict_prefix_def)
  then show ?case
  proof cases
    case 1
    then show ?thesis by (intro exI [of _ 0] exI [of _ p]) simp
  next
    case (2 p')
    then obtain k q where "p' = concat (map wire_of (take k ws)) @ q"
      "q = [] \<or> k < length ws \<and> strict_prefix q (wire_of (ws ! k))"
      using Cons.IH by blast
    with 2(1) show ?thesis by (intro exI [of _ "Suc k"] exI [of _ q]) auto
  qed
qed simp

section \<open>A connection through its life\<close>

datatype conn_event = Readable "read_event list" "write_event list" | Writable "write_event list"

text \<open>The events of one descriptor, as \<open>ready_step\<close> treats them, until the connection is closed.\<close>

fun conn_run :: "'s request_fn \<Rightarrow> conn_event list \<Rightarrow> econn \<Rightarrow> 's \<Rightarrow> ((bool \<times> econn) \<times> 's) option" where
  "conn_run f [] c s = Some ((True, c), s)"
| "conn_run f (Readable reads writes # es) c s = (case onReadable f reads writes c s of
     None \<Rightarrow> None
   | Some ((alive, c), s) \<Rightarrow> if alive then conn_run f es c s else Some ((False, c), s))"
| "conn_run f (Writable writes # es) c s = (case flush writes c of
     (alive, c) \<Rightarrow> if alive then conn_run f es c s else Some ((False, c), s))"

fun heard :: "conn_event list \<Rightarrow> string" where
  "heard [] = []"
| "heard (Readable reads writes # es) = incoming reads @ heard es"
| "heard (Writable writes # es) = heard es"

text \<open>After hearing \<open>got\<close>, the complete requests in it are answered, in order, and the rest waits.\<close>

definition answered :: "'s request_fn \<Rightarrow> wire_req list \<Rightarrow> 's \<Rightarrow> string \<Rightarrow> econn \<Rightarrow> 's \<Rightarrow> bool" where
  "answered f ws s0 got c s \<longleftrightarrow> econn_inv c \<and> \<not> ec_close c \<and> (\<exists>k rs.
     answer_all f (map request_of (take k ws)) s0 = Some (rs, s) \<and> stream c = written rs \<and>
     got = concat (map wire_of (take k ws)) @ ec_buf c \<and>
     (ec_buf c = [] \<or> k < length ws \<and> strict_prefix (ec_buf c) (wire_of (ws ! k))))"

lemma waiting_parse:
  "\<forall>w \<in> set ws. wire_ok w \<Longrightarrow> q = [] \<or> k < length ws \<and> strict_prefix q (wire_of (ws ! k)) \<Longrightarrow> parse q = (NeedMore, q)"
  using wire_prefix_waits [of "ws ! k" q] parse_Nil by auto

lemma stream_extend: "econn_inv c \<Longrightarrow> stream (c\<lparr>ec_buf := b, ec_out := ec_out c @ x, ec_close := cl\<rparr>) = stream c @ x"
  by (simp add: stream_def pending_def econn_inv_def)

lemma answered_flush:
  assumes "flush es c = (alive, c')" "answered f ws s0 got c s"
  shows "answered f ws s0 got c' s"
  using assms(2) flush_frame [OF assms(1)] by (simp add: answered_def)

lemma answered_readable:
  assumes "answered f ws s0 got c s" "\<forall>w \<in> set ws. wire_ok w \<and> keepAlive (request_of w)" "answers_in I f" "I s"
    and "prefix (got @ incoming reads) (concat (map wire_of ws))" "length (concat (map wire_of ws)) < 2 ^ 64"
  shows "\<exists>alive c' s'. onReadable f reads writes c s = Some ((alive, c'), s') \<and>
    answered f ws s0 (got @ incoming reads) c' s' \<and> I s'"
proof -
  obtain k rs where k: "answer_all f (map request_of (take k ws)) s0 = Some (rs, s)" "stream c = written rs"
    "got = concat (map wire_of (take k ws)) @ ec_buf c"
    using assms(1) by (auto simp: answered_def)
  have inv: "econn_inv c" "\<not> ec_close c" using assms(1) by (simp_all add: answered_def)
  let ?buf = "ec_buf c @ incoming reads" and ?vs = "drop k ws"
  have ws: "concat (map wire_of ws) = concat (map wire_of (take k ws)) @ concat (map wire_of ?vs)"
    by (metis append_take_drop_id concat_append map_append)
  have "prefix ?buf (concat (map wire_of ?vs))" using assms(5) unfolding ws k(3) by simp
  from stream_split [OF this] obtain k' q where q: "?buf = concat (map wire_of (take k' ?vs)) @ q"
    "q = [] \<or> k' < length ?vs \<and> strict_prefix q (wire_of (?vs ! k'))" by blast
  have vs: "\<forall>w \<in> set (take k' ?vs). wire_ok w \<and> keepAlive (request_of w)"
    using assms(2) by (meson in_set_dropD in_set_takeD)
  have q': "q = [] \<or> k + k' < length ws \<and> strict_prefix q (wire_of (ws ! (k + k')))"
    using q(2) by auto
  have pq: "parse q = (NeedMore, q)" using waiting_parse [OF _ q'] assms(2) by blast
  obtain rs2 s2 where a: "answer_all f (map request_of (take k' ?vs)) s = Some (rs2, s2)" and i: "I s2"
    using answer_all_total [OF assms(3,4)] by blast
  have "length ?buf < 2 ^ 64" using prefix_length_le [OF assms(5)] assms(6) k(3) by simp
  then have rl: "request_loop f ?buf (ec_out c) (ec_close c) s = Some (q, ec_out c @ written rs2, ec_close c, s2)"
    unfolding q(1) by (intro request_loop_stream [OF vs pq a])
  let ?c = "c\<lparr>ec_buf := q, ec_out := ec_out c @ written rs2, ec_close := ec_close c\<rparr>"
  obtain alive c' where fl: "flush writes ?c = (alive, c')" by (metis surj_pair)
  have tk: "take (k + k') ws = take k ws @ take k' ?vs" by (rule take_add)
  have "answer_all f (map request_of (take (k + k') ws)) s0 = Some (rs @ rs2, s2)"
    using k(1) a by (simp add: tk answer_all_append)
  moreover have "stream ?c = written (rs @ rs2)"
    using stream_extend [where b = q and x = "written rs2" and cl = "ec_close c", OF inv(1)] k(2) by (simp add: written_def)
  moreover have "got @ incoming reads = concat (map wire_of (take (k + k') ws)) @ q"
    using k(3) q(1) by (simp add: tk)
  moreover have "econn_inv ?c" using inv(1) by (simp add: econn_inv_def)
  ultimately have "answered f ws s0 (got @ incoming reads) ?c s2"
    using inv(2) q' by (auto simp: answered_def)
  then have "answered f ws s0 (got @ incoming reads) c' s2"
    by (rule answered_flush [OF fl])
  then show ?thesis using rl fl i by (auto simp: onReadable_def)
qed

lemma conn_run_answered:
  assumes "answered f ws s0 got c s" "\<forall>w \<in> set ws. wire_ok w \<and> keepAlive (request_of w)" "answers_in I f" "I s"
    and "prefix (got @ heard es) (concat (map wire_of ws))" "length (concat (map wire_of ws)) < 2 ^ 64"
  shows "\<exists>alive c' s' got'. conn_run f es c s = Some ((alive, c'), s') \<and> answered f ws s0 got' c' s' \<and> I s' \<and>
    prefix got' (got @ heard es) \<and> (alive \<longrightarrow> got' = got @ heard es)"
  using assms(1,4,5)
proof (induction es arbitrary: got c s)
  case Nil
  then show ?case by auto
next
  case (Cons e es)
  show ?case
  proof (cases e)
    case (Readable reads writes)
    have "prefix (got @ incoming reads) (concat (map wire_of ws))"
      using Cons.prems(3) Readable by (metis append.assoc heard.simps(2) append_prefixD)
    from answered_readable [OF Cons.prems(1) assms(2,3) Cons.prems(2) this assms(6), of writes] obtain alive c1 s1
      where r: "onReadable f reads writes c s = Some ((alive, c1), s1)"
        "answered f ws s0 (got @ incoming reads) c1 s1" "I s1" by blast
    show ?thesis
    proof (cases alive)
      case True
      have "prefix ((got @ incoming reads) @ heard es) (concat (map wire_of ws))" using Cons.prems(3) Readable by simp
      from Cons.IH [OF r(2,3) this] show ?thesis using r(1) True Readable by auto
    next
      case False
      then have "conn_run f (e # es) c s = Some ((False, c1), s1)" using r(1) Readable by simp
      moreover have "prefix (got @ incoming reads) (got @ heard (e # es))" using Readable by simp
      ultimately show ?thesis using r(2,3) by blast
    qed
  next
    case (Writable writes)
    obtain alive c1 where fl: "flush writes c = (alive, c1)" by (metis surj_pair)
    have a: "answered f ws s0 got c1 s" by (rule answered_flush [OF fl Cons.prems(1)])
    have "prefix (got @ heard es) (concat (map wire_of ws))" using Cons.prems(3) Writable by simp
    note ih = Cons.IH [OF a Cons.prems(2) this]
    show ?thesis
    proof (cases alive)
      case True
      then have "conn_run f (e # es) c s = conn_run f es c1 s" using fl Writable by simp
      with ih show ?thesis using Writable by simp
    next
      case False
      then have "conn_run f (e # es) c s = Some ((False, c1), s)" using fl Writable by simp
      moreover have "prefix got (got @ heard (e # es))" by simp
      ultimately show ?thesis using a Cons.prems(2) by blast
    qed
  qed
qed

section \<open>Properties\<close>

text \<open>A client that pipelines requests gets its answers in order, wherever the network cuts the
  requests and the answers: after any readiness events the bytes sent, followed by the bytes still
  to be sent, are the written responses to the first \<open>k\<close> requests, each asked once and in order,
  and nothing of what was heard is lost: it is those \<open>k\<close> requests and what is buffered, which is
  less than one request.\<close>

lemma client_stream_in_order:
  assumes "\<forall>w \<in> set ws. wire_ok w \<and> keepAlive (request_of w)" "answers_in I f" "I s0"
    and "prefix (heard es) (concat (map wire_of ws))" "length (concat (map wire_of ws)) < 2 ^ 64"
  shows "\<exists>alive c s k rs. conn_run f es new_econn s0 = Some ((alive, c), s) \<and> I s \<and>
    answer_all f (map request_of (take k ws)) s0 = Some (rs, s) \<and>
    ec_sent c @ pending c = written rs \<and>
    prefix (concat (map wire_of (take k ws)) @ ec_buf c) (heard es) \<and>
    (alive \<longrightarrow> concat (map wire_of (take k ws)) @ ec_buf c = heard es) \<and>
    (ec_buf c = [] \<or> k < length ws \<and> strict_prefix (ec_buf c) (wire_of (ws ! k)))"
proof -
  have "answered f ws s0 [] new_econn s0"
    by (auto simp: answered_def new_econn_def econn_inv_def stream_def pending_def written_def intro!: exI [of _ 0])
  from conn_run_answered [OF this assms(1-3) _ assms(5), of es] assms(4) obtain alive c s got
    where r: "conn_run f es new_econn s0 = Some ((alive, c), s)" "answered f ws s0 got c s" "I s"
      "prefix got (heard es)" "alive \<longrightarrow> got = heard es" by auto
  then show ?thesis
    by (intro exI [of _ alive] exI [of _ c] exI [of _ s]) (auto simp: answered_def stream_def)
qed

text \<open>The request in front announces a body of a length that is not negative.\<close>

definition length_ok :: "string \<Rightarrow> bool" where
  "length_ok b = (case parse b of
     (Complete r, rest) \<Rightarrow> (case content_length (req_headers r) of None \<Rightarrow> True | Some n \<Rightarrow> unat n < 2 ^ 63)
   | _ \<Rightarrow> True)"

text \<open>The loop over the requests of a buffer returns for every handler that does, whatever the
  client sent, unless some request in it announces a negative body length (which is read as one of
  at least $2^{63}$ bytes).\<close>

lemma request_loop_returns:
  assumes "answers_in I f" "I s" "length buf < 2 ^ 62" "\<forall>i. length_ok (drop i buf)"
  shows "\<exists>q out' cl' s'. request_loop f buf out cl s = Some (q, out', cl', s') \<and> I s'"
  using assms(2-4)
proof (induction "length buf" arbitrary: buf out s rule: less_induct)
  case less
  show ?case
  proof (cases "parse buf")
    case (Pair res rest)
    show ?thesis
    proof (cases res)
      case (Complete r)
      then have p: "parse buf = (Complete r, rest)" using Pair by simp
      then obtain e n where e: "find_sub (crlf @ crlf) buf = Some e" "content_length (req_headers r) = Some n"
        "rest = drop (unat (of_nat e + 4 + n :: u64)) buf"
        by (elim parse_CompleteD) blast
      have n: "unat n < 2 ^ 63" using less.prems(3) [rule_format, of 0] p e(2) by (simp add: length_ok_def)
      have e4: "e + 4 \<le> length buf" using find_sub_le [OF e(1)] by (simp add: crlf_def)
      have "(of_nat e + 4 + n :: u64) = of_nat (e + 4 + unat n)" by simp
      then have "unat (of_nat e + 4 + n :: u64) = e + 4 + unat n"
        using unat_of_nat_u64 [of "e + 4 + unat n"] n e4 less.prems(2) by simp
      then have rest: "rest = drop (e + 4 + unat n) buf" "length rest < length buf" using e(3) e4 by auto
      obtain resp s1 where f: "f r s = Some (resp, s1)" "I s1" using assms(1) less.prems(1) by (meson answers_in_def)
      have "\<exists>q out' cl' s'. request_loop f rest out1 cl s1 = Some (q, out', cl', s') \<and> I s'" for out1
        using less.prems rest f(2) by (intro less.hyps) (auto simp: rest(1))
      then show ?thesis using p f by (subst request_loop.simps) auto
    qed (use Pair less.prems(1) in \<open>subst request_loop.simps, auto\<close>)+
  qed
qed

text \<open>C37: a request that announces a body length of minus the size of its own header hangs the worker
  for ever: the parser takes nothing from the buffer, and the loop parses and answers the same
  request again and again. With a connection held open no other event of this worker is handled.\<close>

theorem negative_length_hangs_worker:
  assumes "parse buf = (Complete r, rest)" "keepAlive r" "find_sub (crlf @ crlf) buf = Some e"
    and "content_length (req_headers r) = Some (- of_nat (e + 4))"
  shows "request_loop f buf out cl s = None \<and> ready_step f (Ready fd False None (Some ([Got buf], writes))) ([fd \<mapsto> new_econn], s) = None"
proof -
  have rest: "rest = buf"
  proof -
    obtain e' n where "find_sub (crlf @ crlf) buf = Some e'" "content_length (req_headers r) = Some n"
      "rest = drop (unat (of_nat e' + 4 + n :: u64)) buf" using assms(1) by (elim parse_CompleteD)
    with assms(3,4) show ?thesis by simp
  qed
  have n: "request_loop f buf o' cl' s' = None" for o' cl' s'
  proof (rule ccontr)
    assume "request_loop f buf o' cl' s' \<noteq> None"
    then obtain y where "request_loop f buf o' cl' s' = Some y" by blast
    then have "f = f \<longrightarrow> buf \<noteq> buf"
    proof (rule request_loop.raw_induct [where P = "\<lambda>g b o' cl s y. g = f \<longrightarrow> b \<noteq> buf", rotated])
      fix F g b o' cl s y
      assume ih: "\<And>g b o' cl s y. F g b o' cl s = Some y \<Longrightarrow> g = f \<longrightarrow> b \<noteq> buf"
        and y: "(case parse b of (NeedMore, b) \<Rightarrow> Some (b, o', cl, s)
          | (Complete req, b) \<Rightarrow> (case g req s of None \<Rightarrow> None
             | Some (resp, s) \<Rightarrow> if \<not> keepAlive req then Some (b, o' @ serialize resp (keepAlive req), True, s)
                 else F g b (o' @ serialize resp (keepAlive req)) cl s)
          | (ParseError, b) \<Rightarrow> Some (b, o' @ serialize bad_request False, True, s)) = Some y"
      show "g = f \<longrightarrow> b \<noteq> buf"
      proof (intro impI notI)
        assume eq: "g = f" "b = buf"
        then obtain resp s2 where "f r s = Some (resp, s2)" using y assms(1) by (auto split: option.splits)
        then have "F f buf (o' @ serialize resp (keepAlive r)) cl s2 = Some y" using y assms(1,2) eq rest by simp
        from ih [OF this] show False by simp
      qed
    qed
    then show False by simp
  qed
  have "buf \<noteq> []" using assms(1) parse_Nil by auto
  then have "onReadable f [Got buf] writes new_econn s = None"
    by (simp add: onReadable_def new_econn_def n)
  then show ?thesis using n by (simp add: ready_in_def ready_out_def)
qed

text \<open>A connection that is only kept to send its last answer still reads: a request that comes in
  meanwhile is handled, and its answer follows the one that announced the end of the connection.\<close>

lemma closing_connection_answers:
  assumes "ec_close c" "econn_inv c" "parse (ec_buf c @ b) = (Complete r, rest)" "b \<noteq> []"
    and "\<not> keepAlive r" "f r s = Some (resp, s')" "ec_off c < length (ec_out c)"
  shows "\<exists>c'. onReadable f [Got b] [WriteBlock] c s = Some ((True, c'), s') \<and> stream c' = stream c @ serialize resp False"
proof -
  have "request_loop f (ec_buf c @ b) (ec_out c) (ec_close c) s = Some (rest, ec_out c @ serialize resp False, True, s')"
    using assms(3,5,6) by (subst request_loop.simps) simp
  moreover have "flush_loop [WriteBlock] (c\<lparr>ec_buf := rest, ec_out := ec_out c @ serialize resp False, ec_close := True\<rparr>) =
      (Blocked, c\<lparr>ec_buf := rest, ec_out := ec_out c @ serialize resp False, ec_close := True\<rparr>)"
    using assms(7) by simp
  moreover have "serialize resp False \<noteq> []" by (simp add: serialize_def)
  ultimately show ?thesis
    using assms(2,4,7) by (simp add: onReadable_def flush_def stream_def pending_def econn_inv_def)
qed

section \<open>Concrete runs\<close>

definition hello_fn :: "nat request_fn" where
  "hello_fn r n = Some (simple 200 ''OK'' (req_path r) ''text/plain'', Suc n)"

lemma hello_answers: "answers_in (\<lambda>s. True) hello_fn"
  by (simp add: answers_in_def hello_fn_def)

definition two_gets :: "wire_req list" where
  "two_gets = [(''GET'', ''/a'', ''HTTP/1.1'', [], []), (''PUT'', ''/b'', ''HTTP/1.1'', [(''Content-Length'', ''2'')], ''xy'')]"

text \<open>The second request is cut inside its body, and the first answer after one byte.\<close>

definition cut_events :: "conn_event list" where
  "cut_events = [Readable [Got (take 60 (concat (map wire_of two_gets)))] [Took 1, WriteBlock], Writable []]"

lemma client_stream_in_order_witness:
  "\<exists>alive c s k rs. conn_run hello_fn cut_events new_econn 0 = Some ((alive, c), s) \<and>
     answer_all hello_fn (map request_of (take k two_gets)) 0 = Some (rs, s) \<and> ec_sent c @ pending c = written rs"
proof -
  have "\<forall>w \<in> set two_gets. wire_ok w \<and> keepAlive (request_of w)"
    "length (concat (map wire_of two_gets)) < 2 ^ 64" "prefix (heard cut_events) (concat (map wire_of two_gets))"
    by code_simp+
  then show ?thesis using client_stream_in_order [OF _ hello_answers TrueI, of two_gets cut_events 0] by blast
qed

lemma request_loop_returns_witness:
  "\<exists>q out' cl' s'. request_loop hello_fn (''GET / HTTP/1.1'' @ crlf @ crlf) [] False 0 = Some (q, out', cl', s')"
proof -
  let ?buf = "''GET / HTTP/1.1'' @ crlf @ crlf"
  have "\<forall>i \<in> set [0..<18]. length_ok (drop i ?buf)" by code_simp
  moreover have "drop i ?buf = []" if "18 \<le> i" for i using that by (simp add: crlf_def)
  moreover have "length_ok []" by (simp add: length_ok_def parse_Nil)
  ultimately have "\<forall>i. length_ok (drop i ?buf)"
    by (metis atLeastLessThan_iff not_less set_upt zero_le)
  moreover have "length ?buf < 2 ^ 62" by (simp add: crlf_def)
  ultimately show ?thesis using request_loop_returns [OF hello_answers TrueI, of ?buf] by simp
qed

theorem negative_length_hangs_worker_witness: "request_loop hello_fn stuck_request [] False 0 = None"
proof -
  obtain rest where p: "parse stuck_request = (Complete stuck_parsed, rest)"
    using stuck_parse by (metis prod.collapse)
  have "keepAlive stuck_parsed" "find_sub (crlf @ crlf) stuck_request = Some 35"
    "content_length (req_headers stuck_parsed) = Some (- of_nat (35 + 4))"
    by code_simp+
  from negative_length_hangs_worker [OF p this] show ?thesis by (rule conjunct1)
qed

end
