(* ===== verification/RedisCoordinator.thy ===== *)
theory RedisCoordinator
  imports RuleStore RedisClient Config
begin

text \<open>
  \<^verbatim>\<open>redis/RedisCoordinator\<close>: the subscriber thread, which turns messages into purges and reload
  requests, and the poller thread, which pings Redis and reloads the rules. Each definition
  \<open>..._step\<close> is one round of its thread's loop; the threads share the rule store and the two
  flags. \<open>None\<close> is a round that waits for ever for an answer (\<^verbatim>\<open>command\<close> sets no timeout). The purge
  handler is an argument over a state of its own, and \<open>srt\<close> is \<^verbatim>\<open>std::sort\<close>.
\<close>

section \<open>State\<close>

record coordinator =
  co_sub :: conn
  co_poll :: conn
  co_lastPoll :: time
  co_lastPing :: time
  co_connected :: bool
  co_reload :: bool
  co_store :: rule_store

type_synonym 's purge_handler = "string \<Rightarrow> 's \<Rightarrow> u64 \<times> 's"

definition one_hour :: time where "one_hour = 3600 * 1000000000"

text \<open>Before the first rounds: no connection, nothing polled within the last hour, a reload wanted.\<close>

definition coordinator_start :: "conn \<Rightarrow> conn \<Rightarrow> time \<Rightarrow> rule_store \<Rightarrow> coordinator" where
  "coordinator_start sub poll now store = \<lparr>co_sub = close_conn sub, co_poll = close_conn poll,
     co_lastPoll = now - one_hour, co_lastPing = now - one_hour, co_connected = False, co_reload = True,
     co_store = store\<rparr>"

section \<open>Reloading the rules\<close>

fun read_rules :: "reply list \<Rightarrow> rule list" where
  "read_rules (field # val # rs) = parseRuleJson (rp_str field) (rp_str val) # read_rules rs"
| "read_rules _ = []"

definition reloadRules :: "config \<Rightarrow> (rule list \<Rightarrow> rule list) \<Rightarrow> conn \<Rightarrow> rule_store \<Rightarrow>
    ((bool \<times> rule_store) \<times> conn) option" where
  "reloadRules cfg srt conn store = (case command [''HGETALL'', cf_rulesHashKey cfg] conn of
     None \<Rightarrow> None
   | Some (r, conn) \<Rightarrow>
       if isError r \<or> rp_type r \<noteq> TArray then Some ((False, store), conn)
       else Some ((True, replaceAll srt (read_rules (rp_elements r)) store), conn))"

section \<open>The subscriber\<close>

definition on_message :: "config \<Rightarrow> 's purge_handler \<Rightarrow> reply \<Rightarrow> coordinator \<times> 's \<Rightarrow> coordinator \<times> 's" where
  "on_message cfg onPurge msg st =
     (let (co, s) = st in
      if rp_type msg = TArray \<and> length (rp_elements msg) = 3 \<and> rp_str (rp_elements msg ! 0) = ''message''
      then (let channel = rp_str (rp_elements msg ! 1); payload = rp_str (rp_elements msg ! 2) in
            if channel = cf_purgeChannel cfg then (co, snd (onPurge payload s))
            else if channel = cf_ruleUpdateChannel cfg then (co\<lparr>co_reload := True\<rparr>, s)
            else (co, s))
      else (co, s))"

definition receive_message :: "config \<Rightarrow> 's purge_handler \<Rightarrow> coordinator \<times> 's \<Rightarrow> (coordinator \<times> 's) option" where
  "receive_message cfg onPurge st = (case readReply 1000 (co_sub (fst st)) of
     None \<Rightarrow> None
   | Some (r, conn) \<Rightarrow>
       (let st = ((fst st)\<lparr>co_sub := conn\<rparr>, snd st) in
        case r of None \<Rightarrow> Some st | Some msg \<Rightarrow> Some (on_message cfg onPurge msg st)))"

definition subscriber_step :: "config \<Rightarrow> 's purge_handler \<Rightarrow> coordinator \<times> 's \<Rightarrow> (coordinator \<times> 's) option" where
  "subscriber_step cfg onPurge st =
     (let (co, s) = st in
      if \<not> c_open (co_sub co)
      then (case connect (cf_redisPassword cfg) (co_sub co) of
          None \<Rightarrow> None
        | Some (False, conn) \<Rightarrow> Some (co\<lparr>co_sub := conn\<rparr>, s)
        | Some (True, conn) \<Rightarrow> (case subscribe [cf_purgeChannel cfg, cf_ruleUpdateChannel cfg] conn of
              None \<Rightarrow> None
            | Some (False, conn) \<Rightarrow> Some (co\<lparr>co_sub := conn\<rparr>, s)
            | Some (True, conn) \<Rightarrow> receive_message cfg onPurge (co\<lparr>co_sub := conn\<rparr>, s)))
      else receive_message cfg onPurge st)"

section \<open>The poller\<close>

definition ping :: "time \<Rightarrow> coordinator \<Rightarrow> (bool \<times> coordinator) option" where
  "ping now co =
     (if to_millis (now - co_lastPing co) \<ge> 1000
      then (case command [''PING''] (co_poll co) of
          None \<Rightarrow> None
        | Some (pong, conn) \<Rightarrow>
            (let co = co\<lparr>co_poll := conn, co_lastPing := now\<rparr> in
             if rp_type pong = TStatus \<and> \<not> isError pong then Some (True, co\<lparr>co_connected := True\<rparr>)
             else Some (False, co\<lparr>co_connected := False, co_poll := close_conn (co_poll co)\<rparr>)))
      else Some (True, co))"

definition poll_rules :: "config \<Rightarrow> (rule list \<Rightarrow> rule list) \<Rightarrow> time \<Rightarrow> coordinator \<Rightarrow> coordinator option" where
  "poll_rules cfg srt now co =
     (let due = to_seconds (now - co_lastPoll co) \<ge> cf_rulePollSeconds cfg;
          requested = co_reload co;
          co = co\<lparr>co_reload := False\<rparr>
      in if requested \<or> due
         then (case reloadRules cfg srt (co_poll co) (co_store co) of
             None \<Rightarrow> None
           | Some ((ok, store), conn) \<Rightarrow>
               if ok then Some (co\<lparr>co_poll := conn, co_store := store, co_connected := True, co_lastPoll := now\<rparr>)
               else Some (co\<lparr>co_connected := False, co_poll := close_conn conn\<rparr>))
         else Some co)"

definition poller_step :: "config \<Rightarrow> (rule list \<Rightarrow> rule list) \<Rightarrow> time \<Rightarrow> coordinator \<Rightarrow> coordinator option" where
  "poller_step cfg srt now co =
     (if \<not> c_open (co_poll co)
      then (case connect (cf_redisPassword cfg) (co_poll co) of
          None \<Rightarrow> None
        | Some (False, conn) \<Rightarrow> Some (co\<lparr>co_poll := conn, co_connected := False\<rparr>)
        | Some (True, conn) \<Rightarrow> (case ping now (co\<lparr>co_poll := conn\<rparr>) of
              None \<Rightarrow> None
            | Some (False, co) \<Rightarrow> Some co
            | Some (True, co) \<Rightarrow> poll_rules cfg srt now co))
      else (case ping now co of
          None \<Rightarrow> None
        | Some (False, co) \<Rightarrow> Some co
        | Some (True, co) \<Rightarrow> poll_rules cfg srt now co))"

text \<open>Each thread takes its rounds until the server stops, and then closes its connection.\<close>

fun subscriberLoop :: "config \<Rightarrow> 's purge_handler \<Rightarrow> nat \<Rightarrow> coordinator \<times> 's \<Rightarrow> (coordinator \<times> 's) option" where
  "subscriberLoop cfg onPurge 0 st = Some ((fst st)\<lparr>co_sub := close_conn (co_sub (fst st))\<rparr>, snd st)"
| "subscriberLoop cfg onPurge (Suc n) st = (case subscriber_step cfg onPurge st of
     None \<Rightarrow> None | Some st \<Rightarrow> subscriberLoop cfg onPurge n st)"

fun pollerLoop :: "config \<Rightarrow> (rule list \<Rightarrow> rule list) \<Rightarrow> time list \<Rightarrow> coordinator \<Rightarrow> coordinator option" where
  "pollerLoop cfg srt [] co = Some (co\<lparr>co_poll := close_conn (co_poll co)\<rparr>)"
| "pollerLoop cfg srt (now # ts) co = (case poller_step cfg srt now co of
     None \<Rightarrow> None | Some co \<Rightarrow> pollerLoop cfg srt ts co)"

text \<open>Any interleaving of the two, from \<^verbatim>\<open>start\<close> to \<^verbatim>\<open>stop\<close>, which waits for both.\<close>

datatype co_event = Subscriber | Poller time

fun co_run :: "config \<Rightarrow> (rule list \<Rightarrow> rule list) \<Rightarrow> 's purge_handler \<Rightarrow> co_event list \<Rightarrow> coordinator \<times> 's \<Rightarrow>
    (coordinator \<times> 's) option" where
  "co_run cfg srt onPurge [] st =
     Some ((fst st)\<lparr>co_sub := close_conn (co_sub (fst st)), co_poll := close_conn (co_poll (fst st))\<rparr>, snd st)"
| "co_run cfg srt onPurge (Subscriber # es) st = (case subscriber_step cfg onPurge st of
     None \<Rightarrow> None | Some st \<Rightarrow> co_run cfg srt onPurge es st)"
| "co_run cfg srt onPurge (Poller now # es) st = (case poller_step cfg srt now (fst st) of
     None \<Rightarrow> None | Some co \<Rightarrow> co_run cfg srt onPurge es (co, snd st))"

section \<open>Lemmas\<close>

text \<open>One thread alone is an interleaving in which the other takes no round.\<close>

lemma subscriber_alone:
  "co_run cfg srt onPurge (replicate n Subscriber) st =
     map_option (\<lambda>st. ((fst st)\<lparr>co_poll := close_conn (co_poll (fst st))\<rparr>, snd st)) (subscriberLoop cfg onPurge n st)"
  by (induction n arbitrary: st) (auto split: option.split)

lemma poller_alone:
  "co_run cfg srt onPurge (map Poller ts) (co, s) =
     map_option (\<lambda>co. (co\<lparr>co_sub := close_conn (co_sub co)\<rparr>, s)) (pollerLoop cfg srt ts co)"
  by (induction ts arbitrary: co) (auto split: option.split)

text \<open>The hash of the rules as the control plane writes it, and Redis returns it.\<close>

definition rules_hash :: "rule list \<Rightarrow> reply" where
  "rules_hash rs = bulks (concat (map (\<lambda>r. [r_pattern r, ruleValue r]) rs))"

lemma read_rules_hash:
  "\<forall>r \<in> set rs. QUOTE \<notin> set (r_originId r) \<Longrightarrow> read_rules (rp_elements (rules_hash rs)) = rs"
  by (induction rs) (simp_all add: rules_hash_def bulks_def bulk_def parse_ruleValue)

definition rule_ok :: "rule \<Rightarrow> bool" where
  "rule_ok r \<longleftrightarrow> QUOTE \<notin> set (r_originId r) \<and> length (r_pattern r) < 2 ^ 63 \<and> length (ruleValue r) < 2 ^ 63"

lemma rules_hash_ok:
  assumes "\<forall>r \<in> set rs. rule_ok r" "length rs < 2 ^ 62"
  shows "reply_ok (rules_hash rs)"
proof -
  have "length (concat (map (\<lambda>r. [r_pattern r, ruleValue r]) rs)) = 2 * length rs" for rs
    by (induction rs) auto
  then show ?thesis
    using assms by (auto simp: rules_hash_def bulks_def bulk_def rule_ok_def list_all_iff)
qed

text \<open>A successful read neither closes the connection nor touches its writing side.\<close>

definition same_socket :: "conn \<Rightarrow> conn \<Rightarrow> bool" where
  "same_socket c c' \<longleftrightarrow> c_open c' = c_open c \<and> c_sends c' = c_sends c \<and> c_dials c' = c_dials c"

lemma same_socket_refl [simp]: "same_socket c c" "same_socket c (c\<lparr>c_rpos := n\<rparr>)"
  by (simp_all add: same_socket_def)

lemma same_socket_trans: "same_socket a b \<Longrightarrow> same_socket b c \<Longrightarrow> same_socket a c"
  by (simp add: same_socket_def)

lemma receive_socket: "receive t es c = Some (True, c') \<Longrightarrow> same_socket c c'"
  by (induction t es c rule: receive.induct) (auto simp: same_socket_def split: if_splits)

lemma fillBuffer_socket: "fillBuffer t c = Some (True, c') \<Longrightarrow> same_socket c c'"
  using receive_socket [of t "c_in c" "compact c" c'] by (auto simp: fillBuffer_def same_socket_def compact_def split: if_splits)

lemma readLine_socket: "readLine t c = Some (Some l, c') \<Longrightarrow> same_socket c c'"
proof (induction t c rule: readLine.induct)
  case (1 t c)
  show ?case
  proof (cases "find_from crlf (c_rbuf c) (c_rpos c)")
    case None
    with 1(2) obtain c1 where f: "fillBuffer t c = Some (True, c1)" "readLine t c1 = Some (Some l, c')"
      by (subst (asm) readLine.simps) (auto split: option.splits bool.splits prod.splits)
    have "same_socket c1 c'" using 1(1) [OF None f(1)] f(2) by auto
    then show ?thesis by (rule same_socket_trans [OF fillBuffer_socket [OF f(1)]])
  next
    case (Some nl)
    with 1(2) show ?thesis by (subst (asm) readLine.simps) auto
  qed
qed

lemma readN_socket: "readN n t c = Some (Some l, c') \<Longrightarrow> same_socket c c'"
proof (induction n t c rule: readN.induct)
  case (1 n t c)
  show ?case
  proof (cases "length (c_rbuf c) - c_rpos c < n + 2")
    case True
    with 1(2) obtain c1 where f: "fillBuffer t c = Some (True, c1)" "readN n t c1 = Some (Some l, c')"
      by (subst (asm) readN.simps) (auto split: option.splits bool.splits prod.splits)
    have "same_socket c1 c'" using 1(1) [OF True f(1)] f(2) by auto
    then show ?thesis by (rule same_socket_trans [OF fillBuffer_socket [OF f(1)]])
  next
    case False
    with 1(2) show ?thesis by (subst (asm) readN.simps) auto
  qed
qed

lemma elements_socket:
  assumes "\<And>c r c'. p c = Some (Some r, c') \<Longrightarrow> same_socket c c'"
  shows "elements_loop n p c = Some (Some rs, c') \<Longrightarrow> same_socket c c'"
  using assms
proof (induction n arbitrary: c rs)
  case (Suc n)
  from Suc.prems(1) obtain r c1 rs1 where "p c = Some (Some r, c1)" "elements_loop n p c1 = Some (Some rs1, c')"
    by (auto split: option.splits prod.splits)
  then have "same_socket c c1" "same_socket c1 c'" using Suc.prems(2) Suc.IH by blast+
  then show ?case by (rule same_socket_trans)
qed simp

lemma parseReply_socket: "parseReply d t c = Some (Some r, c') \<Longrightarrow> same_socket c c'"
proof (induction d arbitrary: c r c')
  case (Suc d)
  obtain ty l c1 where l: "readLine t c = Some (Some (ty # l), c1)"
    using Suc.prems by (auto split: option.splits prod.splits list.splits)
  have "same_socket c1 c'"
    using Suc.prems l readN_socket elements_socket [of "parseReply d t", OF Suc.IH]
    by (auto simp: Let_def split: if_splits option.splits prod.splits)
  with readLine_socket [OF l] show ?case by (rule same_socket_trans)
qed simp

lemma parse_reply_socket: "parse_reply t c = Some (Some r, c') \<Longrightarrow> same_socket c c'"
  unfolding parse_reply_def by (rule parseReply_socket)

lemma command_socket:
  assumes "c_open c" "c_sends c = []" "reply_ok r" "delivers c (wire r @ rest)"
  shows "\<exists>c'. command args c = Some (r, c') \<and> delivers c' rest \<and> c_open c' \<and> c_sends c' = [] \<and> c_dials c' = c_dials c"
proof -
  let ?c = "c\<lparr>c_out := c_out c @ encode args\<rparr>"
  have "delivers ?c (wire r @ rest)" using assms(4) by simp
  from parse_reply_wire [OF assms(3) this, of "- 1"] obtain c' where c': "parse_reply (- 1) ?c = Some (Some r, c')"
    "delivers c' rest" by blast
  moreover have "writeAll (encode args) c = (True, ?c)" using assms(2) by (simp add: writeAll_def)
  ultimately show ?thesis
    using parse_reply_socket [OF c'(1)] assms(1,2) by (auto simp: command_def same_socket_def)
qed

section \<open>Properties\<close>

definition pong :: reply where
  "pong = Reply TStatus ''PONG'' 0 []"

definition ping_due :: "time \<Rightarrow> coordinator \<Rightarrow> bool" where
  "ping_due now co \<longleftrightarrow> 1000 \<le> to_millis (now - co_lastPing co)"

definition poll_due :: "config \<Rightarrow> time \<Rightarrow> coordinator \<Rightarrow> bool" where
  "poll_due cfg now co \<longleftrightarrow> cf_rulePollSeconds cfg \<le> to_seconds (now - co_lastPoll co)"

lemma ping_answered:
  assumes "c_open (co_poll co)" "c_sends (co_poll co) = []"
    and "delivers (co_poll co) ((if ping_due now co then wire pong else []) @ rest)"
  shows "\<exists>c'. ping now co = Some (True, co\<lparr>co_poll := c',
      co_lastPing := (if ping_due now co then now else co_lastPing co),
      co_connected := (if ping_due now co then True else co_connected co)\<rparr>) \<and>
    delivers c' rest \<and> c_open c' \<and> c_sends c' = []"
proof (cases "ping_due now co")
  case True
  have "reply_ok pong" by code_simp
  from command_socket [OF assms(1,2) this, of rest "[''PING'']"] assms(3) True obtain c' where
    "command [''PING''] (co_poll co) = Some (pong, c')" "delivers c' rest" "c_open c'" "c_sends c' = []" by auto
  moreover have "rp_type pong = TStatus" "\<not> isError pong" by (simp_all add: pong_def isError_def)
  ultimately show ?thesis
    using True by (intro exI [of _ c']) (simp add: ping_def ping_due_def)
next
  case False
  with assms show ?thesis by (intro exI [of _ "co_poll co"]) (simp add: ping_def ping_due_def)
qed

text \<open>The rules the control plane has put into the Redis hash are exactly the rules of the proxy
  after one round of the poller that was asked to reload or is due, however the network cuts the
  answers: no rule is lost, changed or invented, and Redis counts as connected.\<close>

lemma poller_installs_rules:
  assumes "c_open (co_poll co)" "c_sends (co_poll co) = []"
    and "\<forall>r \<in> set rs. rule_ok r" "length rs < 2 ^ 62" "co_reload co \<or> poll_due cfg now co"
    and "delivers (co_poll co) ((if ping_due now co then wire pong else []) @ wire (rules_hash rs) @ rest)"
  shows "\<exists>co'. poller_step cfg srt now co = Some co' \<and> co_store co' = replaceAll srt rs (co_store co) \<and>
    co_connected co' \<and> \<not> co_reload co' \<and> co_lastPoll co' = now \<and> c_open (co_poll co') \<and> delivers (co_poll co') rest"
proof -
  from ping_answered [OF assms(1,2,6)] obtain c1 where c1: "delivers c1 (wire (rules_hash rs) @ rest)" "c_open c1" "c_sends c1 = []"
    "ping now co = Some (True, co\<lparr>co_poll := c1, co_lastPing := (if ping_due now co then now else co_lastPing co),
      co_connected := (if ping_due now co then True else co_connected co)\<rparr>)"
    by blast
  from command_socket [OF c1(2,3) rules_hash_ok [OF assms(3,4)] c1(1)] obtain c2
    where c2: "command [''HGETALL'', cf_rulesHashKey cfg] c1 = Some (rules_hash rs, c2)" "delivers c2 rest" "c_open c2"
    by blast
  have "read_rules (rp_elements (rules_hash rs)) = rs" using assms(3) by (intro read_rules_hash) (simp add: rule_ok_def)
  moreover have "\<not> isError (rules_hash rs)" "rp_type (rules_hash rs) = TArray"
    by (simp_all add: isError_def rules_hash_def bulks_def)
  ultimately have "reloadRules cfg srt c1 st = Some ((True, replaceAll srt rs st), c2)" for st
    using c2(1) by (simp add: reloadRules_def)
  then show ?thesis
    using assms(1,5) c1(4) c2 by (auto simp: poller_step_def poll_rules_def poll_due_def)
qed

text \<open>The effect of a list of published messages, in order.\<close>

fun deliver :: "config \<Rightarrow> 's purge_handler \<Rightarrow> (string \<times> string) list \<Rightarrow> bool \<times> 's \<Rightarrow> bool \<times> 's" where
  "deliver cfg onPurge [] st = st"
| "deliver cfg onPurge ((channel, payload) # ms) st = deliver cfg onPurge ms
     (if channel = cf_purgeChannel cfg then (fst st, snd (onPurge payload (snd st)))
      else if channel = cf_ruleUpdateChannel cfg then (True, snd st) else st)"

fun published :: "(string \<times> string) list \<Rightarrow> string" where
  "published [] = []"
| "published ((channel, payload) # ms) = wire (bulks [''message'', channel, payload]) @ published ms"

fun subscriber_steps :: "nat \<Rightarrow> config \<Rightarrow> 's purge_handler \<Rightarrow> coordinator \<times> 's \<Rightarrow> (coordinator \<times> 's) option" where
  "subscriber_steps 0 cfg onPurge st = Some st"
| "subscriber_steps (Suc n) cfg onPurge st = (case subscriber_step cfg onPurge st of
     None \<Rightarrow> None | Some st \<Rightarrow> subscriber_steps n cfg onPurge st)"

lemma subscriber_message:
  assumes "c_open (co_sub co)" "delivers (co_sub co) (wire (bulks [''message'', channel, payload]) @ rest)"
    and "length channel < 2 ^ 63" "length payload < 2 ^ 63"
  shows "\<exists>c'. subscriber_step cfg onPurge (co, s) = Some (let d = deliver cfg onPurge [(channel, payload)] (co_reload co, s)
      in (co\<lparr>co_sub := c', co_reload := fst d\<rparr>, snd d)) \<and> c_open c' \<and> delivers c' rest"
proof -
  let ?r = "bulks [''message'', channel, payload]"
  have "reply_ok ?r" using assms(3,4) by (simp add: bulks_def bulk_def)
  then obtain c1 where c1: "parse_reply 1000 (co_sub co) = Some (Some ?r, c1)" "delivers c1 rest"
    using parse_reply_wire assms(2) by blast
  have "c_open c1" using parse_reply_socket [OF c1(1)] assms(1) by (simp add: same_socket_def)
  moreover have "subscriber_step cfg onPurge (co, s) = Some (on_message cfg onPurge ?r (co\<lparr>co_sub := c1\<rparr>, s))"
    using assms(1) c1(1) by (simp add: subscriber_step_def receive_message_def readReply_def)
  ultimately show ?thesis
    using c1(2) by (intro exI [of _ c1]) (simp add: on_message_def bulks_def bulk_def)
qed


text \<open>Redis cannot be reached: every attempt to connect fails.\<close>

definition unreachable :: "conn \<Rightarrow> bool" where
  "unreachable c \<longleftrightarrow> \<not> c_open c \<and> (\<forall>d \<in> set (c_dials c). d = None)"

lemma connect_unreachable:
  "unreachable c \<Longrightarrow> \<exists>c'. connect pw c = Some (False, c') \<and> unreachable c'"
  by (cases "c_dials c") (auto simp: unreachable_def connect_def close_conn_def Let_def)

text \<open>The proxy lives without Redis: while it cannot be reached, whatever the interleaving of the two
  threads, no round waits, the rules last loaded stay in force, no purge is made up, a wanted
  reload stays wanted, and after a round of the poller Redis counts as not connected.\<close>

lemma redis_down_is_harmless:
  assumes "unreachable (co_sub co)" "unreachable (co_poll co)"
  shows "\<exists>co'. co_run cfg srt onPurge es (co, s) = Some (co', s) \<and> co_store co' = co_store co \<and>
    co_reload co' = co_reload co \<and> co_lastPoll co' = co_lastPoll co \<and>
    co_connected co' = (co_connected co \<and> (\<forall>now. Poller now \<notin> set es))"
  using assms
proof (induction es arbitrary: co)
  case Nil
  then show ?case by simp
next
  case (Cons e es)
  show ?case
  proof (cases e)
    case Subscriber
    obtain c' where c': "connect (cf_redisPassword cfg) (co_sub co) = Some (False, c')" "unreachable c'"
      using connect_unreachable [OF Cons.prems(1)] by blast
    have "subscriber_step cfg onPurge (co, s) = Some (co\<lparr>co_sub := c'\<rparr>, s)"
      using Cons.prems(1) c'(1) by (simp add: subscriber_step_def unreachable_def)
    with Cons.IH [of "co\<lparr>co_sub := c'\<rparr>"] c'(2) Cons.prems(2) Subscriber show ?thesis by simp
  next
    case (Poller now)
    obtain c' where c': "connect (cf_redisPassword cfg) (co_poll co) = Some (False, c')" "unreachable c'"
      using connect_unreachable [OF Cons.prems(2)] by blast
    have "poller_step cfg srt now co = Some (co\<lparr>co_poll := c', co_connected := False\<rparr>)"
      using Cons.prems(2) c'(1) by (simp add: poller_step_def unreachable_def)
    with Cons.IH [of "co\<lparr>co_poll := c', co_connected := False\<rparr>"] c'(2) Cons.prems(1) Poller show ?thesis by auto
  qed
qed

text \<open>A reload that was asked for is forgotten when Redis answers it with an error: the flag is
  cleared before the rules are read, and a failed reload does not set it again, so the next round
  on a healthy connection does not reload unless the polling interval has passed.\<close>

lemma failed_reload_is_forgotten:
  assumes "c_open (co_poll co)" "c_sends (co_poll co) = []" "co_reload co"
    and "\<not> ping_due now co" "\<not> poll_due cfg now' co" "\<not> ping_due now' co" "CR \<notin> set e"
    and "delivers (co_poll co) (wire (error_reply e) @ rest)" "c_dials (co_poll co) = Some fresh # ds" "cf_redisPassword cfg = []"
  shows "\<exists>co1 co2. poller_step cfg srt now co = Some co1 \<and> poller_step cfg srt now' co1 = Some co2 \<and>
    c_open (co_poll co2) \<and> \<not> co_reload co2 \<and> co_store co2 = co_store co \<and> co_lastPoll co2 = co_lastPoll co"
proof -
  have "ping now co = Some (True, co)" using assms(4) by (simp add: ping_def ping_due_def)
  moreover have "reply_ok (error_reply e)" using assms(7) by (simp add: error_reply_def)
  from command_socket [OF assms(1,2) this assms(8)] obtain c1
    where c1: "command [''HGETALL'', cf_rulesHashKey cfg] (co_poll co) = Some (error_reply e, c1)"
      and d: "c_dials c1 = Some fresh # ds" using assms(9) by metis
  moreover have "isError (error_reply e)" by (simp add: isError_def error_reply_def)
  ultimately have p1: "poller_step cfg srt now co =
      Some (co\<lparr>co_reload := False, co_connected := False, co_poll := close_conn c1\<rparr>)" (is "_ = Some ?co1")
    using assms(1,3) by (simp add: poller_step_def poll_rules_def reloadRules_def Let_def)
  have "connect (cf_redisPassword cfg) (close_conn c1) =
      Some (True, (close_conn c1)\<lparr>c_open := True, c_in := fresh, c_out := [], c_dials := ds\<rparr>)" (is "_ = Some (True, ?c2)")
    using d assms(10) by (simp add: connect_def close_conn_def Let_def)
  moreover have "\<not> c_open (close_conn c1)" by (simp add: close_conn_def)
  ultimately have "poller_step cfg srt now' ?co1 = Some (?co1\<lparr>co_poll := ?c2\<rparr>)"
    using assms(5,6) by (simp add: poller_step_def ping_def poll_rules_def poll_due_def ping_due_def Let_def)
  with p1 show ?thesis
    by (intro exI [of _ ?co1] exI [of _ "?co1\<lparr>co_poll := ?c2\<rparr>"]) simp
qed

section \<open>Concrete runs\<close>

definition co0 :: coordinator where
  "co0 = (coordinator_start (chopped []) (chopped []) 0 empty_store)\<lparr>co_lastPing := 0, co_lastPoll := 0\<rparr>"

definition count_purges :: "string list purge_handler" where
  "count_purges p ps = (0, ps @ [p])"

definition by_length :: "rule list \<Rightarrow> rule list" where
  "by_length = sort_key (\<lambda>r. - int (length (r_pattern r)))"

lemma delivers_chopped: "\<forall>b \<in> set bs. b \<noteq> [] \<Longrightarrow> delivers (chopped bs) (concat bs)"
  by (intro delivers_now) (auto simp: chopped_def unread_def comp_def)

lemma poller_installs_rules_witness:
  "\<exists>co'. poller_step default_config by_length 2000000000
      (co0\<lparr>co_poll := chopped [wire pong, take 20 (wire (rules_hash [rule_a])), drop 20 (wire (rules_hash [rule_a]))]\<rparr>) = Some co' \<and>
    co_store co' = \<lparr>rules = by_length [rule_a], loaded = True\<rparr>"
proof -
  let ?w = "wire (rules_hash [rule_a])"
  let ?co = "co0\<lparr>co_poll := chopped [wire pong, take 20 ?w, drop 20 ?w]\<rparr>"
  have "wire pong \<noteq> []" "take 20 ?w \<noteq> []" "drop 20 ?w \<noteq> []" by code_simp+
  then have "delivers (co_poll ?co) (wire pong @ ?w @ [])"
    using delivers_chopped [of "[wire pong, take 20 ?w, drop 20 ?w]"] by simp
  moreover have "ping_due 2000000000 ?co" by code_simp
  ultimately have d: "delivers (co_poll ?co) ((if ping_due 2000000000 ?co then wire pong else []) @ ?w @ [])" by simp
  have "\<forall>r \<in> set [rule_a]. rule_ok r" "length [rule_a] < 2 ^ 62" by code_simp+
  moreover have "c_open (co_poll ?co)" "c_sends (co_poll ?co) = []" "co_reload ?co"
    by (simp_all add: chopped_def co0_def coordinator_start_def)
  ultimately show ?thesis
    using poller_installs_rules [of ?co "[rule_a]" default_config 2000000000 "[]" by_length] d
    by (auto simp: replaceAll_def co0_def coordinator_start_def empty_store_def)
qed


lemma redis_down_is_harmless_witness:
  "\<exists>co'. co_run default_config by_length count_purges [Subscriber, Poller 5, Subscriber] (co0, []) = Some (co', []) \<and>
     \<not> co_connected co'"
proof -
  have "unreachable (co_sub co0)" "unreachable (co_poll co0)"
    by (simp_all add: unreachable_def co0_def coordinator_start_def close_conn_def chopped_def)
  from redis_down_is_harmless [OF this, of default_config by_length count_purges "[Subscriber, Poller 5, Subscriber]" "[]"]
  show ?thesis by auto
qed

lemma failed_reload_is_forgotten_witness:
  "\<exists>co1 co2. poller_step default_config by_length 100
      (co0\<lparr>co_poll := (chopped [wire (error_reply ''LOADING'')])\<lparr>c_dials := [Some []]\<rparr>\<rparr>) = Some co1 \<and>
    poller_step default_config by_length 200 co1 = Some co2 \<and> c_open (co_poll co2) \<and> \<not> co_reload co2"
proof -
  let ?co = "co0\<lparr>co_poll := (chopped [wire (error_reply ''LOADING'')])\<lparr>c_dials := [Some []]\<rparr>\<rparr>"
  have "wire (error_reply ''LOADING'') \<noteq> []" by code_simp
  then have "delivers (co_poll ?co) (wire (error_reply ''LOADING'') @ [])"
    by (intro delivers_now) (simp_all add: chopped_def unread_def)
  moreover have "c_open (co_poll ?co)" "c_sends (co_poll ?co) = []" "co_reload ?co" "\<not> ping_due 100 ?co"
    "\<not> poll_due default_config 200 ?co" "\<not> ping_due 200 ?co" "CR \<notin> set ''LOADING''"
    "c_dials (co_poll ?co) = Some [] # []" "cf_redisPassword default_config = []"
    by code_simp+
  ultimately show ?thesis using failed_reload_is_forgotten [of ?co 100 default_config 200 "''LOADING''" "[]" "[]" "[]" by_length]
    by blast
qed

end
