(* ===== verification/MetricsServer.thy ===== *)
theory MetricsServer
  imports Metrics Listener
begin

text \<open>
  \<^verbatim>\<open>metrics/MetricsServer\<close>: the scrape and health endpoint, one client at a time. It reads once
  from each client (at most 2048 bytes) and answers by the target in what that read brought. The
  page and the readiness are asked of the callbacks when they are needed: \<open>page\<close> and \<open>ready\<close>
  are functions of the moment. Sockets are lists of events, as in the event loop.
\<close>

section \<open>One client\<close>

text \<open>How much each \<^verbatim>\<open>send\<close> takes; 0 stands for any failure. When nothing more is listed it takes all.\<close>

fun page_send :: "nat list \<Rightarrow> string \<Rightarrow> string" where
  "page_send [] out = out"
| "page_send (n # ns) out = (if out = [] \<or> n = 0 then [] else take n out @ page_send ns (drop n out))"

definition page_bytes :: "int \<Rightarrow> string \<Rightarrow> string \<Rightarrow> string \<Rightarrow> string" where
  "page_bytes status reason contentType body =
     ''HTTP/1.1 '' @ show_int status @ '' '' @ reason @ crlf @
     ''Content-Type: '' @ contentType @ crlf @
     ''Content-Length: '' @ show_nat (length body) @ crlf @
     ''Connection: close'' @ crlf @ crlf @ body"

definition sendResponse :: "nat list \<Rightarrow> int \<Rightarrow> string \<Rightarrow> string \<Rightarrow> string \<Rightarrow> string" where
  "sendResponse sends status reason contentType body = page_send sends (page_bytes status reason contentType body)"

text \<open>\<^verbatim>\<open>is >> method >> target\<close>.\<close>

definition scrape_target :: "string \<Rightarrow> string" where
  "scrape_target reqbuf = (case next_token reqbuf of None \<Rightarrow> []
     | Some (method, rest) \<Rightarrow> (case next_token rest of None \<Rightarrow> [] | Some (target, _) \<Rightarrow> target))"

definition serve_page :: "string \<Rightarrow> bool \<Rightarrow> string \<Rightarrow> nat list \<Rightarrow> string" where
  "serve_page page ready reqbuf sends =
     (let target = scrape_target reqbuf in
      if target = ''/metrics'' then sendResponse sends 200 ''OK'' ''text/plain; version=0.0.4'' page
      else if target = ''/healthz'' then sendResponse sends 200 ''OK'' ''text/plain'' (''ok'' @ [LF])
      else if target = ''/readyz'' then
        (if ready then sendResponse sends 200 ''OK'' ''text/plain'' (''ready'' @ [LF])
         else sendResponse sends 503 ''Service Unavailable'' ''text/plain'' (''not ready'' @ [LF]))
      else sendResponse sends 404 ''Not Found'' ''text/plain'' (''not found'' @ [LF]))"

text \<open>A client, with what its one \<^verbatim>\<open>recv\<close> brings (nothing on an error or a timeout), or an accept
  that timed out or failed. The result lists what each client was sent.\<close>

datatype scrape_event = NoClient | AcceptBroken | Client string "nat list"

fun scrape_run :: "(nat \<Rightarrow> string) \<Rightarrow> (nat \<Rightarrow> bool) \<Rightarrow> nat \<Rightarrow> scrape_event list \<Rightarrow> string list" where
  "scrape_run page ready n [] = []"
| "scrape_run page ready n (NoClient # es) = scrape_run page ready (Suc n) es"
| "scrape_run page ready n (AcceptBroken # es) = []"
| "scrape_run page ready n (Client bytes sends # es) =
     serve_page (page n) (ready n) (take 2048 bytes) sends # scrape_run page ready (Suc n) es"

text \<open>The listener is made blocking again, so that \<^verbatim>\<open>accept\<close> waits for its timeout; the result of that call
  is not looked at. The listening socket is closed in the end.\<close>

definition metrics_main :: "listen_env \<Rightarrow> string \<Rightarrow> 16 word \<Rightarrow> (nat \<Rightarrow> string) \<Rightarrow> (nat \<Rightarrow> bool) \<Rightarrow> scrape_event list \<Rightarrow>
    string list \<times> sock option" where
  "metrics_main le host port page ready es =
     (case createReusePortListener le host port of
        (False, err, lsock) \<Rightarrow> ([], lsock)
      | (True, err, lsock) \<Rightarrow>
          (let lsock = map_option (\<lambda>s. snd (setNonBlocking le False s)) lsock in
           (scrape_run page ready 0 es, map_option close_sock lsock)))"

section \<open>Properties\<close>

text \<open>No socket is left open, and a server that started blocks in \<^verbatim>\<open>accept\<close> unless \<^verbatim>\<open>fcntl\<close> failed.\<close>

lemma metrics_main_closes:
  "metrics_main le host port page ready es = (out, Some s) \<Longrightarrow>
     \<not> sk_open s \<and> (fst (createReusePortListener le host port) \<and> le_getfl le \<and> le_setfl le \<longrightarrow> \<not> bit (sk_flags s) 11)"
  by (auto simp: metrics_main_def createReusePortListener_def setNonBlocking_def close_sock_def Let_def bit_simps
      O_NONBLOCK_def split: option.splits prod.splits bool.splits if_splits)

lemma page_send_all: "0 \<notin> set ns \<Longrightarrow> page_send ns out = out"
  by (induction ns out rule: page_send.induct) auto

lemma page_send_prefix: "prefix (page_send ns out) out"
proof (induction ns out rule: page_send.induct)
  case (2 n ns out)
  show ?case
  proof (cases "out = [] \<or> n = 0")
    case False
    then have "prefix (page_send ns (drop n out)) (drop n out)" using 2 by simp
    then have "prefix (take n out @ page_send ns (drop n out)) out" by (metis append_take_drop_id same_prefix_prefix)
    with False show ?thesis by simp
  qed auto
qed simp

lemma scrape_target_request:
  "token m \<Longrightarrow> token t \<Longrightarrow> scrape_target (m @ '' '' @ t @ CHR '' '' # rest) = t"
  by (simp add: scrape_target_def next_token_here next_token_skip)

text \<open>A scrape gets the whole page of that moment, with its exact length: whatever method the client
  uses and whatever stands behind the target, as long as the first read brings the target and the client
  takes what it is sent. A client that stops reading gets a prefix of it.\<close>

lemma scrape_gets_page:
  assumes "token m" "length m + 10 \<le> 2048"
  shows "\<exists>out. scrape_run page ready n (Client (m @ '' '' @ ''/metrics'' @ '' '' @ rest) sends # es) =
      out # scrape_run page ready (Suc n) es \<and>
    prefix out (page_bytes 200 ''OK'' ''text/plain; version=0.0.4'' (page n)) \<and>
    (0 \<notin> set sends \<longrightarrow> out = page_bytes 200 ''OK'' ''text/plain; version=0.0.4'' (page n))"
proof -
  let ?p = "m @ '' '' @ ''/metrics'' @ '' ''"
  have "length ?p = length m + 10" by simp
  then have "take 2048 (?p @ rest) = ?p @ take (2048 - length ?p) rest"
    using assms(2) take_append [of 2048 ?p rest] take_all [of ?p 2048] by simp
  moreover have "token ''/metrics''" by code_simp
  ultimately have "scrape_target (take 2048 (m @ '' '' @ ''/metrics'' @ '' '' @ rest)) = ''/metrics''"
    using scrape_target_request [OF assms(1), of "''/metrics''"] by simp
  then show ?thesis
    using page_send_prefix page_send_all by (simp add: serve_page_def Let_def sendResponse_def)
qed

lemma scrape_gets_page_witness:
  "scrape_run (\<lambda>n. ''up 1'') (\<lambda>n. True) 0 [Client ''GET /metrics HTTP/1.1'' [3, 5]] =
     [page_bytes 200 ''OK'' ''text/plain; version=0.0.4'' ''up 1'']"
proof -
  have "token ''GET''" "length ''GET'' + 10 \<le> 2048" by code_simp+
  from scrape_gets_page [OF this, of "\<lambda>n. ''up 1''" "\<lambda>n. True" 0 "''HTTP/1.1''" "[3, 5]" "[]"] show ?thesis by auto
qed

end
