(* ===== verification/KafkaAccessLogSink.thy ===== *)
theory KafkaAccessLogSink
  imports RequestHandler
begin

text \<open>
  \<^verbatim>\<open>analytics/KafkaAccessLogSink\<close>: the access-log events as JSON text, handed to librdkafka. The
  library is the environment: whether the producer and the topic could be made, and whether each
  \<^verbatim>\<open>rd_kafka_produce\<close> takes its message (its queue may be full). How a stream prints a
  \<^verbatim>\<open>double\<close> is the argument \<open>shw\<close>. The polling thread only gives the library time and has no state.
\<close>

section \<open>The sink\<close>

text \<open>\<open>ks_queue\<close>: the payload and the key of every message the library took.\<close>

record kafka_sink =
  ks_ready :: bool
  ks_queue :: "(string \<times> string) list"
  ks_dropped :: u64

definition kafka_open :: "bool \<Rightarrow> bool \<Rightarrow> kafka_sink" where
  "kafka_open producer topic = \<lparr>ks_ready = (producer \<and> topic), ks_queue = [], ks_dropped = 0\<rparr>"

definition json_key :: "string \<Rightarrow> string" where
  "json_key k = CHR 0x22 # k @ [CHR 0x22, CHR '':'']"

definition json_text :: "string \<Rightarrow> string" where
  "json_text s = CHR 0x22 # s @ [CHR 0x22]"

definition event_payload :: "(rat \<Rightarrow> string) \<Rightarrow> log_event \<Rightarrow> string" where
  "event_payload shw ev =
     ''{'' @ json_key ''timestamp'' @ show_int (ev_timestampMs ev) @
     '','' @ json_key ''replicaId'' @ json_text (ev_replicaId ev) @
     '','' @ json_key ''path'' @ json_text (ev_path ev) @
     '','' @ json_key ''cacheKey'' @ json_text (ev_cacheKey ev) @
     '','' @ json_key ''result'' @ json_text (ev_result ev) @
     '','' @ json_key ''status'' @ show_int (ev_status ev) @
     '','' @ json_key ''latencyMs'' @ shw (ev_latencyMs ev) @
     '','' @ json_key ''bytesServed'' @ show_nat (unat (ev_bytesServed ev)) @ ''}''"

definition kafka_log :: "(rat \<Rightarrow> string) \<Rightarrow> bool \<Rightarrow> log_event \<Rightarrow> kafka_sink \<Rightarrow> kafka_sink" where
  "kafka_log shw taken ev k =
     (if \<not> ks_ready k then k
      else if taken then k\<lparr>ks_queue := ks_queue k @ [(event_payload shw ev, ev_path ev)]\<rparr>
      else k\<lparr>ks_dropped := ks_dropped k + 1\<rparr>)"

section \<open>What reaches the consumer\<close>

fun kafka_run :: "(rat \<Rightarrow> string) \<Rightarrow> (bool \<times> log_event) list \<Rightarrow> kafka_sink \<Rightarrow> kafka_sink" where
  "kafka_run shw [] k = k"
| "kafka_run shw (e # es) k = kafka_run shw es (kafka_log shw (fst e) (snd e) k)"

text \<open>Every event is queued, in order, or counted as dropped.\<close>

lemma kafka_run_counts:
  "ks_ready k \<Longrightarrow>
     ks_queue (kafka_run shw es k) = ks_queue k @ map (\<lambda>e. (event_payload shw (snd e), ev_path (snd e))) (filter fst es) \<and>
     ks_dropped (kafka_run shw es k) = ks_dropped k + of_nat (length (filter (\<lambda>e. \<not> fst e) es))"
  by (induction es arbitrary: k) (auto simp: kafka_log_def)

text \<open>The fields are not escaped: a quote in the path ends its field early.\<close>

lemma payload_not_escaped:
  "event_payload shw (ev\<lparr>ev_path := p @ CHR 0x22 # q\<rparr>) =
     ''{'' @ json_key ''timestamp'' @ show_int (ev_timestampMs ev) @
     '','' @ json_key ''replicaId'' @ json_text (ev_replicaId ev) @
     '','' @ json_key ''path'' @ json_text p @ q @ [CHR 0x22] @
     '','' @ json_key ''cacheKey'' @ json_text (ev_cacheKey ev) @
     '','' @ json_key ''result'' @ json_text (ev_result ev) @
     '','' @ json_key ''status'' @ show_int (ev_status ev) @
     '','' @ json_key ''latencyMs'' @ shw (ev_latencyMs ev) @
     '','' @ json_key ''bytesServed'' @ show_nat (unat (ev_bytesServed ev)) @ ''}''"
  by (simp add: event_payload_def json_text_def)

end
