(* ===== verification/ProxyServer.thy ===== *)
theory ProxyServer
  imports HttpOriginClient EventLoop RedisCoordinator MetricsServer KafkaAccessLogSink Listener
begin

text \<open>
  \<^verbatim>\<open>ProxyServer\<close>: the components wired together. A server is the world of the request handler and
  the coordinator, whose purge handler acts on that world and whose rule store the policy reads.
  The steps that the threads take on it, and what holds in every state they reach, are in
  \<open>ServerProperties\<close>. The threads themselves, from start to join, are in \<open>Lifecycle\<close>. The log lines are not modelled.
\<close>

section \<open>The server\<close>

record server =
  sv_world :: world
  sv_co :: coordinator
  sv_lastSweep :: time

text \<open>The constructor. \<open>clk\<close> and \<open>wall\<close> are the readings of the clocks; the two Redis connections of the
  coordinator and that of the shared tier start closed.\<close>

definition new_world :: "config \<Rightarrow> conn \<Rightarrow> (nat \<Rightarrow> time) \<Rightarrow> (nat \<Rightarrow> u64) \<Rightarrow> world" where
  "new_world cfg l2conn clk wall =
     \<lparr>w_cache = sharded_new (cf_maxCacheBytes cfg) (if cf_workerThreads cfg \<noteq> 0 then cf_workerThreads cfg else 1),
      w_breakers = new_registry cfg, w_inflight = new_inflight, w_metrics = new_metrics,
      w_l2 = (if cf_l2Enabled cfg then Some (close_conn l2conn) else None), w_log = Some [], w_jobs = [],
      w_clock = clk, w_wall = wall, w_reads = 0\<rparr>"

definition new_server :: "config \<Rightarrow> conn \<Rightarrow> conn \<Rightarrow> conn \<Rightarrow> time \<Rightarrow> (nat \<Rightarrow> time) \<Rightarrow> (nat \<Rightarrow> u64) \<Rightarrow> server" where
  "new_server cfg sub poll l2conn now clk wall =
     \<lparr>sv_world = new_world cfg l2conn clk wall, sv_co = coordinator_start sub poll now empty_store, sv_lastSweep = now\<rparr>"

definition purgeAllShards :: "string \<Rightarrow> world \<Rightarrow> u64 \<times> world" where
  "purgeAllShards pattern w =
     (let w = count_metric recordPurgeMessage w;
          (c, n) = sharded_purge (w_cache w) pattern;
          w = w\<lparr>w_cache := c\<rparr>
      in (n, count_metric (addPurgedKeys n) w))"

text \<open>The callbacks that \<^verbatim>\<open>wireMetrics\<close> installs, and the page rendered from them.\<close>

definition wireMetrics :: "server \<Rightarrow> gauges" where
  "wireMetrics sv =
     \<lparr>g_evictions = sharded_evictions (w_cache (sv_world sv)), g_coalesced = if_coalesced (w_inflight (sv_world sv)),
      g_cacheSizeBytes = sharded_sizeBytes (w_cache (sv_world sv)), g_cacheEntries = sharded_count (w_cache (sv_world sv)),
      g_ruleCount = of_nat (store_size (co_store (sv_co sv))), g_redisConnected = co_connected (sv_co sv),
      g_circuitStates = snapshot (w_breakers (sv_world sv))\<rparr>"

definition metrics_page :: "(rat \<Rightarrow> string) \<Rightarrow> server \<Rightarrow> string" where
  "metrics_page shw sv = render shw (wireMetrics sv) (w_metrics (sv_world sv))"

text \<open>The tick of the first worker: a sweep when ten seconds have passed since the last one.\<close>

definition sweep_tick :: "time \<Rightarrow> server \<Rightarrow> server" where
  "sweep_tick now sv =
     (if 10 \<le> to_seconds (now - sv_lastSweep sv)
      then (let w = sv_world sv in
        sv\<lparr>sv_world := w\<lparr>w_cache := fst (sharded_sweepExpired (w_cache w) now)\<rparr>, sv_lastSweep := now\<rparr>)
      else sv)"

definition on_tick :: "nat \<Rightarrow> server \<Rightarrow> server" where
  "on_tick i sv =
     (if i = 0 then (let (now, w) = clock (sv_world sv) in sweep_tick now (sv\<lparr>sv_world := w\<rparr>)) else sv)"

text \<open>The policy the handler was given: the rules over the headers.\<close>

definition sv_policy :: "config \<Rightarrow> server \<Rightarrow> decider" where
  "sv_policy cfg sv = rule_decide (co_store (sv_co sv)) (cf_defaultTtl cfg)"

text \<open>The origin client over a network that answers each call. A call that never returns has no result;
  it cannot happen when a read timeout is set.\<close>

definition origin_over :: "(http_request \<Rightarrow> origin_target \<Rightarrow> origin_net) \<Rightarrow> http_request \<Rightarrow> origin_target \<Rightarrow> origin_result" where
  "origin_over net req t = (case http_fetch (net req t) req t of None \<Rightarrow> no_result | Some (r, out) \<Rightarrow> r)"

definition serve :: "config \<Rightarrow> fetcher \<Rightarrow> (nat \<Rightarrow> world \<Rightarrow> world option) \<Rightarrow> (string \<Rightarrow> u64) \<Rightarrow> server request_fn" where
  "serve cfg fetch wait h req sv = (case handle cfg (sv_policy cfg sv) fetch wait h req (sv_world sv) of
     None \<Rightarrow> None
   | Some (resp, w) \<Rightarrow> Some (resp, sv\<lparr>sv_world := w\<rparr>))"

text \<open>The thread of the \<open>i\<close>th worker: its event loop over what the kernel reports, with the handler as its
  callback and the sweep as the tick of the first worker. It fails when its listener cannot be made.\<close>

definition worker_main :: "config \<Rightarrow> nat \<Rightarrow> fetcher \<Rightarrow> (nat \<Rightarrow> world \<Rightarrow> world option) \<Rightarrow> (string \<Rightarrow> u64) \<Rightarrow>
    listen_env \<Rightarrow> bool \<Rightarrow> turn list \<Rightarrow> server \<Rightarrow> (bool \<times> server) option" where
  "worker_main cfg i fetch wait h le epoll ts sv =
     el_main le (cf_listenHost cfg) (cf_listenPort cfg) epoll (serve cfg fetch wait h) (on_tick i) ts sv"

end
