(* ===== verification/RedisEnds.thy ===== *)
theory RedisEnds
  imports RedisCoordinator
begin

text \<open>
  Talking to a Redis that can do anything but wait for ever: whatever it sends, in whatever pieces,
  every connection is broken in the end (\<open>mortal\<close>). Then every operation on a connection returns, the
  rounds of both threads of the coordinator return.
\<close>

section \<open>What Redis sends\<close>

text \<open>\<open>mortal\<close>: the peer breaks every socket in the end. \<open>tame V\<close>: and sends at most \<open>V\<close> bytes over
  it before.\<close>

definition mortal :: "conn \<Rightarrow> bool" where
  "mortal c \<longleftrightarrow> live False c \<and> (\<forall>es. Some es \<in> set (c_dials c) \<longrightarrow> dies es)"

definition tame :: "nat \<Rightarrow> conn \<Rightarrow> bool" where
  "tame V c \<longleftrightarrow> mortal c \<and> length (unread c) \<le> V \<and>
     (\<forall>es. Some es \<in> set (c_dials c) \<longrightarrow> length (concat (map event_bytes es)) \<le> V)"

lemma mortal_tame: "mortal c \<Longrightarrow> \<exists>V. \<forall>V' \<ge> V. tame V' c"
proof -
  assume "mortal c"
  let ?vs = "map (\<lambda>d. case d of None \<Rightarrow> 0 | Some es \<Rightarrow> length (concat (map event_bytes es))) (c_dials c)"
  have "length (concat (map event_bytes es)) \<le> sum_list ?vs" if "Some es \<in> set (c_dials c)" for es
    using that by (intro member_le_sum_list) (force, simp)
  with \<open>mortal c\<close> have "tame V' c" if "length (unread c) + sum_list ?vs \<le> V'" for V'
    using that unfolding tame_def by fastforce
  then show ?thesis by blast
qed

lemma readLine_bytes: "readLine t c = Some (Some l, c') \<Longrightarrow> length l \<le> length (unread c)"
proof (induction t c rule: readLine.induct)
  case (1 t c)
  show ?case
  proof (cases "find_from crlf (c_rbuf c) (c_rpos c)")
    case (Some nl)
    have "c_rpos c \<le> nl" "nl + 2 \<le> length (c_rbuf c)"
      using find_from_bounds [OF Some] by (auto simp: crlf_def)
    with Some 1(2) show ?thesis by (auto simp: readLine_here unread_def substr_def)
  next
    case None
    with 1(2) obtain c1 where f: "fillBuffer t c = Some (True, c1)" "readLine t c1 = Some (Some l, c')"
      by (subst (asm) readLine.simps) (auto split: option.splits bool.splits prod.splits)
    from 1(1) [OF None f(1) refl _ f(2)] fillBuffer_unread [OF f(1)] show ?thesis by simp
  qed
qed

lemma readN_bytes: "readN n t c = Some (Some s, c') \<Longrightarrow> length s \<le> length (unread c)"
proof (induction n t c rule: readN.induct)
  case (1 n t c)
  show ?case
  proof (cases "length (c_rbuf c) - c_rpos c < n + 2")
    case True
    with 1(2) obtain c1 where f: "fillBuffer t c = Some (True, c1)" "readN n t c1 = Some (Some s, c')"
      by (subst (asm) readN.simps) (auto split: option.splits bool.splits prod.splits)
    from 1(1) [OF True f(1) refl _ f(2)] fillBuffer_unread [OF f(1)] show ?thesis by simp
  next
    case False
    with 1(2) show ?thesis by (subst (asm) readN.simps) (auto simp: unread_def substr_def)
  qed
qed

lemma parse_bytes:
  assumes "parse_reply t c = Some (Some r, c')"
  shows "length (rp_str r) \<le> length (unread c)"
proof -
  obtain ty l c1 where l: "readLine t c = Some (Some (ty # l), c1)"
    using assms by (auto simp: parse_reply_def split: option.splits prod.splits list.splits)
  have "length l \<le> length (unread c)" using readLine_bytes [OF l] by simp
  moreover have "length s \<le> length (unread c)" if "readN n t c1 = Some (Some s, c2)" for n s c2
    using readN_bytes [OF that] readLine_unread [OF l] by simp
  ultimately show ?thesis
    using assms l by (auto simp: parse_reply_def Let_def split: if_splits option.splits prod.splits)
qed

section \<open>Commands on a tame connection\<close>

lemma tame_frame:
  "tame V c \<Longrightarrow> tame V (close_conn c)" "tame V c \<Longrightarrow> tame V (c\<lparr>c_sends := ss\<rparr>)" "tame V c \<Longrightarrow> tame V (c\<lparr>c_out := out\<rparr>)"
  using close_unread [of c]
  by (auto simp: tame_def mortal_def live_def unread_def close_conn_def)

lemma writeAll_tame: "writeAll data c = (ok, c') \<Longrightarrow> tame V c \<Longrightarrow> tame V c' \<and> c_open c' = c_open c"
  by (auto simp: writeAll_def tame_frame split: prod.splits)

lemma parse_tame:
  assumes "c_open c" "tame V c"
  shows "\<exists>r c'. parse_reply t c = Some (r, c') \<and> tame V c' \<and>
    (\<forall>x. r = Some x \<longrightarrow> c_open c' \<and> length (rp_str x) \<le> V)"
proof -
  have m: "mortal c" "length (unread c) \<le> V" using assms by (simp_all add: tame_def)
  obtain r c' where r: "parse_reply t c = Some (r, c')" "mortal c'" "c_dials c' = c_dials c" "r \<noteq> None \<longrightarrow> c_open c'"
    using parse_reply_live [of False t c] assms(1) m(1) by (auto simp: mortal_def ends_well_def)
  moreover have "length (unread c') \<le> V" using parse_unread [OF r(1) [unfolded parse_reply_def]] m by simp
  ultimately have "tame V c'" using assms(2) by (simp add: tame_def)
  with r(1,4) m(2) parse_bytes [of t c] show ?thesis by fastforce
qed

lemma command_tame:
  assumes "tame V c"
  shows "\<exists>r c'. command args c = Some (r, c') \<and> tame V c' \<and> (isError r \<or> length (rp_str r) \<le> V)"
proof (cases "c_open c")
  case True
  obtain ok c1 where w: "writeAll (encode args) c = (ok, c1)" by (metis surj_pair)
  have c1: "tame V c1" "c_open c1" using writeAll_tame [OF w] assms True by simp_all
  obtain r c2 where p: "parse_reply (- 1) c1 = Some (r, c2)" "tame V c2" "\<forall>x. r = Some x \<longrightarrow> length (rp_str x) \<le> V"
    using parse_tame [OF c1(2,1)] by blast
  show ?thesis
  proof (cases ok)
    case True
    with w p \<open>c_open c\<close> show ?thesis by (cases r) (simp_all add: command_def error_reply_def isError_def)
  next
    case False
    with w tame_frame(1) [OF c1(1)] \<open>c_open c\<close> show ?thesis by (simp add: command_def error_reply_def isError_def)
  qed
qed (use assms in \<open>simp add: command_def error_reply_def isError_def\<close>)

lemma connect_tame:
  assumes "tame V c"
  shows "\<exists>ok c'. connect pw c = Some (ok, c') \<and> tame V c'"
proof (cases "c_dials c")
  case Nil
  then show ?thesis using tame_frame(1) [OF assms] by (simp add: connect_def Let_def close_conn_def ex_bool_eq)
next
  case (Cons d ds)
  have dials: "Some es \<in> set ds \<Longrightarrow> dies es \<and> length (concat (map event_bytes es)) \<le> V" for es
    using assms Cons by (simp add: tame_def mortal_def)
  show ?thesis
  proof (cases d)
    case None
    have "length (unread (close_conn c)) \<le> V" using tame_frame(1) [OF assms] by (simp add: tame_def)
    with dials have "tame V ((close_conn c)\<lparr>c_dials := ds\<rparr>)"
      by (simp add: tame_def mortal_def live_def close_conn_def unread_def)
    with Cons None show ?thesis by (simp add: connect_def Let_def close_conn_def ex_bool_eq)
  next
    case (Some es)
    let ?c = "(close_conn c)\<lparr>c_open := True, c_in := es, c_out := [], c_dials := ds\<rparr>"
    have m: "tame V ?c" using Cons Some dials assms
      by (simp add: tame_def mortal_def live_def close_conn_def unread_def)
    obtain r c1 where r: "command [''AUTH'', pw] ?c = Some (r, c1)" "tame V c1" using command_tame [OF m] by blast
    show ?thesis
      using Cons Some m r tame_frame(1) [OF r(2)] by (simp add: connect_def Let_def close_conn_def ex_bool_eq)
  qed
qed

lemma readReply_tame: "tame V c \<Longrightarrow> \<exists>r c'. readReply t c = Some (r, c') \<and> tame V c'"
  using parse_tame [of c V t] by (auto simp: readReply_def)

lemma skip_tame: "c_open c \<Longrightarrow> tame V c \<Longrightarrow> \<exists>ok c'. skip_replies n c = Some (ok, c') \<and> tame V c'"
proof (induction n arbitrary: c)
  case (Suc n)
  obtain r c1 where r: "parse_reply 5000 c = Some (r, c1)" "tame V c1" "r \<noteq> None \<longrightarrow> c_open c1"
    using parse_tame [OF Suc.prems, of 5000] by blast
  with Suc.IH [of c1] show ?case by (cases r) auto
qed (simp add: ex_bool_eq)

lemma subscribe_tame:
  assumes "tame V c"
  shows "\<exists>ok c'. subscribe chs c = Some (ok, c') \<and> tame V c'"
proof -
  obtain ok c1 where w: "writeAll (encode (''SUBSCRIBE'' # chs)) c = (ok, c1)" by (metis surj_pair)
  note c1 = writeAll_tame [OF w]
  show ?thesis
    using w c1 assms skip_tame [of c1 V "length chs"] tame_frame(1) [of V c1]
    by (cases ok) (auto simp: subscribe_def)
qed

section \<open>The coordinator's threads\<close>

definition co_tame :: "nat \<Rightarrow> coordinator \<Rightarrow> bool" where
  "co_tame V co \<longleftrightarrow> tame V (co_sub co) \<and> tame V (co_poll co)"

lemma receive_message_tame:
  assumes "co_tame V (fst st)"
  shows "\<exists>st'. receive_message cfg onPurge st = Some st' \<and> co_tame V (fst st')"
proof -
  obtain r c where r: "readReply 1000 (co_sub (fst st)) = Some (r, c)" "tame V c"
    using readReply_tame [of V "co_sub (fst st)" 1000] assms unfolding co_tame_def by blast
  have "co_sub (fst (on_message cfg onPurge msg st')) = co_sub (fst st') \<and>
      co_poll (fst (on_message cfg onPurge msg st')) = co_poll (fst st')" for msg st'
    by (simp add: on_message_def Let_def case_prod_beta)
  with r assms show ?thesis by (cases r) (auto simp: receive_message_def co_tame_def Let_def)
qed

lemma subscriber_tame:
  assumes "co_tame V co"
  shows "\<exists>st'. subscriber_step cfg onPurge (co, s) = Some st' \<and> co_tame V (fst st')"
proof (cases "c_open (co_sub co)")
  case True
  with receive_message_tame [of V "(co, s)"] assms show ?thesis by (simp add: subscriber_step_def)
next
  case False
  obtain ok c where c: "connect (cf_redisPassword cfg) (co_sub co) = Some (ok, c)" "tame V c"
    using connect_tame [of V "co_sub co" "cf_redisPassword cfg"] assms unfolding co_tame_def by blast
  obtain ok' c' where s: "subscribe [cf_purgeChannel cfg, cf_ruleUpdateChannel cfg] c = Some (ok', c')" "tame V c'"
    using subscribe_tame [OF c(2)] by blast
  have m: "co_tame V (co\<lparr>co_sub := c\<rparr>)" "co_tame V (co\<lparr>co_sub := c'\<rparr>)"
    using c s assms by (simp_all add: co_tame_def)
  show ?thesis
    using False c(1) s(1) m receive_message_tame [of V "(co\<lparr>co_sub := c'\<rparr>, s)" cfg onPurge]
    by (cases ok; cases ok') (auto simp: subscriber_step_def)
qed

lemma ping_tame:
  assumes "co_tame V co"
  shows "\<exists>ok co'. ping now co = Some (ok, co') \<and> co_tame V co'"
proof -
  obtain r c where "command [''PING''] (co_poll co) = Some (r, c)" "tame V c"
    using command_tame [of V "co_poll co" "[''PING'']"] assms unfolding co_tame_def by blast
  with assms tame_frame(1) [of V c] show ?thesis by (auto simp: ping_def co_tame_def Let_def)
qed

lemma poll_rules_tame:
  assumes "co_tame V co"
  shows "\<exists>co'. poll_rules cfg srt now co = Some co' \<and> co_tame V co'"
proof -
  obtain r c where "command [''HGETALL'', cf_rulesHashKey cfg] (co_poll co) = Some (r, c)" "tame V c"
    using command_tame [of V "co_poll co" "[''HGETALL'', cf_rulesHashKey cfg]"] assms unfolding co_tame_def by blast
  with assms tame_frame(1) [of V c] show ?thesis
    by (auto simp: poll_rules_def reloadRules_def co_tame_def Let_def)
qed

lemma poller_tame:
  assumes "co_tame V co"
  shows "\<exists>co'. poller_step cfg srt now co = Some co' \<and> co_tame V co'"
proof -
  have round: "\<exists>co'. (case ping now c of None \<Rightarrow> None | Some (False, co) \<Rightarrow> Some co
      | Some (True, co) \<Rightarrow> poll_rules cfg srt now co) = Some co' \<and> co_tame V co'" if m: "co_tame V c" for c
  proof -
    obtain ok c' where p: "ping now c = Some (ok, c')" "co_tame V c'" using ping_tame [OF m] by blast
    show ?thesis using p poll_rules_tame [OF p(2), of cfg srt now] by (cases ok) simp_all
  qed
  obtain ok c where c: "connect (cf_redisPassword cfg) (co_poll co) = Some (ok, c)" "tame V c"
    using connect_tame [of V "co_poll co" "cf_redisPassword cfg"] assms unfolding co_tame_def by blast
  have "co_tame V (co\<lparr>co_poll := c\<rparr>)" "co_tame V (co\<lparr>co_poll := c, co_connected := False\<rparr>)"
    using c(2) assms by (simp_all add: co_tame_def)
  then show ?thesis
    using c(1) round [OF assms] round [of "co\<lparr>co_poll := c\<rparr>"] by (cases ok) (simp_all add: poller_step_def)
qed


text \<open>A coordinator whose Redis hangs up in the middle of the answer to \<^verbatim>\<open>SUBSCRIBE\<close>, and one in the
  middle of a number.\<close>

definition broken_off :: "string \<Rightarrow> conn" where
  "broken_off s = \<lparr>c_open = False, c_rbuf = [], c_rpos = 0, c_in = [], c_sends = [], c_out = [],
     c_dials = [Some [Bytes s, Quiet, Bytes []]]\<rparr>"


end
