(* ===== verification/HandlerProperties.thy ===== *)
theory HandlerProperties
  imports RequestHandler
begin

text \<open>
  What the handler promises, for every implementation of the policy and of the origin client. The
  cache enters through the laws of \<open>cache_store\<close>, the registry of slots through
  \<open>single_flight\<close>, the policy through \<open>cache_policy\<close>.
\<close>

section \<open>The parts of the world\<close>

definition stored :: "(string \<Rightarrow> u64) \<Rightarrow> world \<Rightarrow> string \<Rightarrow> cache_entry option" where
  "stored h w = look h (w_cache w)"

definition world_ok :: "(string \<Rightarrow> u64) \<Rightarrow> world \<Rightarrow> bool" where
  "world_ok h w \<longleftrightarrow> sharded_inv h (w_cache w) \<and> registry_inv (w_breakers w)"

text \<open>No sum of sizes overflows: the entry fits beside a full shard.\<close>

definition roomy :: "world \<Rightarrow> cache_entry \<Rightarrow> bool" where
  "roomy w e \<longleftrightarrow> (\<forall>k. sharded_room (w_cache w) (OpPut k e))"

lemma fits_cong:
  assumes "sharded_inv h c" "sharded_inv h c'" "map maxBytes c = map maxBytes c'"
  shows "sharded_fits h c = sharded_fits h c'"
proof -
  have len: "length c = length c'" using arg_cong [OF assms(3), of length] by simp
  have "maxBytes (c ! shardFor h c k) = maxBytes (c' ! shardFor h c' k)" for k
    using shardFor_less [OF assms(1), of k] shardFor_less [OF assms(2), of k] shardFor_length [OF len, of h k]
    by (metis assms(3) nth_map)
  then show ?thesis by (simp add: sharded_fits_def fun_eq_iff)
qed

lemma cache_get_step:
  assumes "world_ok h w"
  shows "\<exists>w'. cache_get h key w = Some (stored h w key, w') \<and> world_ok h w' \<and> stored h w' = stored h w \<and>
    w' = w\<lparr>w_cache := w_cache w'\<rparr> \<and> roomy w' = roomy w \<and>
    sharded_fits h (w_cache w') = sharded_fits h (w_cache w)"
proof -
  have inv: "sharded_inv h (w_cache w)" using assms by (simp add: world_ok_def)
  from sharded_get_step [OF this, of key] obtain c
    where c: "sharded_get h (w_cache w) key = Some (c, look h (w_cache w) key)" "sharded_inv h c"
      "look h c = look h (w_cache w)" "map maxBytes c = map maxBytes (w_cache w)" by blast
  from fits_cong [OF this(2) inv this(4)] this show ?thesis using assms
    by (intro exI [of _ "w\<lparr>w_cache := c\<rparr>"])
      (simp add: cache_get_def stored_def world_ok_def roomy_def sharded_room_def fun_eq_iff)
qed

lemma cache_put_step:
  assumes "world_ok h w" "roomy w e"
  shows "\<exists>w'. cache_put h key e w = Some w' \<and> world_ok h w' \<and> stored h w' \<subseteq>\<^sub>m (stored h w)(key \<mapsto> e) \<and>
    w' = w\<lparr>w_cache := w_cache w'\<rparr> \<and> roomy w' = roomy w \<and>
    (sharded_fits h (w_cache w) key e \<longrightarrow> stored h w' key = Some e)"
proof -
  have inv: "sharded_inv h (w_cache w)" and room: "sharded_room (w_cache w) (OpPut key e)"
    using assms by (simp_all add: world_ok_def roomy_def)
  from sharded.op_step [OF inv room] obtain c
    where c: "sharded_put h (w_cache w) key e = Some c" "sharded_inv h c"
      "look h c \<subseteq>\<^sub>m (look h (w_cache w))(key \<mapsto> e)" "sharded_room c = sharded_room (w_cache w)" by auto
  have "look h c key = Some e" if "sharded_fits h (w_cache w) key e"
    using sharded.put_hit [OF inv room that, of c] c(1) by simp
  with c show ?thesis using assms(1)
    by (intro exI [of _ "w\<lparr>w_cache := c\<rparr>"])
      (simp add: cache_put_def stored_def world_ok_def roomy_def fun_eq_iff)
qed

text \<open>What the steps that do not touch the cache leave alone.\<close>

lemma clock_frame [simp]:
  "w_cache (snd (clock w)) = w_cache w" "w_breakers (snd (clock w)) = w_breakers w"
  "w_inflight (snd (clock w)) = w_inflight w" "w_metrics (snd (clock w)) = w_metrics w"
  "w_l2 (snd (clock w)) = w_l2 w" "w_log (snd (clock w)) = w_log w" "w_jobs (snd (clock w)) = w_jobs w"
  "fst (clock w) = w_clock w (w_reads w)" "w_clock (snd (clock w)) = w_clock w"
  "w_reads (snd (clock w)) = Suc (w_reads w)"
  by (simp_all add: clock_def)

lemma wall_clock_frame [simp]:
  "w_cache (snd (wall_clock w)) = w_cache w" "w_breakers (snd (wall_clock w)) = w_breakers w"
  "w_inflight (snd (wall_clock w)) = w_inflight w" "w_metrics (snd (wall_clock w)) = w_metrics w"
  "w_l2 (snd (wall_clock w)) = w_l2 w" "w_log (snd (wall_clock w)) = w_log w"
  "w_jobs (snd (wall_clock w)) = w_jobs w"
  by (simp_all add: wall_clock_def)

lemma count_metric_frame [simp]:
  "w_cache (count_metric f w) = w_cache w" "w_breakers (count_metric f w) = w_breakers w"
  "w_inflight (count_metric f w) = w_inflight w" "w_metrics (count_metric f w) = f (w_metrics w)"
  "w_l2 (count_metric f w) = w_l2 w" "w_log (count_metric f w) = w_log w"
  "w_jobs (count_metric f w) = w_jobs w" "w_clock (count_metric f w) = w_clock w"
  "w_reads (count_metric f w) = w_reads w"
  by (simp_all add: count_metric_def)

lemma breaker_op_frame [simp]:
  "w_cache (snd (breaker_op host f w)) = w_cache w" "w_inflight (snd (breaker_op host f w)) = w_inflight w"
  "w_metrics (snd (breaker_op host f w)) = w_metrics w" "w_l2 (snd (breaker_op host f w)) = w_l2 w"
  "w_log (snd (breaker_op host f w)) = w_log w" "w_jobs (snd (breaker_op host f w)) = w_jobs w"
  "w_clock (snd (breaker_op host f w)) = w_clock w" "w_reads (snd (breaker_op host f w)) = w_reads w"
  by (simp_all add: breaker_op_def case_prod_beta Let_def)

lemma publish_slot_frame [simp]:
  "w_cache (publish_slot k r b w) = w_cache w" "w_breakers (publish_slot k r b w) = w_breakers w"
  "w_metrics (publish_slot k r b w) = w_metrics w" "w_l2 (publish_slot k r b w) = w_l2 w"
  "w_log (publish_slot k r b w) = w_log w" "w_jobs (publish_slot k r b w) = w_jobs w"
  "w_inflight (publish_slot k r b w) = publish k r b (w_inflight w)"
  by (simp_all add: publish_slot_def)

lemma served_frame [simp]:
  "fst (served resp w) = resp" "w_cache (snd (served resp w)) = w_cache w"
  "w_breakers (snd (served resp w)) = w_breakers w" "w_inflight (snd (served resp w)) = w_inflight w"
  "w_l2 (snd (served resp w)) = w_l2 w" "w_log (snd (served resp w)) = w_log w"
  "w_jobs (snd (served resp w)) = w_jobs w"
  by (simp_all add: served_def)

lemma stored_cache: "w_cache w = w_cache w' \<Longrightarrow> stored h w = stored h w'"
  by (simp add: stored_def)

lemma breaker_op_inv: "registry_inv (w_breakers w) \<Longrightarrow> registry_inv (w_breakers (snd (breaker_op host f w)))"
  using with_breaker_spec(2) [of "w_breakers w" host f]
  by (simp add: breaker_op_def case_prod_beta Let_def)

section \<open>The guarded fetch\<close>

text \<open>An origin that answers while no other thread runs.\<close>

definition calm :: "(http_request \<Rightarrow> origin_target \<Rightarrow> origin_result) \<Rightarrow> fetcher" where
  "calm origin req t w = (origin req t, w)"

definition allowed :: "string \<Rightarrow> world \<Rightarrow> bool" where
  "allowed host w = fst (allowRequest (w_clock w (w_reads w)) (breaker_of (w_breakers w) host))"

definition asked :: "string \<Rightarrow> world \<Rightarrow> breaker" where
  "asked host w = snd (allowRequest (w_clock w (w_reads w)) (breaker_of (w_breakers w) host))"

lemma fst_breaker_op:
  "registry_inv (w_breakers w) \<Longrightarrow> fst (breaker_op host f w) = fst (f (breaker_of (w_breakers w) host))"
  by (simp add: breaker_op_def case_prod_beta Let_def with_breaker_spec(1))

lemma breaker_op_of:
  "registry_inv (w_breakers w) \<Longrightarrow> breaker_of (w_breakers (snd (breaker_op host f w))) q =
     (if q = host then snd (f (breaker_of (w_breakers w) host)) else breaker_of (w_breakers w) q)"
  by (simp add: breaker_op_def case_prod_beta Let_def with_breaker_of)

text \<open>The world in which the origin is asked.\<close>

definition asking :: "origin_target \<Rightarrow> world \<Rightarrow> world" where
  "asking t w = (let (now, w) = clock w in snd (clock (snd (breaker_op (ot_host t) (allowRequest now) w))))"

lemma asking_frame [simp]:
  "w_cache (asking t w) = w_cache w" "w_inflight (asking t w) = w_inflight w"
  "w_metrics (asking t w) = w_metrics w" "w_l2 (asking t w) = w_l2 w" "w_log (asking t w) = w_log w"
  "w_jobs (asking t w) = w_jobs w"
  by (simp_all add: asking_def case_prod_beta Let_def)

lemma asking_breakers:
  assumes "registry_inv (w_breakers w)"
  shows "registry_inv (w_breakers (asking t w))"
    "breaker_of (w_breakers (asking t w)) q =
      (if q = ot_host t then asked q w else breaker_of (w_breakers w) q)"
  using assms
  by (simp_all add: asking_def case_prod_beta Let_def breaker_op_inv breaker_op_of asked_def clock_def)

lemma fetchGuarded_open:
  assumes "registry_inv (w_breakers w)" "\<not> allowed (ot_host t) w"
  shows "fetchGuarded fetch req t w = ((no_result\<lparr>or_error := ''circuit open''\<rparr>, True),
    count_metric recordCircuitReject
      (snd (breaker_op (ot_host t) (allowRequest (w_clock w (w_reads w))) (snd (clock w)))))"
proof -
  have "\<not> fst (breaker_op (ot_host t) (allowRequest (w_clock w (w_reads w))) (snd (clock w)))"
    using assms by (simp add: fst_breaker_op allowed_def)
  then show ?thesis by (simp add: fetchGuarded_def case_prod_beta Let_def clock_def)
qed

lemma fetchGuarded_asks:
  assumes "registry_inv (w_breakers w)" "allowed (ot_host t) w"
  shows "fetchGuarded fetch req t w =
    (let (start, w1) = clock (snd (breaker_op (ot_host t) (allowRequest (w_clock w (w_reads w))) (snd (clock w))));
         (r, w2) = fetch req t w1; (stop, w3) = clock w2;
         w4 = count_metric (observeOriginLatency (seconds_of (stop - start))) w3
     in if or_ok r then ((r, False), snd (breaker_op (ot_host t) (\<lambda>b. ((), recordSuccess b)) w4))
        else let (now, w5) = clock w4 in ((r, False), count_metric recordOriginError
          (snd (breaker_op (ot_host t) (\<lambda>b. ((), recordFailure now b)) w5))))"
proof -
  have "fst (breaker_op (ot_host t) (allowRequest (w_clock w (w_reads w))) (snd (clock w)))"
    using assms by (simp add: fst_breaker_op allowed_def)
  then show ?thesis by (simp add: fetchGuarded_def case_prod_beta Let_def clock_def)
qed

lemma fetchGuarded_calm:
  assumes "registry_inv (w_breakers w)"
  shows "fst (fetchGuarded (calm origin) req t w) =
    (if allowed (ot_host t) w then (origin req t, False) else (no_result\<lparr>or_error := ''circuit open''\<rparr>, True))"
  using fetchGuarded_open [OF assms] fetchGuarded_asks [OF assms]
  by (simp add: calm_def case_prod_beta Let_def)

lemma fetchGuarded_frame:
  assumes "registry_inv (w_breakers w)"
  shows "w_cache (snd (fetchGuarded (calm origin) req t w)) = w_cache w"
    "w_inflight (snd (fetchGuarded (calm origin) req t w)) = w_inflight w"
    "w_l2 (snd (fetchGuarded (calm origin) req t w)) = w_l2 w"
    "w_log (snd (fetchGuarded (calm origin) req t w)) = w_log w"
    "w_jobs (snd (fetchGuarded (calm origin) req t w)) = w_jobs w"
    "registry_inv (w_breakers (snd (fetchGuarded (calm origin) req t w)))"
  using assms
  by (cases "allowed (ot_host t) w";
      simp add: fetchGuarded_open fetchGuarded_asks calm_def case_prod_beta Let_def breaker_op_inv)+

lemma fetchGuarded_clock:
  assumes "registry_inv (w_breakers w)" "allowed (ot_host t) w" "or_ok (origin req t)"
  shows "w_clock (snd (fetchGuarded (calm origin) req t w)) = w_clock w"
    "w_reads (snd (fetchGuarded (calm origin) req t w)) = w_reads w + 3"
  using assms by (simp_all add: fetchGuarded_asks calm_def case_prod_beta Let_def)

definition reported :: "origin_result \<Rightarrow> time \<Rightarrow> breaker \<Rightarrow> breaker" where
  "reported r now b = (if or_ok r then recordSuccess b else recordFailure now b)"

text \<open>C15: every call of the origin is asked of the breaker of its host first and reported to it
  afterwards. A rejected call never reaches the origin: its result does not depend on the client.
  An admitted call returns the origin's result, is counted in the latency histogram, and moves
  that breaker by exactly one success or one failure; other hosts' breakers, the cache, the
  slots and the shared tier stay as they are.\<close>

theorem fetch_is_guarded:
  assumes "registry_inv (w_breakers w)"
  shows "let ((r, rejected), w') = fetchGuarded (calm origin) req t w; now = w_clock w (w_reads w + 3) in
    rejected = (\<not> allowed (ot_host t) w) \<and>
    (if rejected then fetchGuarded (calm origin') req t w = ((r, rejected), w') \<and> \<not> or_ok r \<and>
        m_circuitRejects (w_metrics w') = m_circuitRejects (w_metrics w) + 1 \<and>
        m_histCount (w_metrics w') = m_histCount (w_metrics w)
     else r = origin req t \<and> m_histCount (w_metrics w') = m_histCount (w_metrics w) + 1) \<and>
    breaker_of (w_breakers w') q =
      (if q = ot_host t then (if rejected then asked q w else reported r now (asked q w))
       else breaker_of (w_breakers w) q) \<and>
    w_cache w' = w_cache w \<and> w_inflight w' = w_inflight w \<and> w_l2 w' = w_l2 w"
proof (cases "allowed (ot_host t) w")
  case False
  then show ?thesis
    using assms by (auto simp: fetchGuarded_open breaker_op_of asked_def no_result_def recordCircuitReject_def)
next
  case True
  with True assms show ?thesis
    by (auto simp: fetchGuarded_asks calm_def case_prod_beta Let_def breaker_op_of breaker_op_inv reported_def
        asked_def observeOriginLatency_def recordOriginError_def clock_def numeral_eq_Suc)
qed

section \<open>Storing\<close>

definition entry_of :: "decider \<Rightarrow> http_request \<Rightarrow> http_response \<Rightarrow> world \<Rightarrow> cache_entry" where
  "entry_of decide req resp w = entryFrom (w_clock w (w_reads w)) resp (decide (req_path req) resp)"

lemma clock_eq: "clock w = (w_clock w (w_reads w), snd (clock w))"
  by (simp add: clock_def)

lemma clock_ok: "world_ok h (snd (clock w)) = world_ok h w" "roomy (snd (clock w)) e = roomy w e"
  "stored h (snd (clock w)) = stored h w"
  by (simp_all add: world_ok_def roomy_def stored_def)

text \<open>\<open>maybeStore\<close>, and \<open>storeTiers\<close> without a shared tier.\<close>

lemma maybeStore_step:
  assumes "world_ok h w" "isCacheableMethod req"
    and "d_cacheable (decide (req_path req) resp) \<Longrightarrow> roomy w (entry_of decide req resp w)"
  shows "\<exists>w'. maybeStore cfg decide h req resp w = Some w' \<and> world_ok h w' \<and>
    stored h w' \<subseteq>\<^sub>m (if d_cacheable (decide (req_path req) resp)
      then (stored h w)(request_key cfg req \<mapsto> entry_of decide req resp w) else stored h w) \<and>
    (d_cacheable (decide (req_path req) resp) \<and>
      sharded_fits h (w_cache w) (request_key cfg req) (entry_of decide req resp w) \<longrightarrow>
      stored h w' (request_key cfg req) = Some (entry_of decide req resp w)) \<and>
    w_inflight w' = w_inflight w \<and> w_log w' = w_log w \<and> w_jobs w' = w_jobs w \<and>
    w_metrics w' = w_metrics w \<and> w_breakers w' = w_breakers w \<and> w_l2 w' = w_l2 w"
proof (cases "d_cacheable (decide (req_path req) resp)")
  case False
  with assms show ?thesis by (auto simp: maybeStore_def)
next
  case True
  have "world_ok h (snd (clock w))" "roomy (snd (clock w)) (entry_of decide req resp w)"
    using assms(1) assms(3) [OF True] by (simp_all add: clock_ok)
  from cache_put_step [OF this, of "request_key cfg req"] obtain w'
    where w': "cache_put h (request_key cfg req) (entry_of decide req resp w) (snd (clock w)) = Some w'"
      "world_ok h w'" "stored h w' \<subseteq>\<^sub>m (stored h w)(request_key cfg req \<mapsto> entry_of decide req resp w)"
      "w' = (snd (clock w))\<lparr>w_cache := w_cache w'\<rparr>"
      "sharded_fits h (w_cache w) (request_key cfg req) (entry_of decide req resp w) \<longrightarrow>
        stored h w' (request_key cfg req) = Some (entry_of decide req resp w)"
    by (auto simp: clock_ok)
  have frame: "w_inflight w' = w_inflight w" "w_log w' = w_log w" "w_jobs w' = w_jobs w"
    "w_metrics w' = w_metrics w" "w_breakers w' = w_breakers w" "w_l2 w' = w_l2 w"
    by (subst w'(4), simp)+
  have "maybeStore cfg decide h req resp w = Some w'"
    using assms(2) True w'(1) by (simp add: maybeStore_def Let_def case_prod_beta entry_of_def clock_def)
  with w' True frame show ?thesis by auto
qed

lemma storeTiers_step:
  assumes "w_l2 w = None" "world_ok h w"
  shows "storeTiers cfg decide h req resp w = maybeStore cfg decide h req resp w"
proof -
  have "l2_store cfg key e ttl w' = Some w'" if "cache_put h key e (snd (clock w)) = Some w'" for key e ttl w'
    using that assms(1) by (auto simp: cache_put_def l2_store_def split: bind_splits)
  then show ?thesis
    by (auto simp: storeTiers_def maybeStore_def Let_def case_prod_beta split: bind_splits)
qed

section \<open>Serving from the cache\<close>

definition own_header :: "string \<Rightarrow> bool" where
  "own_header n \<longleftrightarrow> lower n \<in> {''x-cache'', ''x-edgecache-replica'', ''x-cache-policy'', ''age'', ''x-cache-tier''}"

lemma lower_names [simp]:
  "lower ''X-Cache'' = ''x-cache''" "lower ''X-EdgeCache-Replica'' = ''x-edgecache-replica''"
  "lower ''X-Cache-Policy'' = ''x-cache-policy''" "lower ''Age'' = ''age''" "lower ''X-Cache-Tier'' = ''x-cache-tier''"
  by code_simp+

lemma decorate_fields [simp]:
  "resp_status (decorate r x cfg p) = resp_status r" "resp_body (decorate r x cfg p) = resp_body r"
  "resp_reason (decorate r x cfg p) = resp_reason r"
  by (simp_all add: decorate_def Let_def)

lemma decorate_inv [inv_intros]: "hinv (resp_headers r) \<Longrightarrow> hinv (resp_headers (decorate r x cfg p))"
  by (simp add: decorate_def Let_def hinv_hset)

lemma decorate_header:
  assumes "hinv (resp_headers r)"
  shows "hfind (resp_headers (decorate r x cfg p)) ''X-Cache'' = Some x"
    "hfind (resp_headers (decorate r x cfg p)) ''X-Cache-Policy'' =
      (if p = [] then hfind (resp_headers r) ''X-Cache-Policy'' else Some p)"
    "hfind (resp_headers (decorate r x cfg p)) ''Age'' = hfind (resp_headers r) ''Age''"
    "hfind (resp_headers (decorate r x cfg p)) ''X-Cache-Tier'' = hfind (resp_headers r) ''X-Cache-Tier''"
    "\<not> own_header n \<Longrightarrow> hfind (resp_headers (decorate r x cfg p)) n = hfind (resp_headers r) n"
  using assms by (auto simp: decorate_def Let_def hfind_hset hinv_hset own_header_def)

lemma resp_header_found: "hfind (resp_headers r) n = Some v \<Longrightarrow> resp_header r n d = v"
  by (simp add: resp_header_def header_or_def)

lemma process_cached:
  assumes "world_ok h w" "isCacheableMethod req"
  shows "\<exists>w1. stored h w1 = stored h w \<and> world_ok h w1 \<and> w1 = (snd (clock w))\<lparr>w_cache := w_cache w1\<rparr> \<and>
    roomy w1 = roomy w \<and> sharded_fits h (w_cache w1) = sharded_fits h (w_cache w) \<and>
    process cfg decide fetch wait h req w =
      (let key = request_key cfg req; now = w_clock w (w_reads w) in
       case stored h w key of
         Some e \<Rightarrow>
           if isFresh e now then Some (serve_fresh cfg e now w1)
           else if isServeableStale e now then Some (serve_stale cfg req key e w1)
           else serve_miss cfg decide fetch wait h req key (Some e) now w1
       | None \<Rightarrow> serve_miss cfg decide fetch wait h req key None now w1)"
proof -
  have "world_ok h (snd (clock w))" using assms(1) by (simp add: clock_ok)
  from cache_get_step [OF this, of "request_key cfg req"] obtain w1
    where w1: "cache_get h (request_key cfg req) (snd (clock w)) = Some (stored h w (request_key cfg req), w1)"
      "world_ok h w1" "stored h w1 = stored h w" "w1 = (snd (clock w))\<lparr>w_cache := w_cache w1\<rparr>"
      "roomy w1 = roomy w" "sharded_fits h (w_cache w1) = sharded_fits h (w_cache w)"
    by (auto simp: clock_ok roomy_def fun_eq_iff)
  have "process cfg decide fetch wait h req w =
      (let key = request_key cfg req; now = w_clock w (w_reads w) in
       case stored h w key of
         Some e \<Rightarrow>
           if isFresh e now then Some (serve_fresh cfg e now w1)
           else if isServeableStale e now then Some (serve_stale cfg req key e w1)
           else serve_miss cfg decide fetch wait h req key (Some e) now w1
       | None \<Rightarrow> serve_miss cfg decide fetch wait h req key None now w1)"
    using assms(2) w1(1)
    by (simp add: process_def Let_def case_prod_beta clock_def split: option.split)
  with w1(2-6) show ?thesis by blast
qed

text \<open>C29: a fresh copy is served from the cache alone: whatever the origin and the policy would say,
  the response has the entry's status and body and all its headers, its age and \<^verbatim>\<open>X-Cache: HIT\<close>;
  the origin is not asked, no slot is taken and the cache content is unchanged.\<close>

theorem fresh_copy_served:
  assumes "world_ok h w" "isCacheableMethod req"
    and "stored h w (request_key cfg req) = Some e" "isFresh e (w_clock w (w_reads w))" "hinv (ce_headers e)"
  shows "\<exists>resp w'. process cfg decide fetch wait h req w = Some (resp, w') \<and>
    resp_status resp = ce_status e \<and> resp_body resp = ce_body e \<and>
    (\<forall>n. \<not> own_header n \<longrightarrow> hfind (resp_headers resp) n = hfind (ce_headers e) n) \<and>
    hfind (resp_headers resp) ''X-Cache'' = Some ''HIT'' \<and>
    hfind (resp_headers resp) ''Age'' = Some (show_int (to_seconds (w_clock w (w_reads w) - ce_storedAt e))) \<and>
    stored h w' = stored h w \<and> w_breakers w' = w_breakers w \<and> w_inflight w' = w_inflight w \<and>
    w_jobs w' = w_jobs w \<and> m_hits (w_metrics w') = m_hits (w_metrics w) + 1"
proof -
  let ?now = "w_clock w (w_reads w)"
  obtain w1 where w1: "stored h w1 = stored h w" "w1 = (snd (clock w))\<lparr>w_cache := w_cache w1\<rparr>"
    "process cfg decide fetch wait h req w = Some (serve_fresh cfg e ?now w1)"
    using process_cached [OF assms(1,2), of cfg decide fetch wait] assms(3,4) by (auto simp: Let_def)
  have frame: "w_breakers w1 = w_breakers w" "w_inflight w1 = w_inflight w" "w_jobs w1 = w_jobs w"
    "w_metrics w1 = w_metrics w" by (subst w1(2), simp)+
  let ?r = "(toResponse e)\<lparr>resp_headers := hset (ce_headers e) ''Age'' (show_int (to_seconds (?now - ce_storedAt e)))\<rparr>"
  have hi: "hinv (resp_headers ?r)" using assms(5) by (simp add: hinv_hset)
  have fresh: "serve_fresh cfg e ?now w1 = served (decorate ?r ''HIT'' cfg []) (count_metric recordHit w1)"
    by (simp add: serve_fresh_def Let_def toResponse_def)
  show ?thesis
  proof (intro exI conjI allI impI)
    show "process cfg decide fetch wait h req w =
      Some (decorate ?r ''HIT'' cfg [], snd (served (decorate ?r ''HIT'' cfg []) (count_metric recordHit w1)))"
      by (simp add: w1(3) fresh served_def)
    show "hfind (resp_headers (decorate ?r ''HIT'' cfg [])) n = hfind (ce_headers e) n" if "\<not> own_header n" for n
      using that assms(5) decorate_header(5) [OF hi that] by (auto simp: hfind_hset own_header_def)
  qed (use assms(5) hi w1(1) in \<open>simp_all add: decorate_header hfind_hset frame toResponse_def stored_def
      served_def recordHit_def recordBytesServed_def\<close>)
qed

lemma trigger_jobs:
  "w_jobs (triggerRevalidation req key w) =
     w_jobs w @ (if if_table (w_inflight w) key = None then [(req, key)] else [])"
  "w_cache (triggerRevalidation req key w) = w_cache w"
  "w_breakers (triggerRevalidation req key w) = w_breakers w"
  "w_metrics (triggerRevalidation req key w) = w_metrics w"
  "if_table (w_inflight (triggerRevalidation req key w)) key \<noteq> None"
  using inflight.acq_leader [of key "w_inflight w"] inflight.acq_busy [of key "w_inflight w" key]
  by (auto simp: triggerRevalidation_def Let_def case_prod_beta)

text \<open>C28: a copy past its lifetime but inside its stale window is served at once, without asking the
  origin, and exactly one revalidation is started for its key: none if the key is being fetched
  already, and the key is in flight afterwards.\<close>

theorem stale_copy_served_once_revalidated:
  assumes "world_ok h w" "isCacheableMethod req"
    and "stored h w (request_key cfg req) = Some e" "hinv (ce_headers e)"
    and "\<not> isFresh e (w_clock w (w_reads w))" "isServeableStale e (w_clock w (w_reads w))"
  shows "\<exists>resp w'. process cfg decide fetch wait h req w = Some (resp, w') \<and>
    resp_status resp = ce_status e \<and> resp_body resp = ce_body e \<and>
    hfind (resp_headers resp) ''X-Cache'' = Some ''STALE'' \<and>
    stored h w' = stored h w \<and> w_breakers w' = w_breakers w \<and>
    w_jobs w' = w_jobs w @ (if if_table (w_inflight w) (request_key cfg req) = None
      then [(req, request_key cfg req)] else []) \<and>
    if_table (w_inflight w') (request_key cfg req) \<noteq> None"
proof -
  let ?now = "w_clock w (w_reads w)" and ?key = "request_key cfg req"
  obtain w1 where w1: "stored h w1 = stored h w" "w1 = (snd (clock w))\<lparr>w_cache := w_cache w1\<rparr>"
    "process cfg decide fetch wait h req w = Some (serve_stale cfg req ?key e w1)"
    using process_cached [OF assms(1,2), of cfg decide fetch wait] assms(3,5,6) by (auto simp: Let_def)
  have frame: "w_breakers w1 = w_breakers w" "w_inflight w1 = w_inflight w" "w_jobs w1 = w_jobs w"
    by (subst w1(2), simp)+
  show ?thesis
    using w1(1,3) assms(4)
    by (auto simp: serve_stale_def Let_def served_def decorate_header frame toResponse_def stored_def trigger_jobs
        simp del: not_None_eq)
qed

text \<open>A copy that is past its stale window never shields a client from a failing origin: the
  request goes exactly the way it would go if there were no copy at all (the branch of
  the handler that serves it with \<^verbatim>\<open>origin-unavailable\<close> is never taken).\<close>

lemma expired_copy_is_no_copy:
  assumes "world_ok h w" "isCacheableMethod req"
    and "stored h w (request_key cfg req) = Some e"
    and "\<not> isFresh e (w_clock w (w_reads w))" "\<not> isServeableStale e (w_clock w (w_reads w))"
  shows "\<exists>w1. w_inflight w1 = w_inflight w \<and> w_breakers w1 = w_breakers w \<and> stored h w1 = stored h w \<and>
    process cfg decide fetch wait h req w =
      serve_miss cfg decide fetch wait h req (request_key cfg req) None (w_clock w (w_reads w)) w1"
proof -
  let ?now = "w_clock w (w_reads w)" and ?key = "request_key cfg req"
  have same: "lead_from_origin cfg decide fetch h req k (Some e) ?now v =
      lead_from_origin cfg decide fetch h req k None ?now v" for k v
    using assms(5) by (simp add: lead_from_origin_def Let_def case_prod_beta)
  then have "serve_miss cfg decide fetch wait h req k (Some e) ?now v =
      serve_miss cfg decide fetch wait h req k None ?now v" for k v
    by (simp only: serve_miss_def lead_def same)
  moreover obtain w1 where w1: "stored h w1 = stored h w" "w1 = (snd (clock w))\<lparr>w_cache := w_cache w1\<rparr>"
    "process cfg decide fetch wait h req w = serve_miss cfg decide fetch wait h req ?key (Some e) ?now w1"
    using process_cached [OF assms(1,2), of cfg decide fetch wait] assms(3-5) by (auto simp: Let_def)
  moreover have "w_breakers w1 = w_breakers w" "w_inflight w1 = w_inflight w" by (subst w1(2), simp)+
  ultimately show ?thesis by auto
qed

text \<open>A request that may not be cached (any method but GET and HEAD) goes to the origin and leaves
  the cache, the slots and the shared tier untouched; the client gets the origin's answer, 503 when
  the breaker is open and 502 when the origin fails.\<close>

lemma uncacheable_method_passes:
  assumes "registry_inv (w_breakers w)" "\<not> isCacheableMethod req"
  shows "\<exists>resp w'. process cfg decide (calm origin) wait h req w = Some (resp, w') \<and>
    w_cache w' = w_cache w \<and> w_inflight w' = w_inflight w \<and> w_l2 w' = w_l2 w \<and> w_jobs w' = w_jobs w \<and>
    (let r = origin req (targetFor cfg (req_path req)) in
     if \<not> allowed (cf_originHost cfg) w then resp_status resp = 503
     else if \<not> or_ok r then resp_status resp = 502
     else resp_status resp = resp_status (or_response r) \<and> resp_body resp = resp_body (or_response r))"
proof -
  let ?t = "targetFor cfg (req_path req)" and ?w = "count_metric recordMiss w"
  have inv: "registry_inv (w_breakers ?w)" using assms(1) by simp
  have al: "allowed (ot_host ?t) ?w = allowed (cf_originHost cfg) w"
    by (simp add: allowed_def count_metric_def targetFor_def)
  note frame = fetchGuarded_frame [OF inv, of origin req ?t] and calm = fetchGuarded_calm [OF inv, of origin req ?t]
  obtain r rej w2 where f: "fetchGuarded (calm origin) req ?t ?w = ((r, rej), w2)" by (metis surj_pair)
  have "process cfg decide (calm origin) wait h req w =
      Some (served (decorate (if or_ok r then or_response r else origin_failure rej) ''PASS'' cfg []) w2)"
    using assms(2) f by (simp add: process_def pass_through_def Let_def)
  then show ?thesis
    using frame calm f al
    by (auto simp: served_def origin_failure_def simple_def no_result_def Let_def split: if_splits)
qed

section \<open>Leading\<close>

text \<open>What is stored does not decide by when it is stored whether there is room for it.\<close>

definition candidate :: "decider \<Rightarrow> http_request \<Rightarrow> http_response \<Rightarrow> time \<Rightarrow> cache_entry" where
  "candidate decide req resp now = entryFrom now resp (decide (req_path req) resp)"

lemma candidate_size: "sizeBytes (candidate decide req resp t) = sizeBytes (candidate decide req resp t')"
  by (simp add: candidate_def entryFrom_def sizeBytes_def)

lemma roomy_candidate: "roomy w (candidate decide req resp t) = roomy w (candidate decide req resp t')"
  using candidate_size [of decide req resp t t'] by (simp add: roomy_def sharded_room_def op_room_def)

lemma fits_candidate:
  "sharded_fits h c k (candidate decide req resp t) = sharded_fits h c k (candidate decide req resp t')"
  using candidate_size [of decide req resp t t'] by (simp add: sharded_fits_def)

lemma acquire_free:
  assumes "if_table st key = None"
  shows "\<exists>s st'. acquire key st = ((True, s), st') \<and>
    (\<forall>resp ok. slot_ready s (publish key resp ok st') \<and> slot_result s (publish key resp ok st') = (resp, ok))"
  using assms
  by (auto simp: acquire_def Let_def publish_def publish_take_def publish_set_def slot_ready_def slot_result_def)

text \<open>A miss without a shared tier, when nobody fetches the key: up to the guarded fetch.\<close>

lemma lead_without_l2:
  "w_l2 w = None \<Longrightarrow> lead cfg decide fetch h req key cached now w =
     lead_from_origin cfg decide fetch h req key cached now w"
  by (simp add: lead_def l2_lookup_def)

definition leading :: "string \<Rightarrow> world \<Rightarrow> world" where
  "leading key w = (count_metric recordMiss w)\<lparr>w_inflight := snd (acquire key (w_inflight w))\<rparr>"

lemma leading_frame [simp]:
  "w_cache (leading key w) = w_cache w" "w_breakers (leading key w) = w_breakers w"
  "w_inflight (leading key w) = snd (acquire key (w_inflight w))" "w_l2 (leading key w) = w_l2 w"
  "w_clock (leading key w) = w_clock w" "w_reads (leading key w) = w_reads w"
  by (simp_all add: leading_def count_metric_def)

lemma serve_miss_leads:
  assumes "if_table (w_inflight w) key = None" "w_l2 w = None"
  shows "serve_miss cfg decide fetch wait h req key cached now w =
    lead_from_origin cfg decide fetch h req key cached now (leading key w)"
proof -
  have "fst (fst (acquire key (w_inflight w)))" using assms(1) by (simp add: inflight.acq_leader)
  then have "serve_miss cfg decide fetch wait h req key cached now w =
      lead cfg decide fetch h req key cached now (leading key w)"
    by (simp add: serve_miss_def Let_def case_prod_beta leading_def)
  then show ?thesis using assms(2) by (simp add: lead_without_l2)
qed

text \<open>A miss that is led: the state in which it asks the origin.\<close>

lemma process_leads:
  assumes "world_ok h w" "isCacheableMethod req" "stored h w (request_key cfg req) = None"
    and "if_table (w_inflight w) (request_key cfg req) = None" "w_l2 w = None"
  shows "\<exists>w1. world_ok h w1 \<and> stored h w1 = stored h w \<and> w_l2 w1 = None \<and> roomy w1 = roomy w \<and>
    w_breakers w1 = w_breakers w \<and> w_inflight w1 = snd (acquire (request_key cfg req) (w_inflight w)) \<and>
    w_clock w1 = w_clock w \<and> w_reads w1 = Suc (w_reads w) \<and>
    sharded_fits h (w_cache w1) = sharded_fits h (w_cache w) \<and>
    process cfg decide fetch wait h req w =
      lead_from_origin cfg decide fetch h req (request_key cfg req) None (w_clock w (w_reads w)) w1"
proof -
  let ?key = "request_key cfg req"
  obtain v where v: "stored h v = stored h w" "world_ok h v" "v = (snd (clock w))\<lparr>w_cache := w_cache v\<rparr>"
    "roomy v = roomy w" "sharded_fits h (w_cache v) = sharded_fits h (w_cache w)"
    "process cfg decide fetch wait h req w = serve_miss cfg decide fetch wait h req ?key None (w_clock w (w_reads w)) v"
    using process_cached [OF assms(1,2), of cfg decide fetch wait] assms(3) by (auto simp: Let_def)
  have frame: "w_inflight v = w_inflight w" "w_l2 v = w_l2 w" "w_breakers v = w_breakers w"
    "w_clock v = w_clock w" "w_reads v = Suc (w_reads w)"
    by (subst v(3), simp add: clock_def)+
  have "process cfg decide fetch wait h req w =
      lead_from_origin cfg decide fetch h req ?key None (w_clock w (w_reads w)) (leading ?key v)"
    using serve_miss_leads [of v ?key] assms(4,5) frame v(6) by simp
  with v frame assms(5) show ?thesis
    by (intro exI [of _ "leading ?key v"]) (simp add: world_ok_def stored_def roomy_def fun_eq_iff)
qed

lemma lead_frees_key:
  assumes "lead_from_origin cfg decide fetch h req key cached now w = Some (resp, w')"
  shows "if_table (w_inflight w') key = None"
  using assms
  by (auto simp: lead_from_origin_def Let_def case_prod_beta publish_table served_def
      split: if_splits option.splits bind_splits)

lemma allowed_cong:
  "w_clock w1 = w_clock w \<Longrightarrow> w_breakers w1 = w_breakers w \<Longrightarrow> allowed host w1 =
     fst (allowRequest (w_clock w (w_reads w1)) (breaker_of (w_breakers w) host))"
  by (simp add: allowed_def)

text \<open>The leader's work after a good answer, from the state in which it asks.\<close>

lemma lead_success:
  assumes "world_ok h w" "isCacheableMethod req" "w_l2 w = None"
    and "allowed (cf_originHost cfg) w" "r = origin req (targetFor cfg (req_path req))" "or_ok r"
    and "roomy w (candidate decide req (or_response r) 0)" "key = request_key cfg req"
    and "resp = decorate (or_response r) ''MISS'' cfg (d_reason (decide (req_path req) (or_response r)))"
    and "now = w_clock w (w_reads w + 3)"
  shows "\<exists>w'. lead_from_origin cfg decide (calm origin) h req key cached t w = Some (resp, w') \<and>
    stored h w' \<subseteq>\<^sub>m (if d_cacheable (decide (req_path req) (or_response r))
      then (stored h w)(key \<mapsto> candidate decide req (or_response r) now) else stored h w) \<and>
    (d_cacheable (decide (req_path req) (or_response r)) \<and>
      sharded_fits h (w_cache w) key (candidate decide req (or_response r) 0) \<longrightarrow>
      stored h w' key = Some (candidate decide req (or_response r) now)) \<and>
    w_inflight w' = publish key resp True (w_inflight w)"
proof -
  let ?t = "targetFor cfg (req_path req)" and ?q = "or_response r"
  have inv: "registry_inv (w_breakers w)" using assms(1) by (simp add: world_ok_def)
  have "allowed (ot_host ?t) w" using assms(4) by (simp add: targetFor_def)
  with fetchGuarded_calm [OF inv, of origin req ?t] obtain w2
    where w2: "fetchGuarded (calm origin) req ?t w = ((r, False), w2)" by (metis assms(5) prod.collapse)
  note frame = fetchGuarded_frame [OF inv, of origin req ?t, unfolded w2, simplified]
  have ok2: "world_ok h w2" "stored h w2 = stored h w" "w_l2 w2 = None" "roomy w2 = roomy w"
    using frame assms(1,3) by (simp_all add: world_ok_def stored_def roomy_def fun_eq_iff)
  let ?now = "w_clock w2 (w_reads w2)"
  have now: "?now = now"
    using fetchGuarded_clock [OF inv, of ?t origin req] \<open>allowed (ot_host ?t) w\<close> assms(5,6,10) w2 by simp
  have cand: "entry_of decide req ?q w2 = candidate decide req ?q ?now"
    by (simp add: entry_of_def candidate_def)
  have "roomy w2 (entry_of decide req ?q w2)"
    using assms(7) ok2(4) roomy_candidate [of w decide req ?q 0 ?now] by (simp add: cand)
  from maybeStore_step [OF ok2(1) assms(2), of decide ?q cfg] this obtain w3
    where w3: "maybeStore cfg decide h req ?q w2 = Some w3" "w_inflight w3 = w_inflight w2"
      "stored h w3 \<subseteq>\<^sub>m (if d_cacheable (decide (req_path req) ?q)
        then (stored h w2)(key \<mapsto> candidate decide req ?q ?now) else stored h w2)"
      "d_cacheable (decide (req_path req) ?q) \<and> sharded_fits h (w_cache w2) key (candidate decide req ?q ?now) \<longrightarrow>
        stored h w3 key = Some (candidate decide req ?q ?now)"
    unfolding cand assms(8) by blast
  have st: "storeTiers cfg decide h req ?q w2 = Some w3" using storeTiers_step [OF ok2(3,1)] w3(1) by simp
  have "lead_from_origin cfg decide (calm origin) h req key cached t w = Some (served resp (publish_slot key resp True w3))"
    using w2 assms(6,9) st by (simp add: lead_from_origin_def Let_def)
  moreover have "stored h (snd (served resp (publish_slot key resp True w3))) = stored h w3" by (simp add: stored_def)
  moreover have "w_inflight (snd (served resp (publish_slot key resp True w3))) = publish key resp True (w_inflight w)"
    using w3(2) frame(2) by simp
  ultimately show ?thesis
    using w3(3,4) unfolding ok2(2) frame(1) now fits_candidate [of h "w_cache w" key decide req ?q now 0]
    by (metis prod.collapse served_frame(1))
qed

lemma lead_failure:
  assumes "registry_inv (w_breakers w)" "key = request_key cfg req"
    and "allowed (cf_originHost cfg) w \<Longrightarrow> \<not> or_ok (origin req (targetFor cfg (req_path req)))"
    and "resp = decorate (origin_failure (\<not> allowed (cf_originHost cfg) w)) ''MISS'' cfg []"
  shows "\<exists>w'. lead_from_origin cfg decide (calm origin) h req key None t w = Some (resp, w') \<and>
    w_cache w' = w_cache w \<and> w_inflight w' = publish key resp False (w_inflight w)"
proof -
  let ?t = "targetFor cfg (req_path req)"
  obtain r rej w2 where w2: "fetchGuarded (calm origin) req ?t w = ((r, rej), w2)" by (metis surj_pair)
  note frame = fetchGuarded_frame [OF assms(1), of origin req ?t, unfolded w2, simplified]
  have "\<not> or_ok r" "rej = (\<not> allowed (cf_originHost cfg) w)"
    using fetchGuarded_calm [OF assms(1), of origin req ?t] w2 assms(3)
    by (auto simp: targetFor_def no_result_def split: if_splits)
  then have "lead_from_origin cfg decide (calm origin) h req key None t w = Some (served resp (publish_slot key resp False w2))"
    using w2 assms(4) by (simp add: lead_from_origin_def Let_def)
  then show ?thesis using frame by (simp add: served_def)
qed



lemma l2_lead_frees_key:
  "lead_from_l2 cfg h key e w = Some (resp, w') \<Longrightarrow> if_table (w_inflight w') key = None"
  by (auto simp: lead_from_l2_def Let_def publish_table served_def split: bind_splits)

text \<open>C30: a key never stays in flight behind a thread that has returned: whatever the origin, the
  policy, the shared tier and the other threads do, when a request that leads a key or a revalidation
  of it returns, the key is free.\<close>

theorem returning_leader_frees_key:
  assumes "if_table (w_inflight w) key = None \<and>
      serve_miss cfg decide fetch wait h req key cached now w = Some (resp, w') \<or>
    revalidate cfg decide fetch h (req, key) w = Some w'"
  shows "if_table (w_inflight w') key = None"
  using assms
proof
  assume a: "if_table (w_inflight w) key = None \<and>
    serve_miss cfg decide fetch wait h req key cached now w = Some (resp, w')"
  then have "lead cfg decide fetch h req key cached now (leading key w) = Some (resp, w')"
    using inflight.acq_leader [of key "w_inflight w"]
    by (auto simp: serve_miss_def Let_def case_prod_beta leading_def)
  then show ?thesis
    using lead_frees_key l2_lead_frees_key by (auto simp: lead_def split: bind_splits option.splits)
next
  assume "revalidate cfg decide fetch h (req, key) w = Some w'"
  then show ?thesis
    by (auto simp: revalidate_def Let_def case_prod_beta publish_table split: if_splits bind_splits)
qed

section \<open>Server errors\<close>

context cache_policy
begin

lemma server_error_not_stored:
  assumes "500 \<le> resp_status resp"
  shows "storeTiers cfg decide h req resp w = Some w" "maybeStore cfg decide h req resp w = Some w"
  using server_error [OF assms] by (simp_all add: storeTiers_def maybeStore_def)

lemma failed_revalidation_keeps_copies:
  assumes "registry_inv (w_breakers w)"
    and "r = origin req (targetFor cfg (req_path req))" "or_ok r \<longrightarrow> 500 \<le> resp_status (or_response r)"
  shows "\<exists>w' resp ok. revalidate cfg decide (calm origin) h (req, key) w = Some w' \<and> w_cache w' = w_cache w \<and>
    w_inflight w' = publish key resp ok (w_inflight w)"
proof -
  let ?t = "targetFor cfg (req_path req)"
  obtain r' rej w2 where w2: "fetchGuarded (calm origin) req ?t w = ((r', rej), w2)" by (metis surj_pair)
  note frame = fetchGuarded_frame [OF assms(1), of origin req ?t, unfolded w2, simplified]
  have "or_ok r' \<Longrightarrow> 500 \<le> resp_status (or_response r')"
    using fetchGuarded_calm [OF assms(1), of origin req ?t] w2 assms(2,3)
    by (auto simp: no_result_def split: if_splits)
  then have "\<exists>resp ok. revalidate cfg decide (calm origin) h (req, key) w = Some (publish_slot key resp ok w2)"
    using w2 server_error_not_stored(1) by (cases "or_ok r'") (auto simp: revalidate_def)
  with frame(1,2) show ?thesis by (metis publish_slot_frame(1,7))
qed

end

text \<open>A failing origin never costs a copy: when a revalidation fails, or is answered with a server
  error (which neither the headers nor an override rule can make cacheable), every copy in the
  cache stays as it is and the waiters are released.\<close>

lemma failing_origin_keeps_copies:
  assumes "registry_inv (w_breakers w)"
    and "r = origin req (targetFor cfg (req_path req))" "or_ok r \<longrightarrow> 500 \<le> resp_status (or_response r)"
  shows "\<exists>w'. revalidate cfg (rule_decide st t) (calm origin) h (req, key) w = Some w' \<and>
    stored h w' = stored h w \<and> if_table (w_inflight w') key = None"
  using rule_policy.failed_revalidation_keeps_copies [where origin = origin and cfg = cfg and req = req, OF assms,
      of st t h key]
  by (auto simp: stored_def publish_table)

section \<open>Following\<close>

lemma decorate_empty_status: "resp_status (decorate empty_response x cfg p) = 200" "resp_body (decorate empty_response x cfg p) = []"
  by (simp_all add: empty_response_def)

text \<open>A request that joins a revalidation which fails gets no error: the waiter is handed the
  default response, status 200 with an empty body, although nobody ever got such an answer.\<close>

theorem failed_revalidation_answers_200:
  assumes "registry_inv (w_breakers w)" "if_table (w_inflight w) key = Some s" "s < length (if_slots (w_inflight w))"
    and "\<not> allowed (cf_originHost cfg) w"
  shows "\<exists>w1 resp w2. revalidate cfg decide fetch h (req, key) w = Some w1 \<and> slot_ready s (w_inflight w1) \<and>
    follow cfg decide (\<lambda>s w. Some w) h req' s w1 = Some (resp, w2) \<and>
    resp_status resp = 200 \<and> resp_body resp = []"
proof -
  let ?t = "targetFor cfg (req_path req)"
  have "\<not> allowed (ot_host ?t) w" using assms(4) by (simp add: targetFor_def)
  note f = fetchGuarded_open [OF assms(1) this, of fetch req]
  let ?v = "snd (fetchGuarded fetch req ?t w)"
  have v: "w_inflight ?v = w_inflight w" by (simp add: f)
  have "revalidate cfg decide fetch h (req, key) w = Some (publish_slot key empty_response False ?v)"
    by (simp add: revalidate_def f no_result_def)
  moreover have "slot_ready s (publish key empty_response False (w_inflight w))"
    "slot_result s (publish key empty_response False (w_inflight w)) = (empty_response, False)"
    using assms(2,3) by (simp_all add: publish_def publish_take_def publish_set_def slot_ready_def slot_result_def)
  ultimately show ?thesis
    using v by (auto simp: follow_def served_def decorate_empty_status empty_response_def)
qed

text \<open>A follower stores what its leader has already decorated: when the policy caches the response,
  the copy under the key is replaced by one with the leader's bookkeeping headers (such as
  \<^verbatim>\<open>X-Cache-Tier\<close>) as if the origin had sent them, and with a full new lifetime, also where the
  leader had taken the response from the shared tier with little of its lifetime left.\<close>

lemma follower_stores_decorated_copy:
  assumes "world_ok h w" "isCacheableMethod req" "slot_result s (w_inflight w) = (resp, True)"
    and "d_cacheable (decide (req_path req) resp)" "roomy w (candidate decide req resp 0)"
    and "sharded_fits h (w_cache w) (request_key cfg req) (candidate decide req resp 0)"
  shows "\<exists>w' e. follow cfg decide (\<lambda>s w. Some w) h req s w = Some (decorate resp ''MISS'' cfg ''coalesced'', w') \<and>
    stored h w' (request_key cfg req) = Some e \<and> ce_headers e = resp_headers resp \<and>
    ce_storedAt e = w_clock w (w_reads w) \<and> ce_ttl e = d_ttl (decide (req_path req) resp)"
proof -
  let ?now = "w_clock w (w_reads w)"
  have cand: "entry_of decide req resp w = candidate decide req resp ?now"
    by (simp add: entry_of_def candidate_def)
  have "roomy w (entry_of decide req resp w)" using assms(5) roomy_candidate [of w decide req resp 0] by (simp add: cand)
  moreover have "sharded_fits h (w_cache w) (request_key cfg req) (entry_of decide req resp w)"
    using assms(6) fits_candidate [of h "w_cache w" "request_key cfg req" decide req resp 0 ?now]
    unfolding cand by (rule iffD1 [rotated])
  ultimately obtain w' where w': "maybeStore cfg decide h req resp w = Some w'"
    "stored h w' (request_key cfg req) = Some (candidate decide req resp ?now)"
    using maybeStore_step [OF assms(1,2), of decide resp cfg] assms(4) unfolding cand by blast
  have "follow cfg decide (\<lambda>s w. Some w) h req s w = Some (served (decorate resp ''MISS'' cfg ''coalesced'') w')"
    using assms(3) w'(1) by (simp add: follow_def)
  with w'(2) show ?thesis
    by (auto simp: served_def stored_def candidate_def entryFrom_def)
qed

section \<open>Concrete runs\<close>

text \<open>A proxy with one shard, whose clock stands at \<open>t\<close>; a request, an entry, and two origins.\<close>

definition quiet_hash :: "string \<Rightarrow> u64" where
  "quiet_hash k = 0"

definition world0 :: "time \<Rightarrow> world" where
  "world0 t = \<lparr>w_cache = sharded_new 100000 1, w_breakers = new_registry default_config,
     w_inflight = new_inflight, w_metrics = new_metrics, w_l2 = None, w_log = None, w_jobs = [],
     w_clock = (\<lambda>n. t), w_wall = (\<lambda>n. 0), w_reads = 0\<rparr>"

definition req0 :: http_request where
  "req0 = \<lparr>req_method = ''GET'', req_target = ''/a'', req_version = ''HTTP/1.1'', req_headers = [],
     req_body = [], req_path = ''/a'', req_query = []\<rparr>"

definition entry0 :: cache_entry where
  "entry0 = empty_entry\<lparr>ce_status := 200, ce_body := ''hello'', ce_ttl := 60, ce_swr := 30\<rparr>"

definition up_origin :: "http_request \<Rightarrow> origin_target \<Rightarrow> origin_result" where
  "up_origin r t = no_result\<lparr>or_ok := True, or_response := simple 200 ''OK'' ''hello'' ''text/plain''\<rparr>"

definition down_origin :: "http_request \<Rightarrow> origin_target \<Rightarrow> origin_result" where
  "down_origin r t = no_result"

definition keep_all :: decider where
  "keep_all p resp = no_decision\<lparr>d_cacheable := True, d_ttl := 60\<rparr>"

definition key0 :: string where
  "key0 = request_key default_config req0"

definition warm :: "time \<Rightarrow> world" where
  "warm t = (world0 t)\<lparr>w_cache := the (sharded_put quiet_hash (sharded_new 100000 1) key0 entry0)\<rparr>"

definition tripped :: "time \<Rightarrow> world" where
  "tripped t = (world0 t)\<lparr>w_breakers := snd (with_breaker ''dummy-origin''
     (\<lambda>b. ((), transitionToOpen t b)) (new_registry default_config))\<rparr>"

lemma roomy_eq: "roomy w e = list_all (\<lambda>c. unat (maxBytes c) + unat (sizeBytes e) < 2 ^ 64) (w_cache w)"
  by (simp add: roomy_def sharded_room_def op_room_def list_all_length)

lemma world0_ok: "world_ok h (world0 t)"
  by (simp add: world_ok_def world0_def sharded_new_inv new_registry_inv)

lemma world0_fields: "stored h (world0 t) = Map.empty" "if_table (w_inflight (world0 t)) k = None"
  "w_l2 (world0 t) = None" "w_clock (world0 t) n = t"
  by (simp_all add: stored_def world0_def sharded_new_look new_inflight_def)

lemma warm_ok: "world_ok quiet_hash (warm t)" "stored quiet_hash (warm t) key0 = Some entry0"
proof -
  have "roomy (world0 t) entry0" "sharded_fits quiet_hash (w_cache (world0 t)) key0 entry0"
    unfolding roomy_eq world0_def by code_simp+
  with cache_put_step [OF world0_ok, of t entry0 quiet_hash key0] obtain w' where
    "cache_put quiet_hash key0 entry0 (world0 t) = Some w'" "world_ok quiet_hash w'"
    "stored quiet_hash w' key0 = Some entry0" by blast
  moreover from this(1) have "w' = warm t"
    by (auto simp: cache_put_def warm_def world0_def split: bind_splits)
  ultimately show "world_ok quiet_hash (warm t)" "stored quiet_hash (warm t) key0 = Some entry0" by simp_all
qed

lemma warm_clock: "w_clock (warm t) n = t"
  by (simp add: warm_def world0_def)

lemma get0: "isCacheableMethod req0" by code_simp

lemma hinv0: "hinv (ce_headers entry0)"
  by (simp add: entry0_def empty_entry_def)

theorem fresh_copy_served_witness:
  "\<exists>resp w'. process default_config keep_all (calm down_origin) (\<lambda>s w. None) quiet_hash req0 (warm 59000000000) =
     Some (resp, w') \<and> resp_status resp = 200 \<and> hfind (resp_headers resp) ''Age'' = Some ''59''"
proof -
  have e: "isFresh entry0 (w_clock (warm 59000000000) (w_reads (warm 59000000000)))"
    unfolding warm_clock by code_simp
  have a: "show_int (to_seconds (59000000000 - ce_storedAt entry0)) = ''59''" "ce_status entry0 = 200" by code_simp+
  from fresh_copy_served [OF warm_ok(1) get0 warm_ok(2) [unfolded key0_def] e hinv0,
      of keep_all "calm down_origin" "\<lambda>s w. None"]
  show ?thesis unfolding warm_clock a by blast
qed

theorem stale_copy_served_witness:
  "\<exists>resp w'. process default_config keep_all (calm down_origin) (\<lambda>s w. None) quiet_hash req0 (warm 80000000000) =
     Some (resp, w') \<and> resp_status resp = 200 \<and> w_jobs w' = [(req0, key0)]"
proof -
  have e: "\<not> isFresh entry0 (w_clock (warm 80000000000) (w_reads (warm 80000000000)))"
    "isServeableStale entry0 (w_clock (warm 80000000000) (w_reads (warm 80000000000)))"
    unfolding warm_clock by code_simp+
  have a: "ce_status entry0 = 200" by code_simp
  have j: "w_jobs (warm 80000000000) = []" "if_table (w_inflight (warm 80000000000)) k = None" for k
    by (simp_all add: warm_def world0_def new_inflight_def)
  from stale_copy_served_once_revalidated [OF warm_ok(1) get0 warm_ok(2) [unfolded key0_def] hinv0 e,
      of keep_all "calm down_origin" "\<lambda>s w. None"]
  show ?thesis unfolding a j key0_def by auto
qed

lemma expired_copy_is_no_copy_witness:
  "\<exists>w1. process default_config keep_all (calm down_origin) (\<lambda>s w. None) quiet_hash req0 (warm 90000000000) =
     serve_miss default_config keep_all (calm down_origin) (\<lambda>s w. None) quiet_hash req0 key0 None 90000000000 w1"
proof -
  have e: "\<not> isFresh entry0 (w_clock (warm 90000000000) (w_reads (warm 90000000000)))"
    "\<not> isServeableStale entry0 (w_clock (warm 90000000000) (w_reads (warm 90000000000)))"
    unfolding warm_clock by code_simp+
  from expired_copy_is_no_copy [OF warm_ok(1) get0 warm_ok(2) [unfolded key0_def] e,
      of keep_all "calm down_origin" "\<lambda>s w. None"]
  show ?thesis unfolding warm_clock key0_def by blast
qed

lemma breaker0: "registry_inv (w_breakers (world0 t))"
  using world0_ok [of "\<lambda>k. 0" t] by (simp add: world_ok_def)

lemma allowed0: "fst (allowRequest now (breaker_of (w_breakers (world0 t)) ''dummy-origin''))"
  by (simp add: world0_def new_registry_def breaker_of_def allowRequest_def fresh_breaker_def
      new_breaker_def)

lemma target0: "cf_originHost default_config = ''dummy-origin''"
  by (simp add: default_config_def)

theorem fetch_is_guarded_witness:
  "fst (fetchGuarded (calm up_origin) req0 (targetFor default_config ''/a'') (world0 0)) =
     (up_origin req0 (targetFor default_config ''/a''), False)"
proof -
  have "allowed (ot_host (targetFor default_config ''/a'')) (world0 0)"
    using allowed0 by (simp add: allowed_def targetFor_def target0)
  with fetch_is_guarded [where origin = up_origin and origin' = up_origin and q = "''h''" and req = req0
      and t = "targetFor default_config ''/a''", OF breaker0 [of 0]]
  show ?thesis by (auto simp: Let_def case_prod_beta prod_eq_iff split: if_splits)
qed

definition post0 :: http_request where
  "post0 = req0\<lparr>req_method := ''POST''\<rparr>"

lemma uncacheable_method_witness:
  "\<exists>resp w'. process default_config keep_all (calm down_origin) (\<lambda>s w. None) quiet_hash post0 (world0 0) =
     Some (resp, w') \<and> resp_status resp = 502 \<and> w_cache w' = w_cache (world0 0)"
proof -
  have "\<not> isCacheableMethod post0" by code_simp
  from uncacheable_method_passes [OF breaker0 this, of default_config keep_all down_origin "\<lambda>s w. None" quiet_hash 0]
  show ?thesis
    using allowed0 by (auto simp: allowed_def target0 down_origin_def no_result_def)
qed

lemma up_origin_ok: "or_ok (up_origin r t)"
  by (simp add: up_origin_def)



lemma down_fails: "or_ok (down_origin r t) \<longrightarrow> 500 \<le> resp_status (or_response (down_origin r t))"
  by (simp add: down_origin_def no_result_def)

lemma failing_origin_keeps_copies_witness:
  "\<exists>w'. revalidate default_config (rule_decide empty_store 60) (calm down_origin) quiet_hash (req0, key0) (warm 0) = Some w' \<and>
     stored quiet_hash w' key0 = Some entry0"
proof -
  have "registry_inv (w_breakers (warm 0))" using warm_ok(1) by (simp add: world_ok_def)
  from failing_origin_keeps_copies [where origin = down_origin and cfg = default_config and req = req0 and st = empty_store
      and t = 60 and h = quiet_hash and key = key0, OF this refl down_fails]
  show ?thesis using warm_ok(2) by auto
qed

theorem returning_leader_witness:
  "\<exists>w'. revalidate default_config keep_all (calm down_origin) quiet_hash (req0, ''k'') (world0 0) = Some w' \<and>
     if_table (w_inflight w') ''k'' = None"
proof -
  obtain w' where w': "revalidate default_config keep_all (calm down_origin) quiet_hash (req0, ''k'') (world0 0) = Some w'"
    using fetchGuarded_calm [OF breaker0, of down_origin req0 "targetFor default_config (req_path req0)" 0]
    by (auto simp: revalidate_def Let_def case_prod_beta down_origin_def no_result_def)
  with returning_leader_frees_key [OF disjI2, OF w'] show ?thesis by blast
qed

definition waiting :: "world \<Rightarrow> world" where
  "waiting w = w\<lparr>w_inflight := snd (acquire key0 new_inflight)\<rparr>"

theorem failed_revalidation_witness:
  "\<exists>w1 resp w2. revalidate default_config keep_all (calm up_origin) quiet_hash (req0, key0) (waiting (tripped 0)) = Some w1 \<and>
     follow default_config keep_all (\<lambda>s w. Some w) quiet_hash req0 0 w1 = Some (resp, w2) \<and> resp_status resp = 200"
proof -
  let ?w = "waiting (tripped 0)" and ?g = "new_registry default_config"
  have b: "w_breakers ?w = snd (with_breaker ''dummy-origin'' (\<lambda>b. ((), transitionToOpen 0 b)) ?g)"
    by (simp add: waiting_def tripped_def)
  have inv: "registry_inv (w_breakers ?w)"
    unfolding b by (rule with_breaker_spec(2) [OF new_registry_inv])
  have c: "w_clock ?w n = 0" for n by (simp add: waiting_def tripped_def world0_def)
  have rej: "\<not> allowed (cf_originHost default_config) ?w"
    unfolding allowed_def b c target0 with_breaker_of [OF new_registry_inv] by code_simp
  have slots: "if_table (w_inflight ?w) key0 = Some 0" "0 < length (if_slots (w_inflight ?w))"
    by (simp_all add: waiting_def acquire_def new_inflight_def Let_def)
  from failed_revalidation_answers_200 [OF inv slots rej, of keep_all "calm up_origin" quiet_hash req0 req0]
  show ?thesis by blast
qed

lemma follower_stores_decorated_copy_witness:
  "\<exists>w' e. follow default_config keep_all (\<lambda>s w. Some w) quiet_hash req0 0
      ((world0 9)\<lparr>w_inflight := publish key0 (decorate (simple 200 ''OK'' ''hello'' ''text/plain'') ''HIT'' default_config ''l2'') True
        (snd (acquire key0 new_inflight))\<rparr>) =
      Some (decorate (decorate (simple 200 ''OK'' ''hello'' ''text/plain'') ''HIT'' default_config ''l2'') ''MISS''
        default_config ''coalesced'', w') \<and>
     stored quiet_hash w' key0 = Some e \<and> hfind (ce_headers e) ''X-Cache-Policy'' = Some ''l2'' \<and> ce_storedAt e = 9"
proof -
  let ?resp = "decorate (simple 200 ''OK'' ''hello'' ''text/plain'') ''HIT'' default_config ''l2''"
  let ?w = "(world0 9)\<lparr>w_inflight := publish key0 ?resp True (snd (acquire key0 new_inflight))\<rparr>"
  have ok: "world_ok quiet_hash ?w" using world0_ok [of quiet_hash 9] by (simp add: world_ok_def)
  have slot: "slot_result 0 (w_inflight ?w) = (?resp, True)"
    by (simp add: acquire_def new_inflight_def publish_def publish_take_def publish_set_def slot_result_def Let_def)
  have keep: "d_cacheable (keep_all (req_path req0) ?resp)" by (simp add: keep_all_def)
  have room: "roomy ?w (candidate keep_all req0 ?resp 0)"
    unfolding roomy_eq world0_def by code_simp
  have fits: "sharded_fits quiet_hash (w_cache ?w) (request_key default_config req0) (candidate keep_all req0 ?resp 0)"
    unfolding world0_def by code_simp
  have hdr: "hfind (resp_headers ?resp) ''X-Cache-Policy'' = Some ''l2''" by code_simp
  have now: "w_clock ?w (w_reads ?w) = 9" by (simp add: world0_def)
  from follower_stores_decorated_copy [OF ok get0 slot keep room fits]
  show ?thesis unfolding key0_def now [unfolded key0_def] using hdr by (elim exE conjE) (intro exI conjI; assumption?; simp only:)
qed

end
