(* ===== verification/Sizes.thy ===== *)
theory Sizes
  imports HttpOriginClient HandlerProperties
begin

text \<open>
  How many bytes a response holds, as natural numbers. An entry built from a response has a size
  that \<^verbatim>\<open>sizeBytes\<close> computes without overflow, and an answer of the HTTP client is bounded by the
  limit of its receive loop.
\<close>

section \<open>Sizes of responses and entries\<close>

definition table_bytes :: "headers \<Rightarrow> nat" where
  "table_bytes h = sum_list (map (\<lambda>kv. length (fst kv) + length (snd kv) + 8) h)"

definition resp_bytes :: "http_response \<Rightarrow> nat" where
  "resp_bytes r = length (resp_body r) + length (resp_reason r) + table_bytes (resp_headers r)"

lemma table_bytes_simps [simp]:
  "table_bytes [] = 0" "table_bytes (kv # h) = length (fst kv) + length (snd kv) + 8 + table_bytes h"
  by (simp_all add: table_bytes_def)

lemma table_bytes_hset: "table_bytes (hset h k v) \<le> table_bytes h + (length k + length v + 8)"
  by (induction ci_less h k v rule: omap_set.induct) auto

lemma hfind_bytes: "hfind h k = Some v \<Longrightarrow> length v \<le> table_bytes h"
  by (induction ci_less h k rule: omap_find.induct) (auto split: if_splits)

lemma headers_bytes_nat: "headers_bytes (of_nat n) h = of_nat (n + table_bytes h)"
proof (induction h arbitrary: n)
  case (Cons kv h)
  have "of_nat n + (of_nat (length (fst kv)) + of_nat (length (snd kv)) + 8) =
      (of_nat (n + (length (fst kv) + length (snd kv) + 8)) :: u64)" by simp
  then show ?case using Cons.IH [of "n + (length (fst kv) + length (snd kv) + 8)"]
    by (simp add: ac_simps del: of_nat_add)
qed simp

lemma sizeBytes_nat:
  "sizeBytes e = of_nat (length (ce_body e) + length (ce_reason e) + length (ce_etag e) + 64 + table_bytes (ce_headers e))"
  using headers_bytes_nat [of "length (ce_body e) + length (ce_reason e) + length (ce_etag e) + 64" "ce_headers e"]
  by (simp add: sizeBytes_def)

lemma entry_small:
  assumes "resp_bytes resp < 2 ^ 61"
  shows "unat (sizeBytes (entry_of decide req resp w)) < 2 ^ 63"
proof -
  have "length (resp_header resp ''ETag'' []) \<le> table_bytes (resp_headers resp)"
    using hfind_bytes by (auto simp: resp_header_def header_or_def split: option.splits)
  moreover define n where "n = length (resp_body resp) + length (resp_reason resp) +
    length (resp_header resp ''ETag'' []) + 64 + table_bytes (resp_headers resp)"
  ultimately have "n < 2 ^ 63" using assms by (simp add: resp_bytes_def)
  moreover have "sizeBytes (entry_of decide req resp w) = of_nat n"
    by (simp only: sizeBytes_nat) (simp add: entry_of_def entryFrom_def n_def)
  ultimately show ?thesis by (simp add: unat_of_nat_u64)
qed

lemma decorate_bytes:
  "resp_bytes (decorate r x cfg p) \<le> resp_bytes r + length x + length (cf_replicaId cfg) + length p + 100"
proof -
  have "table_bytes (hset (hset h ''X-Cache'' x) ''X-EdgeCache-Replica'' q) \<le> table_bytes h + length x + length q + 50"
    for h q
    using table_bytes_hset [of h "''X-Cache''" x]
      table_bytes_hset [of "hset h ''X-Cache'' x" "''X-EdgeCache-Replica''" q] by simp
  moreover have "table_bytes (hset h ''X-Cache-Policy'' p) \<le> table_bytes h + length p + 30" for h
    using table_bytes_hset [of h "''X-Cache-Policy''" p] by simp
  ultimately show ?thesis
    by (fastforce simp: resp_bytes_def decorate_def Let_def intro: order_trans)
qed

section \<open>The answers of the HTTP client\<close>

lemma getline_bytes: "getline d s = Some (l, r) \<Longrightarrow> length l + length r \<le> length s"
proof -
  assume g: "getline d s = Some (l, r)"
  have "length l + length (dropWhile (\<lambda>c. c \<noteq> d) s) = length s"
    using g by (metis getline_def length_append option.inject option.distinct(1) prod.inject takeWhile_dropWhile_id)
  moreover have "length r \<le> length (dropWhile (\<lambda>c. c \<noteq> d) s)"
    using g by (auto simp: getline_def split: if_splits)
  ultimately show ?thesis by simp
qed

lemma strip_cr_bytes: "length (strip_cr l) \<le> length l"
  by (simp add: strip_cr_def)

lemma dropWhile_bytes: "length (dropWhile P s) \<le> length s"
  by (rule length_dropWhile_le)

lemma origin_headers_bytes: "table_bytes (origin_headers h s) \<le> table_bytes h + 9 * length s"
proof (induction h s rule: origin_headers.induct)
  case (1 h s)
  show ?case
  proof (cases "getline LF s")
    case None
    then show ?thesis by (simp add: origin_headers.simps)
  next
    case (Some lr)
    obtain l r where g: "getline LF s = Some (l, r)" using Some by (cases lr) simp
    let ?line = "strip_cr l"
    have len: "length ?line + length r \<le> length s" "length r \<le> length s"
      using getline_bytes [OF g] strip_cr_bytes [of l] by linarith+
    consider "?line = []" | "?line \<noteq> []" "find_char CHR '':'' ?line = None" |
      c where "?line \<noteq> []" "find_char CHR '':'' ?line = Some c" by fastforce
    then show ?thesis
    proof cases
      case 3
      let ?h = "if framing_name (take c ?line) then h
        else hset h (take c ?line) (dropWhile blank (drop (c + 1) ?line))"
      have "c < length ?line" using 3(2) by (auto elim!: find_char_SomeE)
      then have "length (take c ?line) + length (dropWhile blank (drop (c + 1) ?line)) + 8 \<le> 9 * length ?line"
        using dropWhile_bytes [of blank "drop (c + 1) ?line"] by simp
      then have "table_bytes ?h \<le> table_bytes h + 9 * length ?line"
        using table_bytes_hset [of h "take c ?line" "dropWhile blank (drop (c + 1) ?line)"] by auto
      moreover have "table_bytes (origin_headers ?h r) \<le> table_bytes ?h + 9 * length r"
        using 1(2) [OF g refl refl 3 refl refl] .
      moreover have "origin_headers h s = origin_headers ?h r"
        using g 3 by (subst origin_headers.simps) (simp add: Let_def)
      ultimately show ?thesis using len by simp
    next
      case 2
      then have "origin_headers h s = origin_headers h r"
        using g by (subst origin_headers.simps) (simp add: Let_def)
      then show ?thesis using 1(1) [OF g refl refl 2] len by simp
    qed (use g in \<open>simp add: origin_headers.simps Let_def\<close>)
  qed
qed

lemma next_token_bytes: "next_token s = Some (t, r) \<Longrightarrow> length r \<le> length s"
  by (auto simp: next_token_def Let_def split: if_splits intro: order_trans [OF length_dropWhile_le])

lemma extract_int_bytes: "snd (extract_int s) = Some r \<Longrightarrow> length r \<le> length s"
proof -
  assume "snd (extract_int s) = Some r"
  moreover have "length (tl (dropWhile isspace s)) \<le> length s" "length (dropWhile isspace s) \<le> length s"
    using dropWhile_bytes [of isspace s] by simp_all
  ultimately show ?thesis
    by (auto simp: extract_int_def Let_def split: if_splits)
qed

lemma origin_reason_bytes: "length (origin_reason (Some s)) \<le> length s"
proof -
  have "length l \<le> length s" if "getline LF s = Some (l, r)" for l r
    using getline_bytes [OF that] by simp
  then show ?thesis
    by (auto simp: origin_reason_def Let_def split: option.splits intro!: order_trans [OF strip_cr_bytes])
qed

lemma status_line_bytes: "length (snd (status_line line)) \<le> length line"
proof (cases "next_token line")
  case None
  then show ?thesis by (simp add: status_line_def origin_reason_def strip_cr_def)
next
  case (Some vr)
  obtain v r where t: "next_token line = Some (v, r)" using Some by (cases vr) simp
  have "length (origin_reason (snd (extract_int r))) \<le> length r"
  proof (cases "snd (extract_int r)")
    case None
    then show ?thesis by (simp add: origin_reason_def strip_cr_def)
  next
    case (Some x)
    with origin_reason_bytes [of x] extract_int_bytes [OF Some] show ?thesis by simp
  qed
  with next_token_bytes [OF t] show ?thesis
    by (simp add: status_line_def t case_prod_beta Let_def)
qed

lemma parseResponse_bytes:
  assumes "parseResponse raw = Some resp"
  shows "resp_bytes resp \<le> 11 * length raw"
proof -
  obtain e where e: "find_sub (crlf @ crlf) raw = Some e"
    using assms by (auto simp: parseResponse_def split: option.splits)
  obtain line rest where g: "getline LF (take e raw) = Some (line, rest)"
    using assms e by (auto simp: parseResponse_def split: option.splits)
  have r: "resp_body resp = drop (e + 4) raw" "resp_headers resp = origin_headers [] rest"
    "resp_reason resp = snd (status_line (strip_cr line))"
    using assms e g by (auto simp: parseResponse_def Let_def case_prod_beta)
  have "length line + length rest \<le> length raw" using getline_bytes [OF g] by simp
  moreover have "length (resp_reason resp) \<le> length line"
    using status_line_bytes [of "strip_cr line"] strip_cr_bytes [of line] r(3) by simp
  moreover have "table_bytes (resp_headers resp) \<le> 9 * length rest"
    using origin_headers_bytes [of "[]" rest] r(2) by simp
  moreover have "length (resp_body resp) \<le> length raw" using r(1) by simp
  ultimately show ?thesis unfolding resp_bytes_def by linarith
qed

lemma recv_loop_bytes:
  "recv_loop t es raw = Some (Whole r) \<Longrightarrow> length raw \<le> 32 * 1024 * 1024 \<Longrightarrow> length r \<le> 32 * 1024 * 1024 + 16384"
proof (induction t es raw rule: recv_loop.induct)
  case (5 t s es raw)
  show ?case
  proof (cases "s = []")
    case False
    with 5 show ?thesis
      by (cases "32 * 1024 * 1024 < length (raw @ take 16384 s)") (auto simp: recv_chunk_step Let_def)
  qed (use 5 in \<open>auto simp: recv_chunk_step\<close>)
qed (auto split: if_splits)

lemma http_fetch_bytes:
  assumes "http_fetch net req target = Some (r, out)" "or_ok r"
  shows "resp_bytes (or_response r) \<le> 11 * (32 * 1024 * 1024 + 16384)"
proof -
  obtain raw resp where "recv_loop (ot_readMs target) (on_recv net) [] = Some (Whole raw)"
    "parseResponse raw = Some resp" "or_response r = resp"
    using assms by (auto simp: http_fetch_def no_result_def split: prod.splits bool.splits option.splits recv_result.splits)
  with parseResponse_bytes [of raw resp] recv_loop_bytes [of "ot_readMs target" "on_recv net" "[]" raw]
  show ?thesis by simp
qed

end
