(* ===== verification/SharedTier.thy ===== *)
theory SharedTier
  imports RedisL2 RedisEnds Sizes
begin

text \<open>
  What the request handler gets from the shared tier, whatever Redis holds: over a connection that
  breaks in the end and carries at most 512 MiB before, both operations return, and an entry that is
  returned has a well-formed header table and a size that sums of sizes can hold. The reader of the
  blob may jump back when a length wraps, but a key depends on the position it is read at alone,
  so a blob has no more headers than bytes.
\<close>

section \<open>What a blob can hold\<close>

lemma l2_readLine_pos: "l2_readLine blob p = Some (l, q) \<Longrightarrow> p < length blob"
  by (rule ccontr) (simp add: l2_readLine_def find_char_eq_None [THEN iffD2])

lemma readStr_bounds: "readStr blob p = Some (s, q) \<Longrightarrow> p < length blob \<and> length s \<le> length blob"
  using l2_readLine_pos by (fastforce simp: readStr_def Let_def substr_def split: option.splits if_splits)

definition read_keys :: "string \<Rightarrow> string set" where
  "read_keys blob = {k. \<exists>p q. readStr blob p = Some (k, q)}"

lemma read_keys_few: "finite (read_keys blob)" "card (read_keys blob) \<le> length blob"
proof -
  have sub: "read_keys blob \<subseteq> (\<lambda>p. fst (the (readStr blob p))) ` {..<length blob}"
  proof
    fix k assume "k \<in> read_keys blob"
    then obtain p q where r: "readStr blob p = Some (k, q)" by (auto simp: read_keys_def)
    with readStr_bounds [OF r] show "k \<in> (\<lambda>p. fst (the (readStr blob p))) ` {..<length blob}"
      by (intro image_eqI [of _ _ p]) simp_all
  qed
  then show "finite (read_keys blob)" by (rule finite_subset) simp
  have "card (read_keys blob) \<le> card ((\<lambda>p. fst (the (readStr blob p))) ` {..<length blob})"
    using sub by (intro card_mono) simp_all
  also have "\<dots> \<le> length blob" using card_image_le [of "{..<length blob}"] by simp
  finally show "card (read_keys blob) \<le> length blob" .
qed

definition small_table :: "string \<Rightarrow> headers \<Rightarrow> bool" where
  "small_table blob h \<longleftrightarrow> hinv h \<and> fst ` set h \<subseteq> read_keys blob \<and> (\<forall>kv \<in> set h. length (snd kv) \<le> length blob)"

lemma hset_members: "kv \<in> set (hset h k v) \<Longrightarrow> kv \<in> set h \<or> snd kv = v \<and> (fst kv = k \<or> fst kv \<in> fst ` set h)"
  by (induction ci_less h k v rule: omap_set.induct) (auto split: if_splits)

lemma small_table_hset:
  assumes "small_table blob h" "k \<in> read_keys blob" "length v \<le> length blob"
  shows "small_table blob (hset h k v)"
  using assms hset_members [of _ h k v] by (fastforce simp: small_table_def hinv_hset)

lemma read_headers_small: "small_table blob h \<Longrightarrow> read_headers n blob h p = Some (h', q) \<Longrightarrow> small_table blob h'"
proof (induction n blob h p rule: read_headers.induct)
  case (2 n blob h p)
  from 2(3) obtain k p1 v p2 where r: "readStr blob p = Some (k, p1)" "readStr blob p1 = Some (v, p2)"
    "read_headers n blob (hset h k v) p2 = Some (h', q)" by (auto split: option.splits)
  have "k \<in> read_keys blob" using r(1) by (auto simp: read_keys_def)
  with small_table_hset [OF 2(2)] readStr_bounds [OF r(2)] have "small_table blob (hset h k v)" by simp
  from 2(1) [OF r(1) refl r(2) refl this r(3)] show ?case .
qed simp

lemma hinv_distinct: "hinv h \<Longrightarrow> distinct (map fst h)"
  by (induction h) (auto simp: omap_inv_def ci_less_lower)

lemma small_table_bytes:
  assumes "small_table blob h"
  shows "table_bytes h \<le> length blob * (2 * length blob + 8)"
proof -
  have keys: "length k \<le> length blob" if "k \<in> read_keys blob" for k
    using that readStr_bounds by (auto simp: read_keys_def)
  have "length (fst kv) + length (snd kv) + 8 \<le> 2 * length blob + 8" if "kv \<in> set h" for kv
    using that assms keys [of "fst kv"] by (fastforce simp: small_table_def)
  then have "table_bytes h \<le> length h * (2 * length blob + 8)"
    unfolding table_bytes_def using sum_list_mono [of h _ "\<lambda>_. 2 * length blob + 8"] by (simp add: sum_list_triv)
  moreover have "length h = card (fst ` set h)"
    using distinct_card [OF hinv_distinct [of h]] assms by (simp add: small_table_def)
  moreover have "card (fst ` set h) \<le> length blob"
    using assms read_keys_few [of blob] by (meson card_mono order_trans small_table_def)
  ultimately show ?thesis by (metis mult_le_mono1 order_trans)
qed

text \<open>A length that wraps can put the reader back to where it began: the loop then reads the same bytes as
  often as the blob says it has headers, up to $2^{64}$ times.\<close>

lemma header_reader_stands_still:
  assumes "readStr blob p = Some (s, p)"
  shows "\<exists>h'. read_headers n blob h p = Some (h', p)"
  using assms by (induction n arbitrary: h) auto

lemma backward_length: "readStr (''0'' @ [LF] @ ''18446744073709551594'' @ [LF]) 2 = Some ([], 2)"
  by code_simp

section \<open>Entries that fit\<close>

definition entry_bytes :: "cache_entry \<Rightarrow> nat" where
  "entry_bytes e = length (ce_body e) + length (ce_reason e) + length (ce_etag e) + table_bytes (ce_headers e)"

definition fit :: "cache_entry \<Rightarrow> bool" where
  "fit e \<longleftrightarrow> hinv (ce_headers e) \<and> entry_bytes e \<le> 2 ^ 60"

definition volume :: nat where
  "volume = 2 ^ 29"

lemma deserialize_fit:
  assumes "deserialize blob = Some (e, storedAt, ttl)" "length blob \<le> volume"
  shows "fit e"
proof -
  obtain p n p' h q where h: "read_headers n blob [] p = Some (h, q)" "ce_headers e = h"
    and b: "length (ce_body e) \<le> length blob" "length (ce_reason e) \<le> length blob" "length (ce_etag e) \<le> length blob"
    using assms(1) readStr_bounds by (fastforce simp: deserialize_def split: option.splits if_splits)
  have "small_table blob []" by (simp add: small_table_def)
  from read_headers_small [OF this h(1)] have t: "small_table blob h" .
  have "length blob * (2 * length blob + 8) \<le> 2 ^ 29 * (2 * 2 ^ 29 + 8)"
    using assms(2) by (intro mult_le_mono) (simp_all add: volume_def)
  with small_table_bytes [OF t] have "table_bytes h \<le> 2 ^ 29 * (2 * 2 ^ 29 + 8)" by linarith
  with t b h(2) assms(2) show ?thesis
    by (simp add: fit_def entry_bytes_def small_table_def volume_def)
qed

lemma fit_size: "fit e \<Longrightarrow> unat (sizeBytes e) < 2 ^ 63"
proof -
  assume "fit e"
  then have "entry_bytes e + 64 < 2 ^ 63" by (simp add: fit_def)
  moreover have "sizeBytes e = of_nat (entry_bytes e + 64)"
    by (simp only: sizeBytes_nat) (simp add: entry_bytes_def)
  ultimately show ?thesis using unat_of_nat_u64 [of "entry_bytes e + 64"] by (simp del: of_nat_add)
qed

lemma fit_response: "fit e \<Longrightarrow> resp_bytes (toResponse e) \<le> 2 ^ 60 \<and> hinv (resp_headers (toResponse e))"
  by (simp add: fit_def entry_bytes_def resp_bytes_def toResponse_def)

section \<open>The two operations\<close>

lemma ensure_tame: "tame V c \<Longrightarrow> \<exists>ok c'. ensureConnected cfg c = Some (ok, c') \<and> tame V c'"
  using connect_tame by (simp add: ensureConnected_def ex_bool_eq)

lemma revive_fit:
  assumes "length blob \<le> volume" "revive wall now blob = Some e"
  shows "fit e"
  using assms deserialize_fit [OF _ assms(1)]
  by (fastforce simp: revive_def Let_def fit_def entry_bytes_def split: option.splits if_splits)

lemma l2_get_tame:
  assumes "tame volume c"
  shows "\<exists>e c'. l2_get cfg wall now key c = Some (e, c') \<and> tame volume c' \<and> (\<forall>x. e = Some x \<longrightarrow> fit x)"
proof (cases "cf_l2Enabled cfg")
  case True
  obtain ok c1 where c1: "ensureConnected cfg c = Some (ok, c1)" "tame volume c1" using ensure_tame [OF assms] by blast
  obtain r c2 where r: "command [''GET'', keyFor cfg key] c1 = Some (r, c2)" "tame volume c2"
    "isError r \<or> length (rp_str r) \<le> volume"
    using command_tame [OF c1(2)] by blast
  show ?thesis
    using True c1 r tame_frame(1) [OF r(2)] revive_fit [of "rp_str r" wall now]
    by (cases ok) (auto simp: l2_get_def)
qed (use assms in \<open>simp add: l2_get_def\<close>)

lemma l2_put_tame:
  assumes "tame volume c"
  shows "\<exists>c'. l2_put cfg wall key e ttl c = Some c' \<and> tame volume c'"
proof (cases "\<not> cf_l2Enabled cfg \<or> ttl = 0")
  case False
  obtain ok c1 where c1: "ensureConnected cfg c = Some (ok, c1)" "tame volume c1" using ensure_tame [OF assms] by blast
  obtain r c2 where r: "command [''SET'', keyFor cfg key, l2_serialize wall e, ''EX'', show_nat (unat ttl)] c1 = Some (r, c2)"
    "tame volume c2"
    using command_tame [OF c1(2)] by blast
  show ?thesis
    using False c1 r tame_frame(1) [OF r(2)] by (cases ok) (auto simp: l2_put_def Let_def)
qed (use assms in \<open>auto simp: l2_put_def\<close>)

end
