(* ===== verification/ServerProperties.thy ===== *)
theory ServerProperties
  imports ProxyServer SharedTier
begin

text \<open>
  The proxy as a whole. \<open>sound\<close> is the invariant of the handler's world; the locale \<open>environment\<close> is
  what a request relies on while it waits for the origin or for another request: the other threads
  keep \<open>sound\<close>, slots never disappear, the wait ends, and an origin's answer has a size that a sum
  of sizes can hold. Inside it every operation of the handler is shown to return and to keep
  \<open>sound\<close>, which is what the other threads rely on in turn. It is interpreted on the proxy's
  own HTTP client, whose answers are bounded by its 32 MiB limit.
\<close>

section \<open>The world is sound\<close>

definition slots_of :: "world \<Rightarrow> slot list" where
  "slots_of w = if_slots (w_inflight w)"

text \<open>\<open>caps\<close> are the capacities of the shards, and \<open>tier\<close> says whether there is a shared tier: no
  operation changes them.\<close>

definition sound :: "(string \<Rightarrow> u64) \<Rightarrow> u64 list \<Rightarrow> bool \<Rightarrow> world \<Rightarrow> bool" where
  "sound h caps tier w \<longleftrightarrow> world_ok h w \<and> (w_l2 w = None \<longleftrightarrow> \<not> tier) \<and> (\<forall>c. w_l2 w = Some c \<longrightarrow> tame volume c) \<and>
     map maxBytes (w_cache w) = caps \<and> list_all (\<lambda>cap. unat cap < 2 ^ 63) caps \<and>
     (\<forall>k e. stored h w k = Some e \<longrightarrow> hinv (ce_headers e)) \<and>
     (\<forall>k s. if_table (w_inflight w) k = Some s \<longrightarrow> s < length (slots_of w)) \<and>
     (\<forall>sl \<in> set (slots_of w). hinv (resp_headers (sl_response sl)) \<and>
       (sl_success sl \<longrightarrow> resp_bytes (sl_response sl) < 2 ^ 61))"

lemma sound_cong:
  "w_cache w' = w_cache w \<Longrightarrow> registry_inv (w_breakers w') \<Longrightarrow> w_inflight w' = w_inflight w \<Longrightarrow> w_l2 w' = w_l2 w \<Longrightarrow>
     sound h caps tier w \<Longrightarrow> sound h caps tier w'"
  by (simp add: sound_def world_ok_def roomy_def slots_of_def stored_def)

lemma sound_roomy: "sound h caps tier w \<Longrightarrow> unat (sizeBytes e) < 2 ^ 63 \<Longrightarrow> roomy w e"
  by (auto simp: sound_def roomy_def sharded_room_def op_room_def list_all_iff)

lemma sound_cache:
  "sound h caps tier w \<Longrightarrow> sharded_inv h c \<Longrightarrow> map maxBytes c = map maxBytes (w_cache w) \<Longrightarrow>
     (\<And>k e. look h c k = Some e \<Longrightarrow> hinv (ce_headers e)) \<Longrightarrow> sound h caps tier (w\<lparr>w_cache := c\<rparr>)"
  by (simp add: sound_def world_ok_def slots_of_def stored_def)

lemma sound_stored: "sound h caps tier w \<Longrightarrow> look h (w_cache w) k = Some e \<Longrightarrow> hinv (ce_headers e)"
  by (simp add: sound_def stored_def)

lemma sound_l2: "sound h caps tier w \<Longrightarrow> tame volume c \<Longrightarrow> tier \<Longrightarrow> sound h caps tier (w\<lparr>w_l2 := Some c\<rparr>)"
  by (simp add: sound_def world_ok_def slots_of_def stored_def)

lemma sound_registry: "sound h caps tier w \<Longrightarrow> registry_inv (w_breakers w)"
  by (simp add: sound_def world_ok_def)

lemma sound_steps [simp]:
  "sound h caps tier (snd (clock w)) = sound h caps tier w" "sound h caps tier (count_metric f w) = sound h caps tier w"
  "sound h caps tier (snd (served resp w)) = sound h caps tier w" "sound h caps tier (w\<lparr>w_jobs := js\<rparr>) = sound h caps tier w"
  "sound h caps tier (w\<lparr>w_log := evs\<rparr>) = sound h caps tier w" "sound h caps tier (snd (wall_clock w)) = sound h caps tier w"
  by (auto simp: sound_def world_ok_def roomy_def slots_of_def stored_def)

lemma sound_breaker_op [intro]: "sound h caps tier w \<Longrightarrow> sound h caps tier (snd (breaker_op host f w))"
  by (rule sound_cong [of _ w]) (simp_all add: sound_registry breaker_op_inv)

lemma sound_acquire [intro]: "sound h caps tier w \<Longrightarrow> sound h caps tier (w\<lparr>w_inflight := snd (acquire key (w_inflight w))\<rparr>)"
  by (auto simp: sound_def world_ok_def roomy_def slots_of_def stored_def acquire_def Let_def new_slot_def
      resp_bytes_def empty_response_def less_SucI split: option.splits)

lemma sound_publish [intro]:
  assumes "sound h caps tier w" "hinv (resp_headers resp)" "ok \<Longrightarrow> resp_bytes resp < 2 ^ 61"
  shows "sound h caps tier (publish_slot key resp ok w)"
  using assms
  by (auto simp: sound_def world_ok_def roomy_def slots_of_def stored_def publish_slot_def publish_def publish_take_def
      publish_set_def dest!: set_update_subset_insert [THEN subsetD] split: option.splits)

lemma sound_inv: "sound h caps tier w \<Longrightarrow> sharded_inv h (w_cache w)"
  by (simp add: sound_def world_ok_def)

lemma sound_get:
  assumes "sound h caps tier w"
  shows "\<exists>w'. cache_get h key w = Some (stored h w key, w') \<and> sound h caps tier w' \<and> stored h w' = stored h w \<and>
    w_inflight w' = w_inflight w \<and> w_jobs w' = w_jobs w \<and> w_l2 w' = w_l2 w \<and> w_metrics w' = w_metrics w \<and> w_log w' = w_log w"
proof -
  obtain c where "sharded_get h (w_cache w) key = Some (c, look h (w_cache w) key)" "sharded_inv h c"
    "map maxBytes c = map maxBytes (w_cache w)" "look h c = look h (w_cache w)"
    using sharded_get_step [OF sound_inv [OF assms], of key] by blast
  with sound_cache [OF assms, of c] sound_stored [OF assms] show ?thesis by (simp add: cache_get_def stored_def)
qed

lemma sound_lookup:
  assumes "sound h caps tier w" "isCacheableMethod req"
  shows "\<exists>w1. sound h caps tier w1 \<and> stored h w1 = stored h w \<and> w_inflight w1 = w_inflight w \<and> w_jobs w1 = w_jobs w \<and>
    w_l2 w1 = w_l2 w \<and> w_metrics w1 = w_metrics w \<and> w_log w1 = w_log w \<and> process cfg decide fetch wait h req w =
      (case stored h w (request_key cfg req) of
         Some e \<Rightarrow>
           if isFresh e (w_clock w (w_reads w)) then Some (serve_fresh cfg e (w_clock w (w_reads w)) w1)
           else if isServeableStale e (w_clock w (w_reads w)) then Some (serve_stale cfg req (request_key cfg req) e w1)
           else serve_miss cfg decide fetch wait h req (request_key cfg req) (Some e) (w_clock w (w_reads w)) w1
       | None \<Rightarrow> serve_miss cfg decide fetch wait h req (request_key cfg req) None (w_clock w (w_reads w)) w1)"
proof -
  have "sound h caps tier (snd (clock w))" using assms(1) by simp
  from sound_get [OF this, of "request_key cfg req"] obtain w1 where
    w1: "cache_get h (request_key cfg req) (snd (clock w)) = Some (stored h w (request_key cfg req), w1)" "sound h caps tier w1"
    "stored h w1 = stored h w" "w_inflight w1 = w_inflight w" "w_jobs w1 = w_jobs w" "w_l2 w1 = w_l2 w" "w_metrics w1 = w_metrics w" "w_log w1 = w_log w"
    by (auto simp: clock_ok)
  with assms(2) show ?thesis
    by (intro exI [of _ w1]) (simp add: process_def Let_def case_prod_beta split: option.split)
qed

lemma sound_miss:
  assumes "sound h caps False w" "isCacheableMethod req" "key = request_key cfg req" "stored h w key = None"
    and "if_table (w_inflight w) key = None"
  shows "\<exists>w1. sound h caps False w1 \<and> w_breakers w1 = w_breakers w \<and> w_clock w1 = w_clock w \<and> w_reads w1 = Suc (w_reads w) \<and>
    process cfg decide fetch wait h req w = lead_from_origin cfg decide fetch h req key None (w_clock w (w_reads w)) w1"
proof -
  obtain c where c: "sharded_get h (w_cache w) key = Some (c, None)" "sharded_inv h c"
    "map maxBytes c = map maxBytes (w_cache w)" "look h c = look h (w_cache w)"
    using sharded_get_step [OF sound_inv [OF assms(1)], of key] assms(4) by (auto simp: stored_def)
  let ?w = "(snd (clock w))\<lparr>w_cache := c\<rparr>"
  have ok: "sound h caps False ?w" using c sound_stored [OF assms(1)] assms(1) by (intro sound_cache) simp_all
  have "process cfg decide fetch wait h req w = serve_miss cfg decide fetch wait h req key None (w_clock w (w_reads w)) ?w"
    using assms(2,3) c(1) by (simp add: process_def cache_get_def Let_def case_prod_beta)
  also have "\<dots> = lead_from_origin cfg decide fetch h req key None (w_clock w (w_reads w)) (leading key ?w)"
    using assms(1,5) by (intro serve_miss_leads) (simp_all add: sound_def)
  finally show ?thesis
    using sound_acquire [of h caps False "count_metric recordMiss ?w" key] ok
    by (intro exI [of _ "leading key ?w"]) (simp add: leading_def)
qed

lemma sound_put:
  assumes "sound h caps tier w" "unat (sizeBytes e) < 2 ^ 63" "hinv (ce_headers e)"
  shows "\<exists>c. cache_put h key e w = Some (w\<lparr>w_cache := c\<rparr>) \<and> sound h caps tier (w\<lparr>w_cache := c\<rparr>)"
proof -
  have "sharded_room (w_cache w) (OpPut key e)" using sound_roomy [OF assms(1,2)] by (simp add: roomy_def)
  from sharded_apply_step [OF sound_inv [OF assms(1)] this] obtain c where
    c: "sharded_put h (w_cache w) key e = Some c" "sharded_inv h c" "map maxBytes c = map maxBytes (w_cache w)"
    "look h c \<subseteq>\<^sub>m (look h (w_cache w))(key \<mapsto> e)" by auto
  have "hinv (ce_headers x)" if "look h c k = Some x" for k x
  proof -
    have "((look h (w_cache w))(key \<mapsto> e)) k = Some x" using c(4) that by (force simp: map_le_def)
    then show ?thesis using assms(3) sound_stored [OF assms(1)] by (simp split: if_splits)
  qed
  with c show ?thesis using sound_cache [OF assms(1), of c] by (intro exI [of _ c]) (simp add: cache_put_def)
qed

lemma entry_of_headers [simp]: "ce_headers (entry_of decide req resp w) = resp_headers resp"
  by (simp add: entry_of_def entryFrom_def)

lemma sound_maybeStore:
  assumes "sound h caps tier w" "resp_bytes resp < 2 ^ 61" "hinv (resp_headers resp)"
  shows "\<exists>w'. maybeStore cfg decide h req resp w = Some w' \<and> sound h caps tier w'"
proof (cases "isCacheableMethod req \<and> d_cacheable (decide (req_path req) resp)")
  case True
  let ?e = "entry_of decide req resp w"
  have "sound h caps tier (snd (clock w))" using assms(1) by simp
  from sound_put [OF this entry_small [OF assms(2), of decide req w], of "request_key cfg req"] assms(3) obtain w'
    where "cache_put h (request_key cfg req) ?e (snd (clock w)) = Some w'" "sound h caps tier w'" by auto
  with True show ?thesis by (simp add: maybeStore_def Let_def case_prod_beta entry_of_def)
qed (use assms in \<open>auto simp: maybeStore_def\<close>)

lemma sound_l2_store:
  assumes "sound h caps tier w"
  shows "\<exists>w'. l2_store cfg key e ttl w = Some w' \<and> sound h caps tier w'"
proof (cases "w_l2 w")
  case (Some c)
  then have t: "tier" "tame volume c" using assms by (auto simp: sound_def)
  obtain c' where "l2_put cfg (fst (wall_clock w)) key e ttl c = Some c'" "tame volume c'"
    using l2_put_tame [OF t(2)] by blast
  with Some t sound_l2 [of h caps tier "snd (wall_clock w)" c'] assms show ?thesis
    by (simp add: l2_store_def Let_def case_prod_beta)
qed (use assms in \<open>simp add: l2_store_def\<close>)

lemma sound_storeTiers:
  assumes "sound h caps tier w" "resp_bytes resp < 2 ^ 61" "hinv (resp_headers resp)"
  shows "\<exists>w'. storeTiers cfg decide h req resp w = Some w' \<and> sound h caps tier w'"
proof (cases "isCacheableMethod req \<and> d_cacheable (decide (req_path req) resp)")
  case True
  let ?e = "entry_of decide req resp w"
  have "sound h caps tier (snd (clock w))" using assms(1) by simp
  from sound_put [OF this entry_small [OF assms(2), of decide req w], of "request_key cfg req"] assms(3) obtain w'
    where w': "cache_put h (request_key cfg req) ?e (snd (clock w)) = Some w'" "sound h caps tier w'" by auto
  obtain w2 where "l2_store cfg (request_key cfg req) ?e (d_ttl (decide (req_path req) resp)) w' = Some w2"
    "sound h caps tier w2" using sound_l2_store [OF w'(2)] by blast
  with w' True show ?thesis by (simp add: storeTiers_def Let_def case_prod_beta entry_of_def)
qed (use assms in \<open>auto simp: storeTiers_def\<close>)

lemma sound_l2_lookup:
  assumes "sound h caps tier w"
  shows "\<exists>e w'. l2_lookup cfg key w = Some (e, w') \<and> sound h caps tier w' \<and> (\<forall>x. e = Some x \<longrightarrow> fit x)"
proof (cases "w_l2 w")
  case (Some c)
  then have t: "tier" "tame volume c" using assms by (auto simp: sound_def)
  let ?w = "snd (clock (snd (wall_clock w)))"
  obtain e c' where "l2_get cfg (fst (wall_clock w)) (fst (clock (snd (wall_clock w)))) key c = Some (e, c')"
    "tame volume c'" "\<forall>x. e = Some x \<longrightarrow> fit x" using l2_get_tame [OF t(2)] by blast
  with Some t sound_l2 [of h caps tier ?w c'] assms show ?thesis
    by (simp add: l2_lookup_def Let_def case_prod_beta)
qed (use assms in \<open>simp add: l2_lookup_def\<close>)

text \<open>A response of the handler: a well-formed header table in which it says how the request was served
  and by which replica.\<close>

definition tagged :: "config \<Rightarrow> http_response \<Rightarrow> bool" where
  "tagged cfg resp \<longleftrightarrow> hinv (resp_headers resp) \<and>
     hfind (resp_headers resp) ''X-Cache'' \<in> Some ` {''HIT'', ''MISS'', ''STALE'', ''PASS''} \<and>
     hfind (resp_headers resp) ''X-EdgeCache-Replica'' = Some (cf_replicaId cfg)"

lemma decorate_tagged:
  assumes "hinv (resp_headers r)" "x \<in> {''HIT'', ''MISS'', ''STALE'', ''PASS''}"
  shows "tagged cfg (decorate r x cfg p)"
  using assms by (auto simp: tagged_def decorate_def Let_def hfind_hset hinv_hset)

text \<open>A copy from the shared tier: it is stored, published and served.\<close>

lemma decorate_small:
  assumes "resp_bytes r \<le> n" "length (cf_replicaId cfg) < 2 ^ 32" "length x < 2 ^ 32" "length p < 2 ^ 32"
  shows "resp_bytes (decorate r x cfg p) < n + 2 ^ 34"
  using decorate_bytes [of r x cfg p] assms by simp

lemma sound_lead_from_l2:
  assumes "sound h caps tier w" "fit e" "length (cf_replicaId cfg) < 2 ^ 32"
  shows "\<exists>resp w'. lead_from_l2 cfg h key e w = Some (resp, w') \<and> sound h caps tier w' \<and> tagged cfg resp"
proof -
  let ?r = "(toResponse e)\<lparr>resp_headers := hset (resp_headers (toResponse e)) ''Age'' ''0''\<rparr>"
  let ?d = "decorate ?r ''HIT'' cfg ''l2''"
  let ?p = "?d\<lparr>resp_headers := hset (resp_headers ?d) ''X-Cache-Tier'' ''L2''\<rparr>"
  have hi: "hinv (resp_headers ?p)" using fit_response [OF assms(2)] by (simp add: hinv_hset decorate_inv)
  have "resp_bytes ?r \<le> resp_bytes (toResponse e) + 12"
    using table_bytes_hset [of "resp_headers (toResponse e)" "''Age''" "''0''"] by (simp add: resp_bytes_def)
  then have "resp_bytes ?r \<le> 2 ^ 60 + 12" using fit_response [OF assms(2)] by simp
  from decorate_small [OF this assms(3), of "''HIT''" "''l2''"] have "resp_bytes ?d < 2 ^ 60 + 2 ^ 35" by simp
  moreover have "resp_bytes ?p \<le> resp_bytes ?d + 22"
    using table_bytes_hset [of "resp_headers ?d" "''X-Cache-Tier''" "''L2''"] by (simp add: resp_bytes_def)
  ultimately have small: "resp_bytes ?p < 2 ^ 61" by simp
  obtain c where c: "cache_put h key e w = Some (w\<lparr>w_cache := c\<rparr>)" "sound h caps tier (w\<lparr>w_cache := c\<rparr>)"
    using sound_put [OF assms(1) fit_size [OF assms(2)]] assms(2) by (auto simp: fit_def)
  have "sound h caps tier (publish_slot key ?p True (w\<lparr>w_cache := c\<rparr>))"
    using c(2) hi small by (intro sound_publish)
  moreover have "tagged cfg ?d" using fit_response [OF assms(2)] by (intro decorate_tagged) (simp_all add: hinv_hset)
  then have "tagged cfg ?p" by (simp add: tagged_def hfind_hset hinv_hset)
  ultimately show ?thesis using c(1) by (simp add: lead_from_l2_def Let_def served_def)
qed

section \<open>What the other threads leave\<close>

definition slots_grow :: "world \<Rightarrow> world \<Rightarrow> bool" where
  "slots_grow w w' \<longleftrightarrow> length (slots_of w) \<le> length (slots_of w')"

text \<open>Names and reasons that are added to a response are short.\<close>

definition modest :: "config \<Rightarrow> decider \<Rightarrow> bool" where
  "modest cfg decide \<longleftrightarrow> length (cf_replicaId cfg) < 2 ^ 32 \<and> (\<forall>p r. length (d_reason (decide p r)) < 2 ^ 32)"

lemma rule_decide_modest: "length (cf_replicaId cfg) < 2 ^ 32 \<Longrightarrow> modest cfg (rule_decide st ttl)"
  by (auto simp: modest_def rule_decide_def header_decide_def no_decision_def Let_def case_prod_beta split: option.split)

lemma acquire_slot:
  assumes "sound h caps tier w" "acquire key (w_inflight w) = ((leader, s), st)"
  shows "s < length (if_slots st)"
  using assms by (auto simp: sound_def slots_of_def acquire_def Let_def split: option.splits)

lemma slot_result_good:
  assumes "sound h caps tier w" "s < length (slots_of w)"
  shows "hinv (resp_headers (fst (slot_result s (w_inflight w))))"
    "snd (slot_result s (w_inflight w)) \<Longrightarrow> resp_bytes (fst (slot_result s (w_inflight w))) < 2 ^ 61"
  using assms by (auto simp: sound_def slots_of_def slot_result_def)

definition well_answered :: "config \<Rightarrow> (string \<Rightarrow> u64) \<Rightarrow> u64 list \<Rightarrow> bool \<Rightarrow> (http_response \<times> world) option \<Rightarrow> bool" where
  "well_answered cfg h caps tier r \<longleftrightarrow> (\<exists>resp w. r = Some (resp, w) \<and> sound h caps tier w \<and> tagged cfg resp)"

lemma well_served: "well_answered cfg h caps tier (Some (served resp w)) \<longleftrightarrow> sound h caps tier w \<and> tagged cfg resp"
  by (simp add: well_answered_def served_def)

lemma simple_inv [inv_intros]: "hinv (resp_headers (simple st re bd ct))"
  by (simp add: simple_def omap_inv_def)

lemma failure_inv [inv_intros]: "hinv (resp_headers (origin_failure rejected))"
  by (simp add: origin_failure_def simple_inv)

lemma toResponse_headers [simp]: "resp_headers (toResponse e) = ce_headers e"
  by (simp add: toResponse_def)

locale environment =
  fixes h :: "string \<Rightarrow> u64" and caps :: "u64 list" and tier :: bool and fetch :: fetcher and wait :: "nat \<Rightarrow> world \<Rightarrow> world option"
  assumes fetch_sound: "sound h caps tier w \<Longrightarrow> sound h caps tier (snd (fetch req t w))"
    and fetch_good: "or_ok (fst (fetch req t w)) \<Longrightarrow>
      resp_bytes (or_response (fst (fetch req t w))) < 2 ^ 60 \<and> hinv (resp_headers (or_response (fst (fetch req t w))))"
    and wait_sound: "sound h caps tier w \<Longrightarrow> \<exists>w'. wait s w = Some w' \<and> sound h caps tier w' \<and> slots_grow w w'"
begin

lemma guarded_sound:
  assumes "sound h caps tier w"
  shows "sound h caps tier (snd (fetchGuarded fetch req t w))"
    "or_ok (fst (fst (fetchGuarded fetch req t w))) \<Longrightarrow>
      resp_bytes (or_response (fst (fst (fetchGuarded fetch req t w)))) < 2 ^ 60 \<and>
      hinv (resp_headers (or_response (fst (fst (fetchGuarded fetch req t w)))))"
proof -
  let ?asked = "snd (clock (snd (breaker_op (ot_host t) (allowRequest (w_clock w (w_reads w))) (snd (clock w)))))"
  have reg: "registry_inv (w_breakers w)" using assms by (rule sound_registry)
  have asked: "sound h caps tier ?asked" using assms by (simp add: sound_breaker_op)
  note ends = fetch_sound [OF asked, of req t]
  have "sound h caps tier (snd (fetchGuarded fetch req t w)) \<and> (or_ok (fst (fst (fetchGuarded fetch req t w))) \<longrightarrow>
      resp_bytes (or_response (fst (fst (fetchGuarded fetch req t w)))) < 2 ^ 60 \<and>
      hinv (resp_headers (or_response (fst (fst (fetchGuarded fetch req t w))))))"
  proof (cases "allowed (ot_host t) w")
    case True
    then show ?thesis
      using ends fetch_good [of req t ?asked]
      by (auto simp: fetchGuarded_asks [OF reg True] case_prod_beta Let_def sound_breaker_op)
  next
    case False
    then show ?thesis
      using assms by (simp add: fetchGuarded_open [OF reg False] no_result_def sound_breaker_op)
  qed
  then show "sound h caps tier (snd (fetchGuarded fetch req t w))"
    "or_ok (fst (fst (fetchGuarded fetch req t w))) \<Longrightarrow>
      resp_bytes (or_response (fst (fst (fetchGuarded fetch req t w)))) < 2 ^ 60 \<and>
      hinv (resp_headers (or_response (fst (fst (fetchGuarded fetch req t w)))))" by blast+
qed

lemma lead_from_origin_sound:
  assumes "sound h caps tier w" "modest cfg decide" "\<And>e. cached = Some e \<Longrightarrow> hinv (ce_headers e)"
  shows "well_answered cfg h caps tier (lead_from_origin cfg decide fetch h req key cached now w)"
proof -
  obtain r rejected w1 where f: "fetchGuarded fetch req (targetFor cfg (req_path req)) w = ((r, rejected), w1)"
    by (metis surj_pair)
  have w1: "sound h caps tier w1" "or_ok r \<Longrightarrow> resp_bytes (or_response r) < 2 ^ 60 \<and> hinv (resp_headers (or_response r))"
    using guarded_sound [OF assms(1), of req "targetFor cfg (req_path req)"] f by simp_all
  show ?thesis
  proof (cases "or_ok r")
    case True
    let ?resp = "decorate (or_response r) ''MISS'' cfg (d_reason (decide (req_path req) (or_response r)))"
    have "resp_bytes (or_response r) < 2 ^ 61" "hinv (resp_headers (or_response r))" using w1(2) [OF True] by simp_all
    from sound_storeTiers [OF w1(1) this] obtain w2 where
      w2: "storeTiers cfg decide h req (or_response r) w1 = Some w2" "sound h caps tier w2" by blast
    have "resp_bytes ?resp < 2 ^ 60 + 2 ^ 34"
      using w1(2) [OF True] assms(2) by (intro decorate_small) (simp_all add: modest_def)
    then have "resp_bytes ?resp < 2 ^ 61" by simp
    moreover have "hinv (resp_headers ?resp)" using w1(2) [OF True] by (simp add: decorate_inv)
    ultimately show ?thesis
      using True f w2 w1(2) [OF True] by (simp add: lead_from_origin_def Let_def well_served sound_publish decorate_tagged)
  next
    case False
    with w1(1) f assms(3) show ?thesis
      by (auto simp: lead_from_origin_def Let_def well_served sound_publish decorate_inv decorate_tagged failure_inv split: option.split)
  qed
qed

lemma lead_sound:
  assumes "sound h caps tier w" "modest cfg decide" "\<And>e. cached = Some e \<Longrightarrow> hinv (ce_headers e)"
  shows "well_answered cfg h caps tier (lead cfg decide fetch h req key cached now w)"
proof -
  obtain e w1 where w1: "l2_lookup cfg key w = Some (e, w1)" "sound h caps tier w1" "\<forall>x. e = Some x \<longrightarrow> fit x"
    using sound_l2_lookup [OF assms(1)] by blast
  show ?thesis
  proof (cases e)
    case None
    with w1 lead_from_origin_sound [OF w1(2) assms(2,3)] show ?thesis by (simp add: lead_def)
  next
    case (Some x)
    with w1 sound_lead_from_l2 [OF w1(2), of x cfg key] assms(2) show ?thesis
      by (auto simp: lead_def modest_def well_answered_def)
  qed
qed

lemma follow_sound:
  assumes "sound h caps tier w" "s < length (slots_of w)"
  shows "well_answered cfg h caps tier (follow cfg decide wait h req s w)"
proof -
  obtain w1 where w1: "wait s w = Some w1" "sound h caps tier w1" "slots_grow w w1"
    using wait_sound [OF assms(1), of s] by blast
  obtain resp ok where r: "slot_result s (w_inflight w1) = (resp, ok)" by (cases "slot_result s (w_inflight w1)")
  have "s < length (slots_of w1)" using assms(2) w1(3) by (simp add: slots_grow_def)
  note good = slot_result_good [OF w1(2) this, unfolded r fst_conv snd_conv]
  show ?thesis
  proof (cases ok)
    case True
    from sound_maybeStore [OF w1(2) good(2) [OF True] good(1)] obtain w2 where
      "maybeStore cfg decide h req resp w1 = Some w2" "sound h caps tier w2" by blast
    with w1 r True good(1) show ?thesis by (simp add: follow_def Let_def well_served decorate_tagged)
  qed (use w1 r good(1) in \<open>simp add: follow_def Let_def well_served decorate_tagged\<close>)
qed

lemma serve_miss_sound:
  assumes "sound h caps tier w" "modest cfg decide" "\<And>e. cached = Some e \<Longrightarrow> hinv (ce_headers e)"
  shows "well_answered cfg h caps tier (serve_miss cfg decide fetch wait h req key cached now w)"
proof -
  let ?w = "count_metric recordMiss w"
  obtain leader s st where a: "acquire key (w_inflight ?w) = ((leader, s), st)" by (metis surj_pair)
  have w: "sound h caps tier (?w\<lparr>w_inflight := st\<rparr>)" using sound_acquire [of h caps tier ?w key] assms(1) a by simp
  have "s < length (slots_of (?w\<lparr>w_inflight := st\<rparr>))"
    using acquire_slot [of h caps tier ?w, OF _ a] assms(1) by (simp add: slots_of_def)
  with a show ?thesis
    using lead_sound [OF w assms(2,3)] follow_sound [OF w] by (simp add: serve_miss_def Let_def)
qed

lemma serve_stale_sound:
  "sound h caps tier w \<Longrightarrow> hinv (ce_headers e) \<Longrightarrow> well_answered cfg h caps tier (Some (serve_stale cfg req key e w))"
  using sound_acquire [of h caps tier "count_metric recordStaleServed (count_metric recordHit w)" key]
  by (simp add: serve_stale_def triggerRevalidation_def Let_def case_prod_beta well_served decorate_tagged)

lemma process_sound:
  assumes "sound h caps tier w" "modest cfg decide"
  shows "well_answered cfg h caps tier (process cfg decide fetch wait h req w)"
proof (cases "isCacheableMethod req")
  case False
  obtain r rejected w1 where f: "fetchGuarded fetch req (targetFor cfg (req_path req)) (count_metric recordMiss w) = ((r, rejected), w1)"
    by (metis surj_pair)
  then show ?thesis
    using False guarded_sound [of "count_metric recordMiss w" req "targetFor cfg (req_path req)"] assms(1)
    by (auto simp: process_def pass_through_def Let_def well_served decorate_tagged failure_inv)
next
  case True
  let ?key = "request_key cfg req" and ?now = "w_clock w (w_reads w)"
  from sound_lookup [OF assms(1) True, of cfg decide fetch wait] obtain w1 where w1: "sound h caps tier w1"
    and p: "process cfg decide fetch wait h req w =
      (case stored h w ?key of
         Some e \<Rightarrow>
           if isFresh e ?now then Some (serve_fresh cfg e ?now w1)
           else if isServeableStale e ?now then Some (serve_stale cfg req ?key e w1)
           else serve_miss cfg decide fetch wait h req ?key (Some e) ?now w1
       | None \<Rightarrow> serve_miss cfg decide fetch wait h req ?key None ?now w1)" by blast
  have hi: "hinv (ce_headers e)" if "stored h w ?key = Some e" for e
    using that sound_stored [OF assms(1)] by (simp add: stored_def)
  have fresh: "well_answered cfg h caps tier (Some (serve_fresh cfg e ?now w1))" if "stored h w ?key = Some e" for e
    using w1 hi [OF that] by (simp add: serve_fresh_def Let_def well_served decorate_tagged hinv_hset)
  show ?thesis
    unfolding p using serve_miss_sound [OF w1 assms(2)] serve_stale_sound [OF w1 hi] fresh hi by (simp split: option.split)
qed

lemma handle_sound:
  assumes "sound h caps tier w" "modest cfg decide"
  shows "\<exists>resp w'. handle cfg decide fetch wait h req w = Some (resp, w') \<and> sound h caps tier w' \<and> tagged cfg resp"
proof -
  have "sound h caps tier (snd (clock w))" using assms(1) by simp
  from process_sound [OF this assms(2)] obtain resp w1 where
    "process cfg decide fetch wait h req (snd (clock w)) = Some (resp, w1)" "sound h caps tier w1" "tagged cfg resp"
    unfolding well_answered_def by blast
  then show ?thesis
    by (cases "w_log w1") (simp_all add: handle_def case_prod_beta Let_def)
qed

text \<open>A leader with a good answer stores it, whatever the others did to its key in the meantime.\<close>

lemma lead_stores:
  assumes "sound h caps tier w" "\<not> tier" "isCacheableMethod req" "allowed (cf_originHost cfg) w"
    and "\<And>w0. fst (fetch req (targetFor cfg (req_path req)) w0) = r" "or_ok r" "d_cacheable (decide (req_path req) (or_response r))"
    and "key = request_key cfg req" "sharded_fits h (w_cache w) key (candidate decide req (or_response r) 0)"
  shows "\<exists>resp w' now. lead_from_origin cfg decide fetch h req key cached t w = Some (resp, w') \<and>
    stored h w' key = Some (candidate decide req (or_response r) now)"
proof -
  let ?q = "or_response r" and ?t = "targetFor cfg (req_path req)"
  have al: "allowed (ot_host ?t) w" using assms(4) by (simp add: targetFor_def)
  have "fst (fetchGuarded fetch req ?t w) = (r, False)"
    using fetchGuarded_asks [OF sound_registry [OF assms(1)] al, of fetch req] assms(5,6)
    by (auto simp: case_prod_beta Let_def)
  then obtain w1 where f: "fetchGuarded fetch req ?t w = ((r, False), w1)" by (metis prod.collapse)
  have w1: "sound h caps tier w1" "resp_bytes ?q < 2 ^ 60"
    using guarded_sound [OF assms(1), of req ?t] f assms(6) by simp_all
  have "roomy w1 (entry_of decide req ?q w1)" using entry_small w1(2) by (intro sound_roomy [OF w1(1)]) simp
  moreover have "world_ok h w1" "w_l2 w1 = None" using w1(1) assms(2) by (simp_all add: sound_def)
  ultimately obtain w2 where w2: "storeTiers cfg decide h req ?q w1 = Some w2"
    "sharded_fits h (w_cache w1) key (entry_of decide req ?q w1) \<longrightarrow> stored h w2 key = Some (entry_of decide req ?q w1)"
    using maybeStore_step [of h w1 req decide ?q cfg] storeTiers_step [of w1 h] assms(3,7,8) by auto
  let ?now = "w_clock w1 (w_reads w1)"
  have cand: "entry_of decide req ?q w1 = candidate decide req ?q ?now" by (simp add: entry_of_def candidate_def)
  have "map maxBytes (w_cache w1) = map maxBytes (w_cache w)" using w1(1) assms(1) by (simp add: sound_def)
  then have "sharded_fits h (w_cache w1) = sharded_fits h (w_cache w)"
    by (rule fits_cong [OF sound_inv [OF w1(1)] sound_inv [OF assms(1)]])
  then have "stored h w2 key = Some (candidate decide req ?q ?now)"
    using w2(2) assms(9) fits_candidate [of h "w_cache w" key decide req ?q 0 ?now] by (simp add: cand)
  with f w2(1) assms(6) show ?thesis
    by (auto simp: lead_from_origin_def Let_def served_def stored_def)
qed

lemma revalidate_sound:
  assumes "sound h caps tier w"
  shows "\<exists>w'. revalidate cfg decide fetch h job w = Some w' \<and> sound h caps tier w'"
proof -
  obtain req key where job: "job = (req, key)" by (cases job)
  obtain r rejected w1 where f: "fetchGuarded fetch req (targetFor cfg (req_path req)) w = ((r, rejected), w1)"
    by (metis surj_pair)
  have w1: "sound h caps tier w1" "or_ok r \<Longrightarrow> resp_bytes (or_response r) < 2 ^ 60 \<and> hinv (resp_headers (or_response r))"
    using guarded_sound [OF assms, of req "targetFor cfg (req_path req)"] f by simp_all
  show ?thesis
  proof (cases "or_ok r")
    case True
    then have small: "resp_bytes (or_response r) < 2 ^ 61" "hinv (resp_headers (or_response r))" using w1(2) by auto
    from sound_storeTiers [OF w1(1) this] obtain w2 where
      "storeTiers cfg decide h req (or_response r) w1 = Some w2" "sound h caps tier w2" by blast
    with True f job small show ?thesis by (simp add: revalidate_def sound_publish)
  qed (use w1(1) f job in \<open>simp add: revalidate_def sound_publish empty_response_def\<close>)
qed

end

text \<open>The proxy's own origin client, whatever the network does, while no other thread runs.\<close>

lemma origin_headers_inv [inv_intros]: "hinv h \<Longrightarrow> hinv (origin_headers h s)"
proof (induction h s rule: origin_headers.induct)
  case (1 h s)
  then show ?case
    by (subst origin_headers.simps) (auto simp: Let_def hinv_hset split: option.split)
qed

lemma parseResponse_inv: "parseResponse raw = Some resp \<Longrightarrow> hinv (resp_headers resp)"
  by (auto simp: parseResponse_def Let_def origin_headers_inv split: option.splits prod.splits)

lemma http_fetch_inv: "http_fetch net req t = Some (r, out) \<Longrightarrow> or_ok r \<Longrightarrow> hinv (resp_headers (or_response r))"
  by (auto simp: http_fetch_def no_result_def parseResponse_inv
      split: prod.splits bool.splits option.splits recv_result.splits)

lemma origin_over_good:
  "or_ok (origin_over net req t) \<Longrightarrow>
     resp_bytes (or_response (origin_over net req t)) < 2 ^ 60 \<and> hinv (resp_headers (or_response (origin_over net req t)))"
  using http_fetch_bytes [of "net req t" req t] http_fetch_inv [of "net req t" req t]
  by (fastforce simp: origin_over_def no_result_def split: option.splits)

interpretation http_origin: environment h caps tier "calm (origin_over net)" "\<lambda>s. Some" for h caps tier net
  by unfold_locales (auto simp: calm_def slots_grow_def dest: origin_over_good)

section \<open>Every state the server reaches\<close>

definition sv_caps :: "config \<Rightarrow> u64 list" where
  "sv_caps cfg = map maxBytes (sharded_new (cf_maxCacheBytes cfg) (if cf_workerThreads cfg \<noteq> 0 then cf_workerThreads cfg else 1))"

text \<open>One step of a thread that serves nobody: the subscriber or the poller takes a round, or the first
  worker ticks.\<close>

inductive bg_step :: "config \<Rightarrow> (rule list \<Rightarrow> rule list) \<Rightarrow> server \<Rightarrow> server \<Rightarrow> bool" for cfg srt where
  message: "subscriber_step cfg purgeAllShards (sv_co sv, sv_world sv) = Some (co, w) \<Longrightarrow>
    bg_step cfg srt sv (sv\<lparr>sv_co := co, sv_world := w\<rparr>)"
| poll: "poller_step cfg srt now (sv_co sv) = Some co \<Longrightarrow> bg_step cfg srt sv (sv\<lparr>sv_co := co\<rparr>)"
| tick: "bg_step cfg srt sv (on_tick i sv)"

text \<open>One step of any thread: a worker answers a request, a detached thread revalidates, or one of the
  others takes a step. What the others do while a request waits is in \<open>fetch\<close> and \<open>wait\<close>, which
  differ from step to step.\<close>

inductive sv_step :: "config \<Rightarrow> (string \<Rightarrow> u64) \<Rightarrow> (rule list \<Rightarrow> rule list) \<Rightarrow> server \<Rightarrow> server \<Rightarrow> bool"
  for cfg h srt where
  request: "environment h (sv_caps cfg) (cf_l2Enabled cfg) fetch wait \<Longrightarrow> serve cfg fetch wait h req sv = Some (resp, sv') \<Longrightarrow>
    sv_step cfg h srt sv sv'"
| job: "environment h (sv_caps cfg) (cf_l2Enabled cfg) fetch wait \<Longrightarrow> w_jobs (sv_world sv) = js @ j # ks \<Longrightarrow>
    revalidate cfg (sv_policy cfg sv) fetch h j ((sv_world sv)\<lparr>w_jobs := js @ ks\<rparr>) = Some w \<Longrightarrow>
    sv_step cfg h srt sv (sv\<lparr>sv_world := w\<rparr>)"
| background: "bg_step cfg srt sv sv' \<Longrightarrow> sv_step cfg h srt sv sv'"

inductive sv_reach :: "config \<Rightarrow> (string \<Rightarrow> u64) \<Rightarrow> (rule list \<Rightarrow> rule list) \<Rightarrow> server \<Rightarrow> bool" for cfg h srt where
  started: "(cf_l2Enabled cfg \<Longrightarrow> tame volume l2conn) \<Longrightarrow> sv_reach cfg h srt (new_server cfg sub poll l2conn now clk wall)"
| moved: "sv_reach cfg h srt sv \<Longrightarrow> sv_step cfg h srt sv sv' \<Longrightarrow> sv_reach cfg h srt sv'"

text \<open>A configuration whose numbers fit.\<close>

definition sized_config :: "config \<Rightarrow> bool" where
  "sized_config cfg \<longleftrightarrow> unat (cf_maxCacheBytes cfg) < 2 ^ 63 \<and> length (cf_replicaId cfg) < 2 ^ 32 \<and>
     ucast (cf_workerThreads cfg) \<le> cf_maxCacheBytes cfg \<and> cf_maxCacheBytes cfg \<noteq> 0"

lemma sv_policy_modest: "sized_config cfg \<Longrightarrow> modest cfg (sv_policy cfg sv)"
  by (simp add: sv_policy_def sized_config_def rule_decide_modest)

lemma new_world_sound:
  "sized_config cfg \<Longrightarrow> (cf_l2Enabled cfg \<Longrightarrow> tame volume l2conn) \<Longrightarrow>
     sound h (sv_caps cfg) (cf_l2Enabled cfg) (new_world cfg l2conn clk wall)"
  using le_less_trans [OF sharded_new_caps]
  by (auto simp: sound_def world_ok_def new_world_def sharded_new_inv new_registry_inv sized_config_def sv_caps_def
      slots_of_def new_inflight_def list_all_iff stored_def sharded_new_look tame_frame(1))

lemma purge_sound:
  assumes "sound h caps tier w"
  shows "sound h caps tier (snd (purgeAllShards p w))"
    "stored h (snd (purgeAllShards p w)) = (\<lambda>k. if purgeMatches p k then None else stored h w k)"
proof -
  note l = look_purge [OF sound_inv [OF assms], of p]
  have "hinv (ce_headers e)" if "look h (fst (sharded_purge (w_cache w) p)) k = Some e" for k e
    using that l(3) sound_stored [OF assms] by (simp split: if_splits)
  with sound_cache [of h caps tier "count_metric recordPurgeMessage w" "fst (sharded_purge (w_cache w) p)"] l(1,2) assms
  show "sound h caps tier (snd (purgeAllShards p w))" by (simp add: purgeAllShards_def Let_def case_prod_beta)
  show "stored h (snd (purgeAllShards p w)) = (\<lambda>k. if purgeMatches p k then None else stored h w k)"
    using l(3) by (simp add: purgeAllShards_def Let_def case_prod_beta stored_def fun_eq_iff)
qed

lemma sweep_sound: "sound h caps tier (sv_world sv) \<Longrightarrow> sound h caps tier (sv_world (sweep_tick now sv))"
proof -
  assume w: "sound h caps tier (sv_world sv)"
  note l = look_sweep [OF sound_inv [OF w], of now]
  have "hinv (ce_headers e)" if "look h (fst (sharded_sweepExpired (w_cache (sv_world sv)) now)) k = Some e" for k e
    using that l(3) sound_stored [OF w, of k] by (auto split: option.splits if_splits)
  with w l(1,2) show ?thesis by (simp add: sweep_tick_def Let_def sound_cache)
qed

lemma tick_sound: "sound h caps tier (sv_world sv) \<Longrightarrow> sound h caps tier (sv_world (on_tick i sv))"
  by (simp add: on_tick_def case_prod_beta sweep_sound)

lemma receive_message_effect:
  "receive_message cfg P st = Some st' \<Longrightarrow> snd st' = snd st \<or> (\<exists>p. snd st' = snd (P p (snd st)))"
  by (auto simp: receive_message_def on_message_def Let_def case_prod_beta split: option.splits if_splits)

lemma subscriber_effect:
  "subscriber_step cfg P (co, s) = Some (co', s') \<Longrightarrow> s' = s \<or> (\<exists>p. s' = snd (P p s))"
  using receive_message_effect
  by (fastforce simp: subscriber_step_def split: if_splits option.splits prod.splits bool.splits)

lemma bg_step_sound:
  assumes "bg_step cfg srt sv sv'" "sound h caps tier (sv_world sv)"
  shows "sound h caps tier (sv_world sv')"
  using assms(1)
proof cases
  case (message co w)
  with subscriber_effect [OF message(2)] purge_sound(1) [OF assms(2)] assms(2) show ?thesis by auto
qed (use assms(2) tick_sound in auto)

lemma sv_step_sound:
  assumes "sized_config cfg" "sv_step cfg h srt sv sv'" "sound h (sv_caps cfg) (cf_l2Enabled cfg) (sv_world sv)"
  shows "sound h (sv_caps cfg) (cf_l2Enabled cfg) (sv_world sv')"
  using assms(2)
proof cases
  case (request fetch wait req resp)
  from environment.handle_sound [OF this(1) assms(3) sv_policy_modest [OF assms(1), of sv], of req]
  show ?thesis using request(2) by (auto simp: serve_def split: option.splits)
next
  case (job fetch wait js j ks w)
  have "sound h (sv_caps cfg) (cf_l2Enabled cfg) ((sv_world sv)\<lparr>w_jobs := js @ ks\<rparr>)" using assms(3) by simp
  from environment.revalidate_sound [OF job(2) this, of cfg "sv_policy cfg sv" j]
  show ?thesis using job(1,4) by auto
next
  case background
  then show ?thesis by (rule bg_step_sound [OF _ assms(3)])
qed

lemma sv_reach_sound:
  assumes "sized_config cfg"
  shows "sv_reach cfg h srt sv \<Longrightarrow> sound h (sv_caps cfg) (cf_l2Enabled cfg) (sv_world sv)"
  by (induction rule: sv_reach.induct)
    (simp_all add: new_server_def new_world_sound [OF assms] sv_step_sound [OF assms])

lemma reach_serves:
  assumes "sized_config cfg" "environment h (sv_caps cfg) (cf_l2Enabled cfg) fetch wait" "sv_reach cfg h srt sv"
  shows "\<exists>resp sv'. serve cfg fetch wait h req sv = Some (resp, sv') \<and> sv_reach cfg h srt sv' \<and> sv_co sv' = sv_co sv"
proof -
  from environment.handle_sound [OF assms(2) sv_reach_sound [OF assms(1,3)] sv_policy_modest [OF assms(1), of sv], of req]
  obtain resp w where "serve cfg fetch wait h req sv = Some (resp, sv\<lparr>sv_world := w\<rparr>)" by (auto simp: serve_def)
  with sv_reach.moved [OF assms(3) sv_step.request [OF assms(2)]] show ?thesis by auto
qed

section \<open>Properties of the server\<close>

lemma total_nat: "total f c = of_nat (\<Sum>s\<leftarrow>c. unat (f s))"
proof -
  have "foldl (\<lambda>n s. n + f s) a c = a + of_nat (\<Sum>s\<leftarrow>c. unat (f s))" for a
    by (induction c arbitrary: a) (simp_all add: ac_simps)
  then show ?thesis by (simp add: total_def)
qed

lemma sizeBytes_held:
  assumes "sharded_inv h c" "(\<Sum>s\<leftarrow>c. node_bytes (order s)) \<le> unat (cap :: u64)"
  shows "unat (sharded_sizeBytes c) = (\<Sum>s\<leftarrow>c. node_bytes (order s))"
proof -
  have "(\<Sum>s\<leftarrow>c. unat (lru_sizeBytes s)) = (\<Sum>s\<leftarrow>c. node_bytes (order s))"
    using assms(1) by (intro arg_cong [of _ _ sum_list] map_cong)
      (simp_all add: sharded_inv_def lru_inv_def lru_core_def lru_sizeBytes_def)
  moreover have "(\<Sum>s\<leftarrow>c. node_bytes (order s)) < 2 ^ 64" using assms(2) unat_u64_less [of cap] by simp
  ultimately show ?thesis by (simp add: sharded_sizeBytes_def total_nat unat_of_nat_u64)
qed


text \<open>C20: whatever the origins and Redis send and whatever the threads have done, the header table of
  every answer and of every cached entry is well formed (sorted, no name twice in any mixture of case),
  and every answer says how it was served and by which replica.\<close>

theorem answers_well_formed:
  assumes "sized_config cfg" "sv_reach cfg h srt sv" "environment h (sv_caps cfg) (cf_l2Enabled cfg) fetch wait"
    and "serve cfg fetch wait h req sv = Some (resp, sv')"
  shows "hinv (resp_headers resp) \<and> distinct (map (lower \<circ> fst) (resp_headers resp)) \<and>
    hfind (resp_headers resp) ''X-Cache'' \<in> Some ` {''HIT'', ''MISS'', ''STALE'', ''PASS''} \<and>
    hfind (resp_headers resp) ''X-EdgeCache-Replica'' = Some (cf_replicaId cfg) \<and>
    (stored h (sv_world sv') key = Some e \<longrightarrow> hinv (ce_headers e))"
proof -
  from environment.handle_sound [OF assms(3) sv_reach_sound [OF assms(1,2)] sv_policy_modest [OF assms(1), of sv], of req]
    assms(4) have s: "sound h (sv_caps cfg) (cf_l2Enabled cfg) (sv_world sv')" "tagged cfg resp"
    by (auto simp: serve_def)
  have "distinct (map (lower \<circ> fst) hs)" if "hinv hs" for hs :: headers
    using that by (induction hs) (auto simp: omap_inv_def ci_less_lower)
  with s sound_stored [OF s(1), of key e] show ?thesis by (simp add: tagged_def stored_def)
qed

text \<open>C17: in every state the server reaches the cached entries hold at most the configured bytes, each
  is in the shard of its key, and the size gauge of the metrics page is exactly what they hold.\<close>

theorem cache_within_capacity:
  assumes "sized_config cfg" "sv_reach cfg h srt sv"
  shows "(\<Sum>s\<leftarrow>w_cache (sv_world sv). node_bytes (order s)) \<le> unat (cf_maxCacheBytes cfg) \<and>
    routed h (w_cache (sv_world sv)) \<and>
    unat (g_cacheSizeBytes (wireMetrics sv)) = (\<Sum>s\<leftarrow>w_cache (sv_world sv). node_bytes (order s))"
proof -
  let ?n = "if cf_workerThreads cfg \<noteq> 0 then cf_workerThreads cfg else 1"
  note sound = sv_reach_sound [OF assms]
  have inv: "sharded_inv h (w_cache (sv_world sv))" using sound by (rule sound_inv)
  have "ucast ?n \<le> cf_maxCacheBytes cfg"
    using assms(1) by (auto simp: sized_config_def word_le_nat_alt unat_gt_0 Suc_le_eq)
  moreover have "map maxBytes (w_cache (sv_world sv)) = map maxBytes (sharded_new (cf_maxCacheBytes cfg) ?n)"
    using sound by (simp add: sound_def sv_caps_def)
  ultimately have "(\<Sum>s\<leftarrow>w_cache (sv_world sv). node_bytes (order s)) \<le> unat (cf_maxCacheBytes cfg)"
    using sharded_bytes [OF inv] by simp
  with sizeBytes_held [OF inv this] inv show ?thesis by (simp add: wireMetrics_def sharded_inv_def)
qed

text \<open>C9: a purge message that arrives on the subscription, however its bytes are cut, takes effect on
  the next request: no copy under a matching key remains in any shard, all others remain, and a
  request with a matching key is a miss, whatever was cached before.\<close>

theorem purge_message_takes_effect:
  assumes "sized_config cfg" "sv_reach cfg h srt sv" "c_open (co_sub (sv_co sv))"
    and "delivers (co_sub (sv_co sv)) (wire (bulks [''message'', cf_purgeChannel cfg, p]) @ rest)"
    and "length (cf_purgeChannel cfg) < 2 ^ 63" "length p < 2 ^ 63"
    and "isCacheableMethod req" "purgeMatches p (request_key cfg req)"
  shows "\<exists>co w w1. subscriber_step cfg purgeAllShards (sv_co sv, sv_world sv) = Some (co, w) \<and>
    stored h w = (\<lambda>k. if purgeMatches p k then None else stored h (sv_world sv) k) \<and> sound h (sv_caps cfg) (cf_l2Enabled cfg) w1 \<and>
    process cfg decide fetch wait h req w =
      serve_miss cfg decide fetch wait h req (request_key cfg req) None (w_clock w (w_reads w)) w1"
proof -
  note sound = sv_reach_sound [OF assms(1,2)]
  let ?w = "snd (purgeAllShards p (sv_world sv))"
  obtain co where co: "subscriber_step cfg purgeAllShards (sv_co sv, sv_world sv) = Some (co, ?w)"
    using subscriber_message [OF assms(3,4,5,6), of cfg purgeAllShards "sv_world sv"] by (auto simp: Let_def)
  note pure = purge_sound [OF sound, of p]
  from sound_get [of h "sv_caps cfg" "cf_l2Enabled cfg" "snd (clock ?w)" "request_key cfg req"] pure assms(8) obtain w1 where
    w1: "cache_get h (request_key cfg req) (snd (clock ?w)) = Some (None, w1)" "sound h (sv_caps cfg) (cf_l2Enabled cfg) w1"
    by (auto simp: stored_def)
  have "process cfg decide fetch wait h req ?w =
      serve_miss cfg decide fetch wait h req (request_key cfg req) None (w_clock ?w (w_reads ?w)) w1"
    using assms(7) w1(1) by (simp add: process_def Let_def case_prod_beta)
  with co pure(2) w1(2) show ?thesis by blast
qed

text \<open>C7: a client of the proxy that pipelines its requests gets the proxy's answers in order, wherever
  the network cuts requests and answers and whatever the other threads did before: each of the first
  \<open>k\<close> requests is asked of the handler once, in order, the written answers are what was sent and
  is still to be sent, what is buffered is less than a request, and the server is left in a state it reaches.\<close>

theorem proxy_serves_pipeline:
  assumes "sized_config cfg" "sv_reach cfg h srt sv" "environment h (sv_caps cfg) (cf_l2Enabled cfg) fetch wait"
    and "\<forall>r \<in> set ws. wire_ok r \<and> keepAlive (request_of r)"
    and "prefix (heard es) (concat (map wire_of ws))" "length (concat (map wire_of ws)) < 2 ^ 64"
  shows "\<exists>alive c sv' k rs. conn_run (serve cfg fetch wait h) es new_econn sv = Some ((alive, c), sv') \<and>
    answer_all (serve cfg fetch wait h) (map request_of (take k ws)) sv = Some (rs, sv') \<and>
    ec_sent c @ pending c = written rs \<and> sv_reach cfg h srt sv' \<and>
    (alive \<longrightarrow> concat (map wire_of (take k ws)) @ ec_buf c = heard es) \<and>
    (ec_buf c = [] \<or> k < length ws \<and> strict_prefix (ec_buf c) (wire_of (ws ! k)))"
proof -
  have "answers_in (sv_reach cfg h srt) (serve cfg fetch wait h)"
    using reach_serves [OF assms(1,3)] unfolding answers_in_def by blast
  from client_stream_in_order [OF assms(4) this assms(2,5,6)] show ?thesis by blast
qed

text \<open>An origin whose answer is on its way while the subscriber handles a purge.\<close>

definition purged_meanwhile :: "string \<Rightarrow> (http_request \<Rightarrow> origin_target \<Rightarrow> origin_result) \<Rightarrow> fetcher" where
  "purged_meanwhile p origin req t w = (origin req t, snd (purgeAllShards p w))"

lemma purge_slots: "slots_of (snd (purgeAllShards p w)) = slots_of w"
  by (simp add: purgeAllShards_def slots_of_def Let_def case_prod_beta count_metric_def)

interpretation purged_origin: environment h caps tier "purged_meanwhile p (origin_over net)" "\<lambda>s w. Some (snd (purgeAllShards p w))"
  for h caps tier p net
  by unfold_locales
    (auto simp: purged_meanwhile_def slots_grow_def purge_slots dest: origin_over_good intro: purge_sound(1))

text \<open>C31: a purge is lost on a request under way: if the purge arrives while the leader waits for the
  origin, the answer, which may be the one that was to be purged, is stored behind it under a key
  that matches the pattern.\<close>

theorem purge_during_fetch_is_lost:
  assumes "sized_config cfg" "\<not> cf_l2Enabled cfg" "sv_reach cfg h srt sv" "w = sv_world sv" "key = request_key cfg req"
    and "isCacheableMethod req" "stored h w key = None" "if_table (w_inflight w) key = None"
    and "fst (allowRequest (w_clock w (Suc (w_reads w))) (breaker_of (w_breakers w) (cf_originHost cfg)))"
    and "r = origin_over net req (targetFor cfg (req_path req))" "or_ok r"
    and "d_cacheable (sv_policy cfg sv (req_path req) (or_response r))"
    and "sharded_fits h (w_cache w) key (candidate (sv_policy cfg sv) req (or_response r) 0)" "purgeMatches p key"
  shows "\<exists>resp w' now. process cfg (sv_policy cfg sv) (purged_meanwhile p (origin_over net)) wait h req w = Some (resp, w') \<and>
    stored h w' key = Some (candidate (sv_policy cfg sv) req (or_response r) now)"
proof -
  let ?fetch = "purged_meanwhile p (origin_over net)"
  have sound: "sound h (sv_caps cfg) False w" using sv_reach_sound [OF assms(1,3)] assms(2,4) by simp
  from sound_miss [OF this assms(6,5,7,8), of "sv_policy cfg sv" ?fetch wait] obtain w1 where
    w1: "sound h (sv_caps cfg) False w1" "w_breakers w1 = w_breakers w" "w_clock w1 = w_clock w" "w_reads w1 = Suc (w_reads w)"
    and p: "process cfg (sv_policy cfg sv) ?fetch wait h req w =
      lead_from_origin cfg (sv_policy cfg sv) ?fetch h req key None (w_clock w (w_reads w)) w1" by blast
  have no_tier: "\<not> False" by simp
  have al: "allowed (cf_originHost cfg) w1" using assms(9) allowed_cong [OF w1(3,2)] w1(4) by simp
  have "map maxBytes (w_cache w1) = map maxBytes (w_cache w)" using w1(1) sound by (simp add: sound_def)
  then have "sharded_fits h (w_cache w1) = sharded_fits h (w_cache w)"
    by (rule fits_cong [OF sound_inv [OF w1(1)] sound_inv [OF sound]])
  then have "sharded_fits h (w_cache w1) key (candidate (sv_policy cfg sv) req (or_response r) 0)" using assms(13) by simp
  from purged_origin.lead_stores [OF w1(1) no_tier assms(6) al _ assms(11,12,5) this] assms(10) show ?thesis
    unfolding p by (simp add: purged_meanwhile_def)
qed

section \<open>Concrete runs\<close>

definition server0 :: server where
  "server0 = new_server default_config (chopped []) (chopped []) (chopped []) 0 (\<lambda>n. 0) (\<lambda>n. 0)"

lemma plain0: "sized_config default_config"
  by code_simp

lemma reach0: "sv_reach default_config h srt server0"
  unfolding server0_def by (rule sv_reach.started) (simp add: default_config_def)

text \<open>An origin that cannot be reached, and one that answers with a cacheable page.\<close>

definition no_net :: "http_request \<Rightarrow> origin_target \<Rightarrow> origin_net" where
  "no_net req t = \<lparr>on_dial = Inl ''no address'', on_sends = [], on_recv = []\<rparr>"

definition page_net :: "http_request \<Rightarrow> origin_target \<Rightarrow> origin_net" where
  "page_net req t = \<lparr>on_dial = Inr [DialOk], on_sends = [],
     on_recv = [Chunk (''HTTP/1.1 200 OK'' @ crlf @ crlf @ ''hello''), Chunk []]\<rparr>"

text \<open>A server with a shared tier whose Redis hangs up in the middle of its first answer.\<close>

definition tier_config :: config where
  "tier_config = default_config\<lparr>cf_l2Enabled := True\<rparr>"

definition tier_server :: server where
  "tier_server = new_server tier_config (chopped []) (chopped []) (broken_off (''$512'' @ crlf @ ''EC2'')) 0 (\<lambda>n. 0) (\<lambda>n. 0)"

lemma tier_sized: "sized_config tier_config"
  by code_simp

lemma tier_reach: "sv_reach tier_config h srt tier_server"
  unfolding tier_server_def
  by (rule sv_reach.started) (simp add: tame_def mortal_def live_def broken_off_def unread_def volume_def crlf_def)


theorem answers_well_formed_witness:
  "\<exists>resp sv'. serve default_config (calm (origin_over page_net)) (\<lambda>s. Some) quiet_hash req0 server0 = Some (resp, sv') \<and>
     hfind (resp_headers resp) ''X-EdgeCache-Replica'' = Some ''proxy-local''"
proof -
  note env = http_origin.environment_axioms [of quiet_hash "sv_caps default_config" "cf_l2Enabled default_config" page_net]
  obtain resp sv' where s: "serve default_config (calm (origin_over page_net)) (\<lambda>s. Some) quiet_hash req0 server0 = Some (resp, sv')"
    using reach_serves [where srt = by_length, OF plain0 env reach0, of req0] by blast
  from answers_well_formed [where srt = by_length, OF plain0 reach0 env s] s show ?thesis
    by (auto simp: default_config_def)
qed

theorem cache_within_capacity_witness:
  "(\<Sum>s\<leftarrow>w_cache (sv_world server0). node_bytes (order s)) \<le> 268435456"
  using cache_within_capacity [where srt = by_length and h = quiet_hash, OF plain0 reach0] by (simp add: default_config_def)

text \<open>A server whose subscriber has subscribed; the next message is a purge.\<close>

definition purge_a :: string where
  "purge_a = wire (bulks [''message'', cf_purgeChannel default_config, ''/a''])"

definition subscribing :: server where
  "subscribing = new_server default_config
     ((chopped [])\<lparr>c_dials := [Some [Bytes (wire (bulks [''subscribe''])), Bytes (wire (bulks [''subscribe''])), Quiet, Bytes purge_a]]\<rparr>)
     (chopped []) (chopped []) 0 (\<lambda>n. 0) (\<lambda>n. 0)"

definition listening :: "coordinator \<Rightarrow> bool" where
  "listening co \<longleftrightarrow> c_open (co_sub co) \<and> c_rpos (co_sub co) \<le> length (c_rbuf (co_sub co)) \<and>
     unread (co_sub co) = purge_a \<and> c_in (co_sub co) = [Bytes purge_a]"

lemma listening_delivers: "listening co \<Longrightarrow> delivers (co_sub co) (purge_a @ [])"
proof -
  have "purge_a \<noteq> []" by code_simp
  then show "listening co \<Longrightarrow> delivers (co_sub co) (purge_a @ [])" by (intro delivers_now) (simp_all add: listening_def)
qed

lemma subscribed:
  obtains sv where "sv_reach default_config quiet_hash by_length sv" "listening (sv_co sv)"
proof -
  have "case subscriber_step default_config purgeAllShards (sv_co subscribing, sv_world subscribing) of
      None \<Rightarrow> False | Some (co, w) \<Rightarrow> listening co"
    by code_simp
  then obtain co w where step: "subscriber_step default_config purgeAllShards (sv_co subscribing, sv_world subscribing) = Some (co, w)"
    and "listening co" by (simp split: option.splits prod.splits)
  moreover have "sv_reach default_config quiet_hash by_length subscribing"
    unfolding subscribing_def by (rule sv_reach.started) (simp add: default_config_def)
  note sv_reach.moved [OF this sv_step.background [OF bg_step.message [OF step]]]
  ultimately show thesis using that [of "subscribing\<lparr>sv_co := co, sv_world := w\<rparr>"] by simp
qed

theorem purge_message_witness:
  "\<exists>sv co w. sv_reach default_config quiet_hash by_length sv \<and>
    subscriber_step default_config purgeAllShards (sv_co sv, sv_world sv) = Some (co, w) \<and> stored quiet_hash w key0 = None"
proof -
  obtain sv where sv: "sv_reach default_config quiet_hash by_length sv" "listening (sv_co sv)" by (rule subscribed)
  have "c_open (co_sub (sv_co sv))" using sv(2) by (simp add: listening_def)
  moreover have "delivers (co_sub (sv_co sv)) (wire (bulks [''message'', cf_purgeChannel default_config, ''/a'']) @ [])"
    using listening_delivers [OF sv(2)] by (simp only: purge_a_def)
  moreover have "length (cf_purgeChannel default_config) < 2 ^ 63" "length ''/a'' < 2 ^ 63" by code_simp+
  moreover have "purgeMatches ''/a'' (request_key default_config req0)" by code_simp
  ultimately obtain co w where "subscriber_step default_config purgeAllShards (sv_co sv, sv_world sv) = Some (co, w)"
    "stored quiet_hash w = (\<lambda>k. if purgeMatches ''/a'' k then None else stored quiet_hash (sv_world sv) k)"
    using purge_message_takes_effect [OF plain0 sv(1) _ _ _ _ get0] by blast
  moreover have "purgeMatches ''/a'' key0" by code_simp
  ultimately show ?thesis using sv(1) by auto
qed

theorem purge_during_fetch_is_lost_witness:
  "\<exists>resp w' now. process default_config (sv_policy default_config server0) (purged_meanwhile ''/a'' (origin_over page_net))
      (\<lambda>s. Some) quiet_hash req0 (sv_world server0) = Some (resp, w') \<and>
    stored quiet_hash w' key0 = Some (candidate (sv_policy default_config server0) req0
      (or_response (origin_over page_net req0 (targetFor default_config ''/a''))) now)"
proof -
  let ?w = "sv_world server0" and ?r = "origin_over page_net req0 (targetFor default_config (req_path req0))"
  let ?d = "sv_policy default_config server0"
  have "stored quiet_hash ?w key0 = None" "if_table (w_inflight ?w) key0 = None"
    "fst (allowRequest (w_clock ?w (Suc (w_reads ?w))) (breaker_of (w_breakers ?w) (cf_originHost default_config)))"
    "or_ok ?r" "purgeMatches ''/a'' key0" "d_cacheable (?d (req_path req0) (or_response ?r))"
    "sharded_fits quiet_hash (w_cache ?w) key0 (candidate ?d req0 (or_response ?r) 0)" "\<not> cf_l2Enabled default_config"
    by code_simp+
  from purge_during_fetch_is_lost [where srt = by_length and wait = "\<lambda>s. Some", OF plain0 this(8) reach0 refl key0_def get0 this(1-3) refl this(4,6,7,5)] show ?thesis
    by (simp add: req0_def)
qed

theorem proxy_serves_pipeline_witness:
  "\<exists>alive c sv' k rs. conn_run (serve default_config (calm (origin_over no_net)) (\<lambda>s. Some) quiet_hash) cut_events new_econn server0 =
      Some ((alive, c), sv') \<and>
    answer_all (serve default_config (calm (origin_over no_net)) (\<lambda>s. Some) quiet_hash) (map request_of (take k two_gets)) server0 =
      Some (rs, sv') \<and>
    ec_sent c @ pending c = written rs"
proof -
  have "\<forall>r \<in> set two_gets. wire_ok r \<and> keepAlive (request_of r)"
    "prefix (heard cut_events) (concat (map wire_of two_gets))" "length (concat (map wire_of two_gets)) < 2 ^ 64"
    by code_simp+
  from proxy_serves_pipeline [where srt = by_length,
      OF plain0 reach0 http_origin.environment_axioms [of quiet_hash "sv_caps default_config" "cf_l2Enabled default_config" no_net] this]
  show ?thesis by blast
qed

end
