(* ===== verification/System.thy ===== *)
theory System
  imports ServerProperties
begin

text \<open>
  The whole process: the server's shared state and the connections of every worker. \<open>sys_step\<close> is one step of one thread; the steps of the workers and of the other threads
  interleave in any order, also between two requests of one buffer. The locale
  \<open>handler_contract\<close> is what the event loop relies on; inside it the loop is shown to send nothing
  but whole answers.
\<close>

section \<open>What the event loop relies on\<close>

text \<open>A byte stream of whole answers: each is the answer to a request that could not be parsed or a
  written response that the contract allows.\<close>

definition answer :: "(http_response \<Rightarrow> bool) \<Rightarrow> string \<Rightarrow> bool" where
  "answer A a \<longleftrightarrow> a = serialize bad_request False \<or> (\<exists>resp ka. A resp \<and> a = serialize resp ka)"

definition whole :: "(http_response \<Rightarrow> bool) \<Rightarrow> string \<Rightarrow> bool" where
  "whole A s \<longleftrightarrow> (\<exists>as. s = concat as \<and> (\<forall>a \<in> set as. answer A a))"

lemma whole_Nil [intro, simp]: "whole A []"
  by (auto simp: whole_def intro: exI [of _ "[]"])

lemma whole_append [intro]: "whole A s \<Longrightarrow> whole A t \<Longrightarrow> whole A (s @ t)"
  unfolding whole_def by (metis Un_iff concat_append set_append)

lemma whole_answer [intro]: "answer A a \<Longrightarrow> whole A a"
  unfolding whole_def by (rule exI [of _ "[a]"]) simp

lemma whole_bad [intro, simp]: "whole A (serialize bad_request False)"
  by (rule whole_answer) (simp add: answer_def)

definition conn_whole :: "(http_response \<Rightarrow> bool) \<Rightarrow> econn \<Rightarrow> bool" where
  "conn_whole A c \<longleftrightarrow> econn_inv c \<and> whole A (stream c)"

definition conns_whole :: "(http_response \<Rightarrow> bool) \<Rightarrow> conns \<Rightarrow> bool" where
  "conns_whole A m \<longleftrightarrow> (\<forall>fd c. m fd = Some c \<longrightarrow> conn_whole A c)"

lemma conns_whole_upd: "conns_whole A m \<Longrightarrow> (\<And>c. x = Some c \<Longrightarrow> conn_whole A c) \<Longrightarrow> conns_whole A (m(fd := x))"
  by (simp add: conns_whole_def)

lemma accept_whole: "conns_whole A m \<Longrightarrow> conns_whole A (accept_loop es m)"
proof (induction es m rule: accept_loop.induct)
  case (2 fd added es m)
  have "conn_whole A new_econn" by (simp add: conn_whole_def new_econn_def econn_inv_def stream_def pending_def)
  then have "conns_whole A (m(fd \<mapsto> (case m fd of None \<Rightarrow> new_econn | Some c \<Rightarrow> c)))"
    using 2(2) by (intro conns_whole_upd) (auto simp: conns_whole_def split: option.splits)
  with 2 show ?case by simp
qed auto

lemma flush_whole: "flush es c = (alive, c') \<Longrightarrow> conn_whole A c \<Longrightarrow> conn_whole A c'"
  using flush_frame [of es c alive c'] by (simp add: conn_whole_def)

locale handler_contract =
  fixes f :: "'s request_fn" and I :: "'s \<Rightarrow> bool" and A :: "http_response \<Rightarrow> bool"
  assumes answers: "I s \<Longrightarrow> f r s = Some (resp, s') \<Longrightarrow> I s' \<and> A resp"
begin

lemma request_loop_whole:
  assumes "request_loop f buf out cl s = Some (q, out', cl', s')" "I s"
  shows "I s' \<and> (\<exists>x. out' = out @ x \<and> whole A x)"
proof -
  have "f = f \<longrightarrow> I s \<longrightarrow> I (snd (snd (snd (q, out', cl', s')))) \<and> (\<exists>x. fst (snd (q, out', cl', s')) = out @ x \<and> whole A x)"
  proof (rule request_loop.raw_induct
      [where P = "\<lambda>g b o' cl s y. g = f \<longrightarrow> I s \<longrightarrow> I (snd (snd (snd y))) \<and> (\<exists>x. fst (snd y) = o' @ x \<and> whole A x)",
       OF _ assms(1)])
    fix F g b o' cl s y
    assume ih: "\<And>g b o' cl s y. F g b o' cl s = Some y \<Longrightarrow>
        g = f \<longrightarrow> I s \<longrightarrow> I (snd (snd (snd y))) \<and> (\<exists>x. fst (snd y) = o' @ x \<and> whole A x)"
      and y: "(case parse b of (NeedMore, b) \<Rightarrow> Some (b, o', cl, s)
        | (Complete req, b) \<Rightarrow> (case g req s of None \<Rightarrow> None
           | Some (resp, s) \<Rightarrow> if \<not> keepAlive req then Some (b, o' @ serialize resp (keepAlive req), True, s)
               else F g b (o' @ serialize resp (keepAlive req)) cl s)
        | (ParseError, b) \<Rightarrow> Some (b, o' @ serialize bad_request False, True, s)) = Some y"
    show "g = f \<longrightarrow> I s \<longrightarrow> I (snd (snd (snd y))) \<and> (\<exists>x. fst (snd y) = o' @ x \<and> whole A x)"
    proof (intro impI)
      assume g: "g = f" "I s"
      obtain res b' where p: "parse b = (res, b')" by (metis surj_pair)
      show "I (snd (snd (snd y))) \<and> (\<exists>x. fst (snd y) = o' @ x \<and> whole A x)"
      proof (cases res)
        case (Complete req)
        with p g y obtain resp s1 where r: "f req s = Some (resp, s1)" by (auto split: option.splits)
        have a: "I s1" "A resp" using answers [OF g(2) r] by auto
        have w: "whole A (serialize resp ka)" for ka using a(2) by (intro whole_answer) (auto simp: answer_def)
        show ?thesis
        proof (cases "keepAlive req")
          case True
          with p Complete g r y have "F f b' (o' @ serialize resp True) cl s1 = Some y" by simp
          from ih [OF this] a(1) w [of True] show ?thesis by (metis append.assoc whole_append)
        qed (use p Complete g r y a w in auto)
      qed (use p g y in auto)
    qed
  qed
  with assms(2) show ?thesis by simp
qed

lemma onReadable_whole:
  assumes "onReadable f reads writes c s = Some ((alive, c'), s')" "I s" "conn_whole A c"
  shows "I s' \<and> conn_whole A c'"
proof -
  obtain q out cl s1 where rl: "request_loop f (ec_buf c @ incoming reads) (ec_out c) (ec_close c) s = Some (q, out, cl, s1)"
    using assms(1) by (auto simp: onReadable_def split: option.splits prod.splits)
  let ?c = "c\<lparr>ec_buf := q, ec_out := out, ec_close := cl\<rparr>"
  obtain al c1 where fl: "flush writes ?c = (al, c1)" by (metis surj_pair)
  from request_loop_whole [OF rl assms(2)] obtain x where x: "out = ec_out c @ x" "whole A x" "I s1" by blast
  have "stream ?c = stream c @ x" using x(1) assms(3) stream_extend by (simp add: conn_whole_def)
  then have "conn_whole A ?c" using assms(3) x(1,2) by (auto simp: conn_whole_def econn_inv_def)
  from flush_whole [OF fl this] x(3) rl fl assms(1) show ?thesis by (auto simp: onReadable_def)
qed

lemma ready_step_whole:
  assumes "ready_step f e (m, s) = Some (m', s')" "I s" "conns_whole A m"
  shows "I s' \<and> conns_whole A m'"
proof (cases e)
  case (Listening es)
  with assms accept_whole show ?thesis by auto
next
  case (Ready fd hup outp inp)
  have outs: "conns_whole A (fst (ready_out fd outp (m, s))) \<and> snd (ready_out fd outp (m, s)) = s"
    using assms(3) flush_whole
    by (auto simp: ready_out_def keep_conn_def conns_whole_def split: option.splits) (metis prod.collapse)
  have ins: "I s2 \<and> conns_whole A m2"
    if "ready_in f fd inp (m1, s) = Some (m2, s2)" "conns_whole A m1" for m1 m2 s2
  proof (cases "inp = None \<or> m1 fd = None")
    case True
    with that assms(2) show ?thesis by (auto simp: ready_in_def split: option.splits)
  next
    case False
    then obtain reads writes c where i: "inp = Some (reads, writes)" "m1 fd = Some c" by auto
    with that(1) obtain alive c' where r: "onReadable f reads writes c s = Some ((alive, c'), s2)"
      "m2 = keep_conn fd (alive, c') m1" by (auto simp: ready_in_def split: option.splits)
    from onReadable_whole [OF r(1) assms(2)] that(2) i(2) r(2) show ?thesis
      by (auto simp: conns_whole_def keep_conn_def)
  qed
  show ?thesis
  proof (cases "m fd = None \<or> hup")
    case True
    with assms Ready show ?thesis by (auto simp: conns_whole_def split: option.splits if_splits)
  next
    case False
    then have "ready_in f fd inp (ready_out fd outp (m, s)) = Some (m', s')" using assms(1) Ready by auto
    then show ?thesis using ins [of "fst (ready_out fd outp (m, s))" m' s'] outs by (metis prod.collapse)
  qed
qed

end

section \<open>The process\<close>

text \<open>A worker whose listener could not be made, or whose loop has ended, has no connections and takes no
  steps. Stopping the process ends the loops; what a worker does in the round in which it is told to
  stop is a step like any other.\<close>

record system =
  sy_server :: server
  sy_workers :: "conns option list"

definition worker_start :: "config \<Rightarrow> listen_env \<times> bool \<Rightarrow> conns option" where
  "worker_start cfg env =
     (if fst (createReusePortListener (fst env) (cf_listenHost cfg) (cf_listenPort cfg)) \<and> snd env
      then Some (\<lambda>fd. None) else None)"

text \<open>What each worker meets when it starts is \<open>envs\<close>; there are as many workers as configured.\<close>

definition proxy_start :: "config \<Rightarrow> (nat \<Rightarrow> listen_env \<times> bool) \<Rightarrow> server \<Rightarrow> system" where
  "proxy_start cfg envs sv =
     \<lparr>sy_server = sv, sy_workers = map (\<lambda>i. worker_start cfg (envs i)) [0..<unat (cf_workerThreads cfg)]\<rparr>"

definition proxy_main :: "32 word \<Rightarrow> env \<Rightarrow> (nat \<Rightarrow> listen_env \<times> bool) \<Rightarrow> conn \<Rightarrow> conn \<Rightarrow> conn \<Rightarrow> time \<Rightarrow> (nat \<Rightarrow> time) \<Rightarrow>
    (nat \<Rightarrow> u64) \<Rightarrow> config \<times> system" where
  "proxy_main hw env envs sub poll l2conn now clk wall =
     (let cfg = fromEnv hw env in (cfg, proxy_start cfg envs (new_server cfg sub poll l2conn now clk wall)))"

text \<open>The callback of a worker: the handler, before which the other threads may have taken any steps.\<close>

definition worker_fn :: "config \<Rightarrow> (string \<Rightarrow> u64) \<Rightarrow> (rule list \<Rightarrow> rule list) \<Rightarrow> server request_fn \<Rightarrow> bool" where
  "worker_fn cfg h srt f \<longleftrightarrow> (\<forall>req sv resp sv'. f req sv = Some (resp, sv') \<longrightarrow>
     (\<exists>sv1 fetch wait. (sv_step cfg h srt)\<^sup>*\<^sup>* sv sv1 \<and>
        environment h (sv_caps cfg) (cf_l2Enabled cfg) fetch wait \<and> serve cfg fetch wait h req sv1 = Some (resp, sv')))"

text \<open>A step of a worker is what its loop does about one entry of what epoll reports.\<close>

inductive sys_step :: "config \<Rightarrow> (string \<Rightarrow> u64) \<Rightarrow> (rule list \<Rightarrow> rule list) \<Rightarrow> system \<Rightarrow> system \<Rightarrow> bool"
  for cfg h srt where
  worker: "i < length (sy_workers sy) \<Longrightarrow> sy_workers sy ! i = Some m \<Longrightarrow> worker_fn cfg h srt f \<Longrightarrow>
    ready_step f e (m, sy_server sy) = Some (m', sv) \<Longrightarrow>
    sys_step cfg h srt sy (sy\<lparr>sy_server := sv, sy_workers := (sy_workers sy)[i := Some m']\<rparr>)"
| threads: "sv_step cfg h srt (sy_server sy) sv \<Longrightarrow> sys_step cfg h srt sy (sy\<lparr>sy_server := sv\<rparr>)"
| ended: "i < length (sy_workers sy) \<Longrightarrow>
    sys_step cfg h srt sy (sy\<lparr>sy_workers := (sy_workers sy)[i := None]\<rparr>)"

inductive sys_reach :: "config \<Rightarrow> (string \<Rightarrow> u64) \<Rightarrow> (rule list \<Rightarrow> rule list) \<Rightarrow> system \<Rightarrow> bool" for cfg h srt where
  started: "(cf_l2Enabled cfg \<Longrightarrow> tame volume l2conn) \<Longrightarrow>
    sys_reach cfg h srt (proxy_start cfg envs (new_server cfg sub poll l2conn now clk wall))"
| moved: "sys_reach cfg h srt sy \<Longrightarrow> sys_step cfg h srt sy sy' \<Longrightarrow> sys_reach cfg h srt sy'"

text \<open>The loop of one worker, run on its own, is a sequence of such steps.\<close>

lemma worker_fn_serve: "environment h (sv_caps cfg) (cf_l2Enabled cfg) fetch wait \<Longrightarrow> worker_fn cfg h srt (serve cfg fetch wait h)"
  unfolding worker_fn_def by blast

lemma ready_steps_sys:
  assumes "worker_fn cfg h srt f" "i < length ws"
  shows "ready_steps f es (m, sv) = Some (m', sv') \<Longrightarrow>
    (sys_step cfg h srt)\<^sup>*\<^sup>* \<lparr>sy_server = sv, sy_workers = ws[i := Some m]\<rparr> \<lparr>sy_server = sv', sy_workers = ws[i := Some m']\<rparr>"
proof (induction es arbitrary: m sv)
  case (Cons e es)
  then obtain m1 sv1 where st: "ready_step f e (m, sv) = Some (m1, sv1)" "ready_steps f es (m1, sv1) = Some (m', sv')"
    by (auto split: option.splits)
  have "sys_step cfg h srt \<lparr>sy_server = sv, sy_workers = ws[i := Some m]\<rparr> \<lparr>sy_server = sv1, sy_workers = ws[i := Some m1]\<rparr>"
    using sys_step.worker [where i = i and sy = "\<lparr>sy_server = sv, sy_workers = ws[i := Some m]\<rparr>", OF _ _ assms(1)] st(1) assms(2)
    by fastforce
  from converse_rtranclp_into_rtranclp [OF this Cons.IH [OF st(2)]] show ?case .
qed simp

lemma el_run_sys:
  assumes "worker_fn cfg h srt f" "i < length ws"
  shows "el_run f (on_tick j) ts (m, sv) = Some (m', sv') \<Longrightarrow>
    \<exists>m1. (sys_step cfg h srt)\<^sup>*\<^sup>* \<lparr>sy_server = sv, sy_workers = ws[i := Some m]\<rparr> \<lparr>sy_server = sv', sy_workers = ws[i := m1]\<rparr>"
proof (induction ts arbitrary: m sv)
  case (Cons t ts)
  show ?case
  proof (cases t)
    case (Turn es)
    with Cons.prems obtain m1 sv1 where r: "ready_steps f es (m, sv) = Some (m1, sv1)"
      "el_run f (on_tick j) ts (m1, on_tick j sv1) = Some (m', sv')" by (auto split: option.splits)
    let ?ws = "ws[i := Some m1]"
    have "sys_step cfg h srt \<lparr>sy_server = sv1, sy_workers = ?ws\<rparr> \<lparr>sy_server = on_tick j sv1, sy_workers = ?ws\<rparr>"
      using sys_step.threads [where sy = "\<lparr>sy_server = sv1, sy_workers = ?ws\<rparr>", OF sv_step.background [OF bg_step.tick]] by simp
    with ready_steps_sys [OF assms r(1)]
    have "(sys_step cfg h srt)\<^sup>*\<^sup>* \<lparr>sy_server = sv, sy_workers = ws[i := Some m]\<rparr> \<lparr>sy_server = on_tick j sv1, sy_workers = ?ws\<rparr>"
      by (rule rtranclp.rtrancl_into_rtrancl)
    with Cons.IH [OF r(2)] show ?thesis by (meson rtranclp_trans)
  qed (use Cons in auto)
qed auto

section \<open>The handler keeps the contract\<close>

lemma steps_reach: "(sv_step cfg h srt)\<^sup>*\<^sup>* sv sv' \<Longrightarrow> sv_reach cfg h srt sv \<Longrightarrow> sv_reach cfg h srt sv'"
  by (induction rule: rtranclp_induct) (auto intro: sv_reach.moved)

lemma serve_tagged:
  assumes "sized_config cfg" "environment h (sv_caps cfg) (cf_l2Enabled cfg) fetch wait" "sv_reach cfg h srt sv"
    and "serve cfg fetch wait h req sv = Some (resp, sv')"
  shows "sv_reach cfg h srt sv' \<and> tagged cfg resp"
  using environment.handle_sound [OF assms(2) sv_reach_sound [OF assms(1,3)] sv_policy_modest [OF assms(1), of sv], of req]
    sv_reach.moved [OF assms(3) sv_step.request [OF assms(2,4)]] assms(4)
  by (auto simp: serve_def)

interpretation http_worker: handler_contract "serve cfg (calm (origin_over net)) (\<lambda>s. Some) h"
    "\<lambda>sv. sized_config cfg \<and> sv_reach cfg h srt sv" "tagged cfg" for cfg net h srt
  by unfold_locales (use serve_tagged [OF _ http_origin.environment_axioms] in blast)

lemma worker_fn_contract:
  assumes "sized_config cfg" "worker_fn cfg h srt f"
  shows "handler_contract f (sv_reach cfg h srt) (tagged cfg)"
proof
  fix s r resp s'
  assume s: "sv_reach cfg h srt s" "f r s = Some (resp, s')"
  from assms(2) [unfolded worker_fn_def, rule_format, OF s(2)] obtain sv1 fetch wait where
    "(sv_step cfg h srt)\<^sup>*\<^sup>* s sv1" "environment h (sv_caps cfg) (cf_l2Enabled cfg) fetch wait"
    "serve cfg fetch wait h r sv1 = Some (resp, s')" by blast
  with serve_tagged [OF assms(1)] steps_reach s(1) show "sv_reach cfg h srt s' \<and> tagged cfg resp" by blast
qed

definition sys_inv :: "config \<Rightarrow> (string \<Rightarrow> u64) \<Rightarrow> (rule list \<Rightarrow> rule list) \<Rightarrow> system \<Rightarrow> bool" where
  "sys_inv cfg h srt sy \<longleftrightarrow> sv_reach cfg h srt (sy_server sy) \<and> (\<forall>m. Some m \<in> set (sy_workers sy) \<longrightarrow> conns_whole (tagged cfg) m)"

lemma sys_step_inv:
  assumes "sized_config cfg" "sys_step cfg h srt sy sy'" "sys_inv cfg h srt sy"
  shows "sys_inv cfg h srt sy'"
  using assms(2)
proof cases
  case (worker i m f e m' sv)
  have "conns_whole (tagged cfg) m" using assms(3) worker(2,3) nth_mem unfolding sys_inv_def by metis
  with handler_contract.ready_step_whole [OF worker_fn_contract [OF assms(1) worker(4)] worker(5)] assms(3)
  have "sv_reach cfg h srt sv" "conns_whole (tagged cfg) m'" by (simp_all add: sys_inv_def)
  with worker(1) assms(3) show ?thesis
    by (auto simp: sys_inv_def dest!: set_update_subset_insert [THEN subsetD])
next
  case (threads sv)
  with assms(3) show ?thesis by (auto simp: sys_inv_def intro: sv_reach.moved)
next
  case (ended i)
  with assms(3) show ?thesis by (auto simp: sys_inv_def dest!: set_update_subset_insert [THEN subsetD])
qed

lemma sys_reach_inv:
  assumes "sized_config cfg"
  shows "sys_reach cfg h srt sy \<Longrightarrow> sys_inv cfg h srt sy"
proof (induction rule: sys_reach.induct)
  case (started l2conn envs sub poll now clk wall)
  then show ?case
    by (auto simp: sys_inv_def proxy_start_def worker_start_def conns_whole_def sv_reach.started split: if_splits)
next
  case (moved sy sy')
  then show ?case using sys_step_inv [OF assms] by blast
qed

section \<open>Properties\<close>

text \<open>C2: what a client has been sent is always the beginning of a sequence of whole answers, each a
  tagged response of the handler or the answer to an unreadable request, whatever the other clients,
  the other workers, the origins and Redis do in the meantime: answers are never mixed, torn or lost
  between connections.\<close>

theorem clients_get_whole_answers:
  assumes "sized_config cfg" "sys_reach cfg h srt sy" "Some m \<in> set (sy_workers sy)" "m fd = Some c"
  shows "sv_reach cfg h srt (sy_server sy) \<and> (\<exists>as. ec_sent c @ pending c = concat as \<and>
    (\<forall>a \<in> set as. a = serialize bad_request False \<or> (\<exists>resp ka. tagged cfg resp \<and> a = serialize resp ka)))"
proof -
  have "sys_inv cfg h srt sy" using sys_reach_inv [OF assms(1,2)] .
  with assms(3,4) have "sv_reach cfg h srt (sy_server sy)" "whole (tagged cfg) (stream c)"
    by (auto simp: sys_inv_def conns_whole_def conn_whole_def)
  then show ?thesis by (simp add: whole_def answer_def stream_def)
qed

text \<open>What a client sends announces no body of a negative length, at whatever byte one starts to read.\<close>

definition benign :: "conns \<Rightarrow> ready_event \<Rightarrow> bool" where
  "benign m e \<longleftrightarrow> (\<forall>fd hup outp reads writes c. e = Ready fd hup outp (Some (reads, writes)) \<longrightarrow> m fd = Some c \<longrightarrow>
     length (ec_buf c @ incoming reads) < 2 ^ 62 \<and> (\<forall>i. length_ok (drop i (ec_buf c @ incoming reads))))"

lemma onReadable_returns:
  assumes "answers_in I f" "I s" "length (ec_buf c @ incoming reads) < 2 ^ 62" "\<forall>i. length_ok (drop i (ec_buf c @ incoming reads))"
  shows "\<exists>r s'. onReadable f reads writes c s = Some (r, s')"
proof -
  from request_loop_returns [OF assms, of "ec_out c" "ec_close c"] obtain q out cl s' where
    "request_loop f (ec_buf c @ incoming reads) (ec_out c) (ec_close c) s = Some (q, out, cl, s')" by blast
  then show ?thesis by (simp add: onReadable_def case_prod_beta Let_def)
qed

lemma ready_step_returns:
  assumes "answers_in I f" "I s" "benign m e"
  shows "\<exists>m' s'. ready_step f e (m, s) = Some (m', s')"
proof (cases e)
  case (Ready fd hup outp inp)
  obtain m1 where m1: "ready_out fd outp (m, s) = (m1, s)" "m1 fd = None \<or> (\<exists>c c1. m fd = Some c \<and> m1 fd = Some c1 \<and> ec_buf c1 = ec_buf c)"
  proof (cases "outp = None \<or> m fd = None")
    case True
    then show thesis using that [of m] by (cases "m fd") (auto simp: ready_out_def split: option.splits)
  next
    case False
    then obtain ws c where c: "outp = Some ws" "m fd = Some c" by auto
    obtain alive c1 where fl: "flush ws c = (alive, c1)" by (metis surj_pair)
    show thesis
      using that [of "keep_conn fd (flush ws c) m"] c fl flush_frame(2) [OF fl]
      by (simp add: ready_out_def keep_conn_def)
  qed
  have "\<exists>st. ready_in f fd inp (m1, s) = Some st"
  proof (cases "inp = None \<or> m1 fd = None")
    case True
    then show ?thesis by (auto simp: ready_in_def split: option.split)
  next
    case False
    then obtain reads writes c1 where i: "inp = Some (reads, writes)" "m1 fd = Some c1" by auto
    with m1(2) obtain c where c: "m fd = Some c" "ec_buf c1 = ec_buf c" by auto
    with assms(3) Ready i(1) have "length (ec_buf c1 @ incoming reads) < 2 ^ 62"
      "\<forall>i. length_ok (drop i (ec_buf c1 @ incoming reads))" unfolding benign_def by metis+
    from onReadable_returns [OF assms(1,2) this, of writes] obtain r s' where
      "onReadable f reads writes c1 s = Some (r, s')" by blast
    with i show ?thesis by (simp add: ready_in_def)
  qed
  with m1(1) Ready show ?thesis by (auto split: option.split)
qed simp


text \<open>A rule update takes effect on the next answer: after one round of the poller that was asked to
  reload (or is due), and whose Redis holds the rules \<open>rs\<close>, a longest pattern of \<open>rs\<close> that matches the
  path decides whether and how long an answer is kept, and the origin's headers decide where none matches;
  no rule is lost or invented, however the network cuts the reply, and the old rules are forgotten.\<close>

lemma rule_update_takes_effect:
  assumes "sv_reach cfg h srt sv" "co = sv_co sv" "sorts_by_length srt"
    and "c_open (co_poll co)" "c_sends (co_poll co) = []"
    and "\<forall>r \<in> set rs. rule_ok r" "length rs < 2 ^ 62" "co_reload co \<or> poll_due cfg now co"
    and "delivers (co_poll co) ((if ping_due now co then wire pong else []) @ wire (rules_hash rs) @ rest)"
  shows "\<exists>co'. poller_step cfg srt now co = Some co' \<and> sv_reach cfg h srt (sv\<lparr>sv_co := co'\<rparr>) \<and>
    co_connected co' \<and> \<not> co_reload co' \<and> c_open (co_poll co') \<and> delivers (co_poll co') rest \<and>
    (\<forall>path resp D. D = sv_policy cfg (sv\<lparr>sv_co := co'\<rparr>) path resp \<longrightarrow>
      (\<exists>r \<in> set rs. wild_spec (r_pattern r) path \<and>
        (\<forall>q \<in> set rs. wild_spec (r_pattern q) path \<longrightarrow> length (r_pattern q) \<le> length (r_pattern r)) \<and>
        (d_cacheable D \<longleftrightarrow> r_ttl r \<noteq> 0 \<and> resp_status resp < 500) \<and>
        (d_cacheable D \<longrightarrow> d_ttl D = r_ttl r \<and> d_swr D = r_swr r)) \<or>
      (\<forall>r \<in> set rs. \<not> wild_spec (r_pattern r) path) \<and> D = header_decide (cf_defaultTtl cfg) path resp)"
proof -
  from poller_installs_rules [OF assms(4-9), of srt] obtain co' where
    co': "poller_step cfg srt now co = Some co'" "co_store co' = replaceAll srt rs (co_store co)"
    "co_connected co'" "\<not> co_reload co'" "c_open (co_poll co')" "delivers (co_poll co') rest" by blast
  have reach: "sv_reach cfg h srt (sv\<lparr>sv_co := co'\<rparr>)"
    using co'(1) assms(1,2) by (auto intro: sv_reach.moved sv_step.background bg_step.poll)
  have "sv_policy cfg (sv\<lparr>sv_co := co'\<rparr>) = rule_decide (replaceAll srt rs (co_store co)) (cf_defaultTtl cfg)"
    using co'(2) by (simp add: sv_policy_def)
  note pol = this
  show ?thesis
    by (intro exI [of _ co'] conjI allI impI longest_rule_decides [OF assms(3)])
      (use co' pol reach in simp_all)
qed

section \<open>Concrete runs\<close>

definition one_worker :: config where
  "one_worker = default_config\<lparr>cf_workerThreads := 1\<rparr>"

definition good_env :: listen_env where
  "good_env = \<lparr>le_socket = None, le_flags0 = 0, le_reusePort = None, le_pton = (\<lambda>s. None), le_bind = (\<lambda>a p. None),
     le_listen = None, le_getfl = True, le_setfl = True\<rparr>"

abbreviation quiet_fn :: "server request_fn" where
  "quiet_fn \<equiv> serve one_worker (calm (origin_over no_net)) (\<lambda>s. Some) quiet_hash"

lemma quiet_worker: "worker_fn one_worker quiet_hash by_length quiet_fn"
  using http_origin.environment_axioms by (rule worker_fn_serve)

definition bad_bytes :: string where
  "bad_bytes = ''BAD'' @ crlf @ crlf"

text \<open>One worker, to which one client has connected.\<close>

definition server1 :: server where
  "server1 = new_server one_worker (chopped []) (chopped []) (chopped []) 0 (\<lambda>n. 0) (\<lambda>n. 0)"

definition connected :: system where
  "connected = \<lparr>sy_server = server1, sy_workers = [Some ((\<lambda>fd. None)(7 \<mapsto> new_econn))]\<rparr>"

lemma connected_reach: "sys_reach one_worker quiet_hash by_length connected"
proof -
  let ?sy = "proxy_start one_worker (\<lambda>i. (good_env, True)) server1"
  have w: "?sy = \<lparr>sy_server = server1, sy_workers = [Some (\<lambda>fd. None)]\<rparr>"
    by (simp add: proxy_start_def worker_start_def one_worker_def good_env_def createReusePortListener_def
        setNonBlocking_def bind_address_def Let_def default_config_def)
  have r0: "sys_reach one_worker quiet_hash by_length ?sy"
    unfolding server1_def by (rule sys_reach.started) (simp add: one_worker_def default_config_def)
  have "ready_step quiet_fn (Listening [Accepted 7 True]) (\<lambda>fd. None, sy_server ?sy) =
      Some ((\<lambda>fd. None)(7 \<mapsto> new_econn), server1)"
    using w by simp
  from sys_reach.moved [OF r0 sys_step.worker [OF _ _ quiet_worker this, of 0]] w
  show ?thesis by (simp add: connected_def)
qed

lemma bad_parse: "parse bad_bytes = (ParseError, bad_bytes)" "bad_bytes \<noteq> []" "sized_config one_worker"
  by code_simp+

text \<open>The client sends what is not a request, and takes five bytes of the answer.\<close>

theorem clients_get_whole_answers_witness:
  "\<exists>sy m c as. sys_reach one_worker quiet_hash by_length sy \<and> Some m \<in> set (sy_workers sy) \<and> m 7 = Some c \<and>
     length (ec_sent c) = 5 \<and> ec_sent c @ pending c = concat as \<and>
     (\<forall>a \<in> set as. a = serialize bad_request False \<or> (\<exists>resp ka. tagged one_worker resp \<and> a = serialize resp ka))"
proof -
  let ?m = "(\<lambda>fd. None)(7 \<mapsto> new_econn) :: conns"
  let ?c = "new_econn\<lparr>ec_buf := bad_bytes, ec_out := serialize bad_request False, ec_close := True\<rparr>"
  let ?d = "updateEpollOut True (took 5 ?c)"
  let ?m2 = "?m(7 \<mapsto> ?d)"
  have len: "length (serialize bad_request False) = 105" by code_simp
  have rl: "request_loop quiet_fn bad_bytes [] False s = Some (bad_bytes, serialize bad_request False, True, s)" for s
    by (subst request_loop.simps) (simp add: bad_parse)
  have fl: "flush [Took 5, WriteBlock] ?c = (True, ?d)"
    using len by (simp add: flush_def took_def Let_def new_econn_def)
  have "onReadable quiet_fn [Got bad_bytes] [Took 5, WriteBlock] new_econn server1 = Some ((True, ?d), server1)"
    using bad_parse(2) rl [of server1] fl by (simp add: onReadable_def new_econn_def)
  then have st: "ready_step quiet_fn (Ready 7 False None (Some ([Got bad_bytes], [Took 5, WriteBlock]))) (?m, sy_server connected) =
      Some (?m2, server1)"
    by (simp add: ready_in_def ready_out_def keep_conn_def connected_def)
  let ?sy2 = "connected\<lparr>sy_server := server1, sy_workers := (sy_workers connected)[0 := Some ?m2]\<rparr>"
  have "sys_reach one_worker quiet_hash by_length ?sy2"
    using sys_reach.moved [OF connected_reach sys_step.worker [OF _ _ quiet_worker st, of 0]] by (simp add: connected_def)
  moreover have "Some ?m2 \<in> set (sy_workers ?sy2)" by (simp add: connected_def)
  moreover have "?m2 7 = Some ?d" by simp
  moreover have "length (ec_sent ?d) = 5" using len by (simp add: took_def Let_def new_econn_def)
  ultimately show ?thesis
    using clients_get_whole_answers [of one_worker quiet_hash by_length ?sy2 ?m2 7 ?d] bad_parse(3) by blast
qed


text \<open>A server whose poller has connected and found no rules; now there is one.\<close>

definition polling :: server where
  "polling = new_server default_config (chopped [])
     ((chopped [])\<lparr>c_dials := [Some [Bytes (wire pong), Bytes (wire (rules_hash [])), Bytes (wire pong @ wire (rules_hash [rule_a]))]]\<rparr>)
     (chopped []) 0 (\<lambda>n. 0) (\<lambda>n. 0)"

definition polled :: "coordinator \<Rightarrow> bool" where
  "polled co \<longleftrightarrow> c_open (co_poll co) \<and> c_sends (co_poll co) = [] \<and> c_rpos (co_poll co) \<le> length (c_rbuf (co_poll co)) \<and>
     drop (c_rpos (co_poll co)) (c_rbuf (co_poll co)) = [] \<and> c_in (co_poll co) = [Bytes (wire pong @ wire (rules_hash [rule_a]))] \<and>
     ping_due 16000000000 co \<and> poll_due default_config 16000000000 co"

lemma polled_server: obtains sv where "sv_reach default_config quiet_hash by_length sv" "polled (sv_co sv)"
proof -
  have "case poller_step default_config by_length 1000 (sv_co polling) of None \<Rightarrow> False | Some co \<Rightarrow> polled co"
    by code_simp
  then obtain co where step: "poller_step default_config by_length 1000 (sv_co polling) = Some co" "polled co"
    by (simp split: option.splits)
  have "sv_reach default_config quiet_hash by_length polling"
    unfolding polling_def by (rule sv_reach.started) (simp add: default_config_def)
  from sv_reach.moved [OF this sv_step.background [OF bg_step.poll [OF step(1)]]] step(2) show thesis
    using that [of "polling\<lparr>sv_co := co\<rparr>"] by simp
qed

end
