(* ===== verification/Fairness.thy ===== *)
theory Fairness
  imports Main
begin

text \<open>
  Runs of a system of threads that are fair to each of its own threads: infinite sequences of states in which
  no thread that could go on is passed over for ever. The locale \<open>fair_ending\<close> is what a system shows
  to be certain to reach its end in every such run: a number that no step increases, and in every
  state before the end a thread whose next step decreases it.
\<close>

text \<open>\<open>act i\<close> is who takes the \<open>i\<close>th step; \<open>None\<close> is a pause. An own thread takes a step or cannot,
  infinitely often.\<close>

definition fair_run :: "('a \<Rightarrow> 's \<Rightarrow> 's \<Rightarrow> bool) \<Rightarrow> ('a \<Rightarrow> bool) \<Rightarrow> (nat \<Rightarrow> 's) \<Rightarrow> (nat \<Rightarrow> 'a option) \<Rightarrow> bool" where
  "fair_run step own run act \<longleftrightarrow>
     (\<forall>i. case act i of None \<Rightarrow> run (Suc i) = run i | Some a \<Rightarrow> step a (run i) (run (Suc i))) \<and>
     (\<forall>a i. own a \<longrightarrow> (\<exists>j\<ge>i. act j = Some a \<or> (\<forall>s. \<not> step a (run j) s)))"

lemma fair_run_moves:
  assumes "fair_run step own run act"
  shows "run (Suc i) = run i \<or> (\<exists>a. act i = Some a \<and> step a (run i) (run (Suc i)))"
proof (cases "act i")
  case (Some a)
  with assms show ?thesis unfolding fair_run_def by (metis option.simps(5))
next
  case None
  with assms show ?thesis unfolding fair_run_def by (metis option.simps(4))
qed

lemma fair_run_keeps:
  assumes "fair_run step own run act" "\<And>a s s'. P s \<Longrightarrow> step a s s' \<Longrightarrow> P s'" "P (run k)" "k \<le> i"
  shows "P (run i)"
  using assms(4)
proof (induction i rule: dec_induct)
  case (step i)
  with fair_run_moves [OF assms(1), of i] assms(2) show ?case by metis
qed (rule assms(3))

text \<open>A run may be given a first step.\<close>

lemma fair_run_Cons:
  assumes "fair_run step own run act" "step a s (run 0)"
  shows "fair_run step own (case_nat s run) (case_nat (Some a) act)"
  unfolding fair_run_def
proof (intro conjI allI impI)
  fix i
  show "case case_nat (Some a) act i of None \<Rightarrow> case_nat s run (Suc i) = case_nat s run i
    | Some b \<Rightarrow> step b (case_nat s run i) (case_nat s run (Suc i))"
    using assms(2) assms(1) [unfolded fair_run_def, THEN conjunct1, THEN spec, of "i - 1"] by (cases i) (simp_all split: option.splits)
next
  fix b i
  assume "own b"
  with assms(1) obtain j where "i \<le> j" "act j = Some b \<or> (\<forall>s. \<not> step b (run j) s)" unfolding fair_run_def by metis
  then show "\<exists>j\<ge>i. case_nat (Some a) act j = Some b \<or> (\<forall>t. \<not> step b (case_nat s run j) t)"
    by (intro exI [of _ "Suc j"]) simp
qed

locale fair_ending =
  fixes step :: "'a \<Rightarrow> 's \<Rightarrow> 's \<Rightarrow> bool" and own :: "'a \<Rightarrow> bool" and inv :: "'s \<Rightarrow> bool"
    and goal :: "'s \<Rightarrow> bool" and rank :: "'s \<Rightarrow> nat" and helper :: "'s \<Rightarrow> 'a"
  assumes kept: "inv s \<Longrightarrow> step a s s' \<Longrightarrow> inv s' \<and> rank s' \<le> rank s"
    and same: "inv s \<Longrightarrow> step a s s' \<Longrightarrow> rank s' = rank s \<Longrightarrow> helper s' = helper s"
    and helps: "inv s \<Longrightarrow> \<not> goal s \<Longrightarrow> own (helper s) \<and> (\<exists>s'. step (helper s) s s')"
    and lowers: "inv s \<Longrightarrow> \<not> goal s \<Longrightarrow> step (helper s) s s' \<Longrightarrow> rank s' < rank s"
    and ended: "inv s \<Longrightarrow> goal s \<Longrightarrow> step a s s' \<Longrightarrow> \<not> own a \<and> goal s'"
begin

lemma rank_steps:
  assumes "fair_run step own run act" "inv (run k)" "k \<le> i"
  shows "inv (run i) \<and> rank (run i) \<le> rank (run k)"
  using assms(3)
proof (induction i rule: dec_induct)
  case (step i)
  with fair_run_moves [OF assms(1), of i] kept show ?case by (metis le_trans)
qed (use assms(2) in simp)

lemma rank_falls:
  assumes "fair_run step own run act" "inv (run k)" "\<not> goal (run k)"
  shows "\<exists>j\<ge>k. goal (run j) \<or> rank (run j) < rank (run k)"
proof (rule ccontr)
  assume none: "\<not> (\<exists>j\<ge>k. goal (run j) \<or> rank (run j) < rank (run k))"
  then have flat: "inv (run i) \<and> rank (run i) = rank (run k) \<and> \<not> goal (run i)" if "k \<le> i" for i
    using rank_steps [OF assms(1,2) that] that by (metis le_neq_implies_less)
  have who: "helper (run i) = helper (run k)" if "k \<le> i" for i
    using that
  proof (induction i rule: dec_induct)
    case (step i)
    from fair_run_moves [OF assms(1), of i] same [of "run i"] flat [of i] flat [of "Suc i"] step show ?case
      by (metis le_SucI)
  qed simp
  have "own (helper (run k))" using helps [OF assms(2,3)] by simp
  with assms(1) obtain j where j: "k \<le> j" "act j = Some (helper (run k)) \<or> (\<forall>s. \<not> step (helper (run k)) (run j) s)"
    unfolding fair_run_def by metis
  have "\<exists>s. step (helper (run k)) (run j) s" using helps [of "run j"] flat [OF j(1)] who [OF j(1)] by simp
  with j(2) have "act j = Some (helper (run k))" by blast
  with assms(1) have "step (helper (run j)) (run j) (run (Suc j))"
    using who [OF j(1)] unfolding fair_run_def by (metis option.simps(5))
  then have "rank (run (Suc j)) < rank (run j)" using lowers flat [OF j(1)] by blast
  with flat [of j] flat [of "Suc j"] j(1) show False by simp
qed

text \<open>Every fair run reaches the end and stays there.\<close>

lemma ends:
  assumes "fair_run step own run act" "inv (run k)"
  shows "\<exists>j\<ge>k. \<forall>i\<ge>j. goal (run i)"
  using assms(2)
proof (induction "rank (run k)" arbitrary: k rule: less_induct)
  case less
  have stay: "\<forall>i\<ge>j. goal (run i)" if "k \<le> j" "goal (run j)" for j
  proof (intro allI impI)
    fix i
    assume "j \<le> i"
    have "inv (run j)" using rank_steps [OF assms(1) less.prems that(1)] by simp
    with that(2) kept ended have "inv (run i) \<and> goal (run i)"
      using fair_run_keeps [OF assms(1), of "\<lambda>s. inv s \<and> goal s" j i] \<open>j \<le> i\<close> by metis
    then show "goal (run i)" by simp
  qed
  show ?case
  proof (cases "goal (run k)")
    case True
    with stay [of k] show ?thesis by blast
  next
    case False
    from rank_falls [OF assms(1) less.prems False] obtain j where j: "k \<le> j" "goal (run j) \<or> rank (run j) < rank (run k)" by blast
    show ?thesis
    proof (cases "goal (run j)")
      case True
      with stay [OF j(1)] j(1) show ?thesis by blast
    next
      case low: False
      with j have "rank (run j) < rank (run k)" by simp
      from less.hyps [OF this] rank_steps [OF assms(1) less.prems j(1)] j(1) show ?thesis by (meson le_trans)
    qed
  qed
qed

text \<open>There are such runs: the helpers alone make one.\<close>

inductive helped :: "'s \<Rightarrow> 's \<Rightarrow> bool" where
  here: "helped s s"
| further: "\<not> goal s \<Longrightarrow> step (helper s) s s' \<Longrightarrow> helped s' t \<Longrightarrow> helped s t"

lemma fair_run_exists:
  assumes "inv s"
  shows "\<exists>run act. run 0 = s \<and> fair_run step own run act \<and> (\<forall>i. helped s (run i))"
  using assms
proof (induction "rank s" arbitrary: s rule: less_induct)
  case less
  show ?case
  proof (cases "goal s")
    case True
    then have "fair_run step own (\<lambda>i. s) (\<lambda>i. None)" using ended [OF less.prems] unfolding fair_run_def by auto
    then show ?thesis using helped.here by (intro exI [of _ "\<lambda>i. s"] exI [of _ "\<lambda>i. None"]) simp
  next
    case False
    then obtain s' where s': "step (helper s) s s'" using helps less.prems by blast
    from less.hyps [OF lowers [OF less.prems False s']] kept [OF less.prems s'] obtain run act where
      r: "run 0 = s'" "fair_run step own run act" "\<forall>i. helped s' (run i)" by blast
    have "fair_run step own (case_nat s run) (case_nat (Some (helper s)) act)" using fair_run_Cons [OF r(2)] s' r(1) by simp
    moreover have "helped s (case_nat s run i)" for i
      using r(3) helped.here helped.further [OF False s'] by (cases i) auto
    ultimately show ?thesis
      by (intro exI [of _ "case_nat s run"] exI [of _ "case_nat (Some (helper s)) act"]) simp
  qed
qed

end

end
