(* ===== verification/Lifecycle.thy ===== *)
theory Lifecycle
  imports System Fairness
begin

text \<open>
  The life of the process (\<^verbatim>\<open>ProxyServer::run\<close>, \<^verbatim>\<open>ProxyServer::stop\<close>, the signal handler of \<^verbatim>\<open>main.cpp\<close>,
  \<^verbatim>\<open>RedisCoordinator::start\<close> and \<^verbatim>\<open>stop\<close>): the main thread starts the others and joins them, each of them looks at
  its flag before every turn. A process is a \<open>system\<close> together with the two flags, the states of the
  threads and the place of the main thread; \<open>process_refines\<close> is the simulation, so what is shown of every
  system holds of every process. What a thread does between two looks at its flag is one step.
\<close>

section \<open>The process\<close>

datatype 'a thread_at = Unborn | Opening | Going 'a | Gone

datatype main_at = Entering | StartingRedis | StartingSub | StartingPoll | StartingMetrics | Spawning nat
  | Joining nat | JoiningMetrics | Stopping | JoiningSub | JoiningPoll | Returned

record proxy_process =
  pr_server :: server
  pr_workers :: "conns thread_at list"
  pr_metrics :: "unit thread_at"
  pr_sub :: "unit thread_at"
  pr_poll :: "unit thread_at"
  pr_running :: bool
  pr_coRunning :: bool
  pr_main :: main_at

definition process_begin :: "config \<Rightarrow> server \<Rightarrow> proxy_process" where
  "process_begin cfg sv = \<lparr>pr_server = sv, pr_workers = replicate (unat (cf_workerThreads cfg)) Unborn,
     pr_metrics = Unborn, pr_sub = Unborn, pr_poll = Unborn, pr_running = False, pr_coRunning = False, pr_main = Entering\<rparr>"

definition put_worker :: "nat \<Rightarrow> conns thread_at \<Rightarrow> proxy_process \<Rightarrow> proxy_process" where
  "put_worker i t p = p\<lparr>pr_workers := (pr_workers p)[i := t]\<rparr>"

text \<open>The next statement of the main thread; \<open>None\<close> where it waits for a thread to end, or has returned.\<close>

fun main_next :: "main_at \<Rightarrow> proxy_process \<Rightarrow> proxy_process option" where
  "main_next Entering p = Some (p\<lparr>pr_running := True, pr_main := StartingRedis\<rparr>)"
| "main_next StartingRedis p = Some (p\<lparr>pr_coRunning := True, pr_main := StartingSub\<rparr>)"
| "main_next StartingSub p = Some (p\<lparr>pr_sub := Going (), pr_main := StartingPoll\<rparr>)"
| "main_next StartingPoll p = Some (p\<lparr>pr_poll := Going (), pr_main := StartingMetrics\<rparr>)"
| "main_next StartingMetrics p = Some (p\<lparr>pr_metrics := Opening, pr_main := Spawning 0\<rparr>)"
| "main_next (Spawning i) p =
     Some (if i < length (pr_workers p) then (put_worker i Opening p)\<lparr>pr_main := Spawning (Suc i)\<rparr> else p\<lparr>pr_main := Joining 0\<rparr>)"
| "main_next (Joining i) p =
     (if i < length (pr_workers p)
      then (if pr_workers p ! i = Gone then Some (p\<lparr>pr_main := Joining (Suc i)\<rparr>) else None)
      else Some (p\<lparr>pr_main := JoiningMetrics\<rparr>))"
| "main_next JoiningMetrics p = (if pr_metrics p = Gone then Some (p\<lparr>pr_main := Stopping\<rparr>) else None)"
| "main_next Stopping p =
     Some (if \<not> pr_coRunning p then p\<lparr>pr_main := Returned\<rparr> else p\<lparr>pr_coRunning := False, pr_main := JoiningSub\<rparr>)"
| "main_next JoiningSub p = (if pr_sub p = Gone then Some (p\<lparr>pr_main := JoiningPoll\<rparr>) else None)"
| "main_next JoiningPoll p = (if pr_poll p = Gone then Some (p\<lparr>pr_main := Returned\<rparr>) else None)"
| "main_next Returned p = None"

definition main_step :: "proxy_process \<Rightarrow> proxy_process option" where
  "main_step p = main_next (pr_main p) p"

definition stop :: "proxy_process \<Rightarrow> proxy_process" where
  "stop p = p\<lparr>pr_running := False\<rparr>"

text \<open>The handler is installed after the server has been made, so its pointer is not null.\<close>

definition handleSignal :: "proxy_process option \<Rightarrow> proxy_process option" where
  "handleSignal g_server = (case g_server of None \<Rightarrow> None | Some p \<Rightarrow> Some (stop p))"

text \<open>One turn of the loop of worker \<open>i\<close>; its connections are gone when it breaks out.\<close>

fun worker_turn :: "server request_fn \<Rightarrow> nat \<Rightarrow> turn \<Rightarrow> conns \<times> server \<Rightarrow> (conns option \<times> server) option" where
  "worker_turn f i WaitIntr (m, sv) = Some (Some m, sv)"
| "worker_turn f i WaitFail (m, sv) = Some (None, sv)"
| "worker_turn f i (Turn es) (m, sv) = (case ready_steps f es (m, sv) of
     None \<Rightarrow> None | Some (m, sv) \<Rightarrow> Some (Some m, on_tick i sv))"

definition at_work :: "conns option \<Rightarrow> conns thread_at" where
  "at_work x = (case x of None \<Rightarrow> Gone | Some m \<Rightarrow> Going m)"

datatype actor = Main_thread | Worker_thread nat | Metrics_thread | Sub_thread | Poll_thread | Job_thread | Signal_handler

lemma handleSignal_Some [simp]: "handleSignal (Some p) = Some p' \<longleftrightarrow> p' = stop p"
  by (auto simp: handleSignal_def)

text \<open>\<open>envs\<close> is what the listeners of the workers meet, \<open>menv\<close> that of the metrics server. A request for
  the metrics changes nothing but the socket of its client; that server ends when it is told to or its
  \<^verbatim>\<open>accept\<close> breaks.\<close>

inductive proc_step :: "config \<Rightarrow> (string \<Rightarrow> u64) \<Rightarrow> (rule list \<Rightarrow> rule list) \<Rightarrow> (nat \<Rightarrow> listen_env \<times> bool) \<Rightarrow> listen_env \<Rightarrow>
    actor \<Rightarrow> proxy_process \<Rightarrow> proxy_process \<Rightarrow> bool" for cfg h srt envs menv where
  main: "main_step p = Some p' \<Longrightarrow> proc_step cfg h srt envs menv Main_thread p p'"
| signal: "handleSignal (Some p) = Some p' \<Longrightarrow> proc_step cfg h srt envs menv Signal_handler p p'"
| opens: "i < length (pr_workers p) \<Longrightarrow> pr_workers p ! i = Opening \<Longrightarrow>
    proc_step cfg h srt envs menv (Worker_thread i) p (put_worker i (at_work (worker_start cfg (envs i))) p)"
| turns: "i < length (pr_workers p) \<Longrightarrow> pr_workers p ! i = Going m \<Longrightarrow> pr_running p \<Longrightarrow> worker_fn cfg h srt f \<Longrightarrow>
    worker_turn f i t (m, pr_server p) = Some (x, sv) \<Longrightarrow>
    proc_step cfg h srt envs menv (Worker_thread i) p (put_worker i (at_work x) (p\<lparr>pr_server := sv\<rparr>))"
| ends: "i < length (pr_workers p) \<Longrightarrow> pr_workers p ! i = Going m \<Longrightarrow> \<not> pr_running p \<Longrightarrow>
    proc_step cfg h srt envs menv (Worker_thread i) p (put_worker i Gone p)"
| metrics_opens: "pr_metrics p = Opening \<Longrightarrow> proc_step cfg h srt envs menv Metrics_thread p
    (p\<lparr>pr_metrics := (if fst (createReusePortListener menv (cf_listenHost cfg) (cf_metricsPort cfg)) then Going () else Gone)\<rparr>)"
| metrics_serves: "pr_metrics p = Going () \<Longrightarrow> pr_running p \<Longrightarrow> proc_step cfg h srt envs menv Metrics_thread p p"
| metrics_ends: "pr_metrics p = Going () \<Longrightarrow>
    proc_step cfg h srt envs menv Metrics_thread p (p\<lparr>pr_metrics := Gone\<rparr>)"
| sub_turns: "pr_sub p = Going () \<Longrightarrow> pr_coRunning p \<Longrightarrow>
    subscriber_step cfg purgeAllShards (sv_co (pr_server p), sv_world (pr_server p)) = Some (co, w) \<Longrightarrow>
    proc_step cfg h srt envs menv Sub_thread p (p\<lparr>pr_server := (pr_server p)\<lparr>sv_co := co, sv_world := w\<rparr>\<rparr>)"
| sub_ends: "pr_sub p = Going () \<Longrightarrow> \<not> pr_coRunning p \<Longrightarrow> proc_step cfg h srt envs menv Sub_thread p (p\<lparr>pr_sub := Gone\<rparr>)"
| poll_turns: "pr_poll p = Going () \<Longrightarrow> pr_coRunning p \<Longrightarrow> poller_step cfg srt now (sv_co (pr_server p)) = Some co \<Longrightarrow>
    proc_step cfg h srt envs menv Poll_thread p (p\<lparr>pr_server := (pr_server p)\<lparr>sv_co := co\<rparr>\<rparr>)"
| poll_ends: "pr_poll p = Going () \<Longrightarrow> \<not> pr_coRunning p \<Longrightarrow> proc_step cfg h srt envs menv Poll_thread p (p\<lparr>pr_poll := Gone\<rparr>)"
| job: "pr_main p \<noteq> Returned \<Longrightarrow> environment h (sv_caps cfg) (cf_l2Enabled cfg) fetch wait \<Longrightarrow>
    w_jobs (sv_world (pr_server p)) = js @ j # ks \<Longrightarrow>
    revalidate cfg (sv_policy cfg (pr_server p)) fetch h j ((sv_world (pr_server p))\<lparr>w_jobs := js @ ks\<rparr>) = Some w \<Longrightarrow>
    proc_step cfg h srt envs menv Job_thread p (p\<lparr>pr_server := (pr_server p)\<lparr>sv_world := w\<rparr>\<rparr>)"

inductive proc_reach :: "config \<Rightarrow> (string \<Rightarrow> u64) \<Rightarrow> (rule list \<Rightarrow> rule list) \<Rightarrow> (nat \<Rightarrow> listen_env \<times> bool) \<Rightarrow> listen_env \<Rightarrow>
    proxy_process \<Rightarrow> bool" for cfg h srt envs menv where
  begins: "(cf_l2Enabled cfg \<Longrightarrow> tame volume l2conn) \<Longrightarrow>
    proc_reach cfg h srt envs menv (process_begin cfg (new_server cfg sub poll l2conn now clk wall))"
| goes_on: "proc_reach cfg h srt envs menv p \<Longrightarrow> proc_step cfg h srt envs menv a p p' \<Longrightarrow> proc_reach cfg h srt envs menv p'"

text \<open>The threads the process starts itself; a revalidation is detached, a signal comes from outside.\<close>

definition own :: "actor \<Rightarrow> bool" where
  "own a \<longleftrightarrow> a \<noteq> Job_thread \<and> a \<noteq> Signal_handler"

section \<open>What is true at each place of the main thread\<close>

fun phase :: "main_at \<Rightarrow> nat" where
  "phase Entering = 0" | "phase StartingRedis = 1" | "phase StartingSub = 2" | "phase StartingPoll = 3"
| "phase StartingMetrics = 4" | "phase (Spawning i) = 5" | "phase (Joining i) = 6" | "phase JoiningMetrics = 7"
| "phase Stopping = 8" | "phase JoiningSub = 9" | "phase JoiningPoll = 10" | "phase Returned = 11"

text \<open>How many workers have been spawned, and how many joined.\<close>

fun spawned :: "nat \<Rightarrow> main_at \<Rightarrow> nat" where
  "spawned n (Spawning i) = min i n"
| "spawned n pl = (if phase pl < 5 then 0 else n)"

fun joined :: "nat \<Rightarrow> main_at \<Rightarrow> nat" where
  "joined n (Joining i) = min i n"
| "joined n pl = (if phase pl < 6 then 0 else n)"

definition staged :: "config \<Rightarrow> proxy_process \<Rightarrow> bool" where
  "staged cfg p \<longleftrightarrow> length (pr_workers p) = unat (cf_workerThreads cfg) \<and>
     (\<forall>i < length (pr_workers p). (pr_workers p ! i = Unborn \<longleftrightarrow> spawned (length (pr_workers p)) (pr_main p) \<le> i) \<and>
       (i < joined (length (pr_workers p)) (pr_main p) \<longrightarrow> pr_workers p ! i = Gone)) \<and>
     (pr_metrics p = Unborn \<longleftrightarrow> phase (pr_main p) < 5) \<and> (8 \<le> phase (pr_main p) \<longrightarrow> pr_metrics p = Gone) \<and>
     (pr_sub p = Unborn \<longleftrightarrow> phase (pr_main p) < 3) \<and> pr_sub p \<noteq> Opening \<and> (10 \<le> phase (pr_main p) \<longrightarrow> pr_sub p = Gone) \<and>
     (pr_poll p = Unborn \<longleftrightarrow> phase (pr_main p) < 4) \<and> pr_poll p \<noteq> Opening \<and> (11 \<le> phase (pr_main p) \<longrightarrow> pr_poll p = Gone) \<and>
     (pr_coRunning p \<longleftrightarrow> 2 \<le> phase (pr_main p) \<and> phase (pr_main p) \<le> 8)"

lemma staged_begin: "staged cfg (process_begin cfg sv)"
  by (simp add: staged_def process_begin_def)

lemma staged_main:
  assumes "staged cfg p" "main_step p = Some p'"
  shows "staged cfg p'"
proof (cases "pr_main p")
  case (Spawning i)
  with assms show ?thesis
    by (cases "i < length (pr_workers p)") (auto simp: staged_def main_step_def put_worker_def nth_list_update min_def split: if_splits)
next
  case (Joining i)
  with assms show ?thesis
    by (cases "i < length (pr_workers p)") (auto simp: staged_def main_step_def less_Suc_eq min_def split: if_splits)
qed (use assms in \<open>auto simp: staged_def main_step_def split: if_splits\<close>)

lemma staged_server [simp]: "staged cfg (p\<lparr>pr_server := sv\<rparr>) = staged cfg p"
  by (simp add: staged_def)

lemma staged_worker:
  assumes "staged cfg p" "i < length (pr_workers p)" "pr_workers p ! i \<noteq> Unborn" "pr_workers p ! i \<noteq> Gone" "t \<noteq> Unborn"
  shows "staged cfg (put_worker i t p)"
  using assms by (auto simp: staged_def put_worker_def nth_list_update)

lemma at_work_born [simp]: "at_work x \<noteq> Unborn"
  by (simp add: at_work_def split: option.split)

lemma staged_step:
  assumes "proc_step cfg h srt envs menv a p p'" "staged cfg p"
  shows "staged cfg p'"
  using assms(1)
proof cases
  case main
  with staged_main assms(2) show ?thesis by blast
next
  case (opens i)
  then show ?thesis by (auto intro!: staged_worker assms(2))
next
  case (turns i m f t x sv)
  then show ?thesis by (auto intro!: staged_worker simp: assms(2))
next
  case (ends i m)
  then show ?thesis by (auto intro!: staged_worker assms(2))
qed (use assms(2) in \<open>auto simp: staged_def stop_def\<close>)

lemma proc_reach_staged: "proc_reach cfg h srt envs menv p \<Longrightarrow> staged cfg p"
  by (induction rule: proc_reach.induct) (auto intro: staged_begin staged_step)

section \<open>A process is a system\<close>

text \<open>A worker that has not opened its listener yet is seen as the one it is about to be.\<close>

definition seen :: "conns option \<Rightarrow> conns thread_at \<Rightarrow> conns option" where
  "seen x t = (case t of Going m \<Rightarrow> Some m | Gone \<Rightarrow> None | _ \<Rightarrow> x)"

definition as_system :: "config \<Rightarrow> (nat \<Rightarrow> listen_env \<times> bool) \<Rightarrow> proxy_process \<Rightarrow> system" where
  "as_system cfg envs p = \<lparr>sy_server = pr_server p,
     sy_workers = map (\<lambda>i. seen (worker_start cfg (envs i)) (pr_workers p ! i)) [0..<length (pr_workers p)]\<rparr>"

lemma seen_simps [simp]: "seen x Unborn = x" "seen x Opening = x" "seen x (Going m) = Some m" "seen x Gone = None"
  "seen x (at_work y) = y"
  by (simp_all add: seen_def at_work_def split: option.split)

lemma as_system_begin: "as_system cfg envs (process_begin cfg sv) = proxy_start cfg envs sv"
  by (simp add: as_system_def process_begin_def proxy_start_def)

lemma as_system_put:
  "i < length (pr_workers p) \<Longrightarrow> as_system cfg envs (put_worker i t p) =
     (as_system cfg envs p)\<lparr>sy_workers := (sy_workers (as_system cfg envs p))[i := seen (worker_start cfg (envs i)) t]\<rparr>"
  by (auto simp: as_system_def put_worker_def nth_list_update intro!: nth_equalityI)

lemma as_system_server [simp]: "as_system cfg envs (p\<lparr>pr_server := sv\<rparr>) = (as_system cfg envs p)\<lparr>sy_server := sv\<rparr>"
  by (simp add: as_system_def)

lemma as_system_worker: "i < length (pr_workers p) \<Longrightarrow>
    sy_workers (as_system cfg envs p) ! i = seen (worker_start cfg (envs i)) (pr_workers p ! i)"
  by (simp add: as_system_def)

lemma as_system_same: "seen (worker_start cfg (envs i)) t = seen (worker_start cfg (envs i)) (pr_workers p ! i) \<Longrightarrow>
    i < length (pr_workers p) \<Longrightarrow> as_system cfg envs (put_worker i t p) = as_system cfg envs p"
  by (auto simp: as_system_def put_worker_def nth_list_update)

lemma as_system_frame: "pr_server p' = pr_server p \<Longrightarrow> pr_workers p' = pr_workers p \<Longrightarrow> as_system cfg envs p' = as_system cfg envs p"
  by (simp add: as_system_def)

lemma main_frame:
  assumes "main_step p = Some p'" "staged cfg p"
  shows "as_system cfg envs p' = as_system cfg envs p"
proof (cases "\<exists>i. pr_main p = Spawning i \<and> i < length (pr_workers p)")
  case True
  then obtain i where i: "pr_main p = Spawning i" "i < length (pr_workers p)" by blast
  with assms(2) have "pr_workers p ! i = Unborn" by (auto simp: staged_def)
  with i have "as_system cfg envs (put_worker i Opening p) = as_system cfg envs p"
    by (intro as_system_same) simp_all
  moreover have "p' = (put_worker i Opening p)\<lparr>pr_main := Spawning (Suc i)\<rparr>" using assms(1) i by (simp add: main_step_def)
  ultimately show ?thesis by (simp add: as_system_def)
next
  case False
  with assms(1) show ?thesis
    by (intro as_system_frame; cases "pr_main p") (auto simp: main_step_def split: if_splits)
qed

lemma turn_sys:
  assumes "worker_fn cfg h srt f" "i < length (sy_workers sy)" "sy_workers sy ! i = Some m"
    and "worker_turn f i t (m, sy_server sy) = Some (x, sv)"
  shows "(sys_step cfg h srt)\<^sup>*\<^sup>* sy (sy\<lparr>sy_server := sv, sy_workers := (sy_workers sy)[i := x]\<rparr>)"
proof (cases t)
  case WaitIntr
  with assms(3,4) show ?thesis by (auto simp: list_update_same_conv assms(2))
next
  case WaitFail
  with assms(4) sys_step.ended [OF assms(2), of cfg h srt] show ?thesis by auto
next
  case (Turn es)
  with assms(4) obtain m1 sv1 where r: "ready_steps f es (m, sy_server sy) = Some (m1, sv1)" "x = Some m1" "sv = on_tick i sv1"
    by (auto split: option.splits)
  let ?ws = "(sy_workers sy)[i := Some m1]"
  have "sy = \<lparr>sy_server = sy_server sy, sy_workers = (sy_workers sy)[i := Some m]\<rparr>"
    using list_update_id [of "sy_workers sy" i] assms(3) by simp
  with ready_steps_sys [OF assms(1,2) r(1)] have "(sys_step cfg h srt)\<^sup>*\<^sup>* sy \<lparr>sy_server = sv1, sy_workers = ?ws\<rparr>" by simp
  moreover have "sys_step cfg h srt \<lparr>sy_server = sv1, sy_workers = ?ws\<rparr> \<lparr>sy_server = on_tick i sv1, sy_workers = ?ws\<rparr>"
    using sys_step.threads [where sy = "\<lparr>sy_server = sv1, sy_workers = ?ws\<rparr>", OF sv_step.background [OF bg_step.tick]] by simp
  ultimately have "(sys_step cfg h srt)\<^sup>*\<^sup>* sy \<lparr>sy_server = on_tick i sv1, sy_workers = ?ws\<rparr>" by (rule rtranclp.rtrancl_into_rtrancl)
  with r(2,3) show ?thesis by (cases sy) simp
qed

lemma proc_step_sys:
  assumes "proc_step cfg h srt envs menv a p p'" "staged cfg p"
  shows "(sys_step cfg h srt)\<^sup>*\<^sup>* (as_system cfg envs p) (as_system cfg envs p')"
proof -
  have sv: "(sys_step cfg h srt)\<^sup>*\<^sup>* (as_system cfg envs p) ((as_system cfg envs p)\<lparr>sy_server := s\<rparr>)"
    if "sv_step cfg h srt (pr_server p) s" for s
    using sys_step.threads [of cfg h srt "as_system cfg envs p" s] that by (simp add: as_system_def)
  show ?thesis
    using assms(1)
  proof cases
    case main
    with main_frame assms(2) show ?thesis by simp
  next
    case (opens i)
    then have "as_system cfg envs p' = as_system cfg envs p" by (auto intro: as_system_same)
    then show ?thesis by simp
  next
    case (turns i m f t x s)
    have w: "sy_workers (as_system cfg envs p) ! i = Some m" using as_system_worker [OF turns(3)] turns(4) by simp
    have "worker_turn f i t (m, sy_server (as_system cfg envs p)) = Some (x, s)" using turns(7) by (simp add: as_system_def)
    from turn_sys [OF turns(6) _ w this] turns(2,3) show ?thesis
      by (simp add: as_system_put [of i "p\<lparr>pr_server := s\<rparr>", simplified]) (simp add: as_system_def)
  next
    case (ends i m)
    with sys_step.ended [of i "as_system cfg envs p" cfg h srt] show ?thesis
      by (simp add: as_system_put) (simp add: as_system_def r_into_rtranclp)
  next
    case (sub_turns co w)
    with sv [OF sv_step.background [OF bg_step.message]] show ?thesis by simp
  next
    case (poll_turns now co)
    with sv [OF sv_step.background [OF bg_step.poll]] show ?thesis by simp
  next
    case (job fetch wait js j ks w)
    with sv [OF sv_step.job] show ?thesis by simp
  qed (auto simp: as_system_def stop_def)
qed

lemma process_refines:
  assumes "proc_reach cfg h srt envs menv p"
  shows "sys_reach cfg h srt (as_system cfg envs p)"
  using assms
proof (induction rule: proc_reach.induct)
  case (begins l2conn sub poll now clk wall)
  then show ?case by (simp add: as_system_begin sys_reach.started)
next
  case (goes_on p a p')
  have "sys_reach cfg h srt t" if "(sys_step cfg h srt)\<^sup>*\<^sup>* s t" "sys_reach cfg h srt s" for s t
    using that by (induction rule: rtranclp_induct) (auto intro: sys_reach.moved)
  with proc_step_sys [OF goes_on(2) proc_reach_staged [OF goes_on(1)]] goes_on(3) show ?case by blast
qed

section \<open>Stopping\<close>

fun main_left :: "nat \<Rightarrow> main_at \<Rightarrow> nat" where
  "main_left n Returned = 0" | "main_left n JoiningPoll = 1" | "main_left n JoiningSub = 2" | "main_left n Stopping = 3"
| "main_left n JoiningMetrics = 4" | "main_left n (Joining i) = 5 + (n - i)" | "main_left n (Spawning i) = 6 + n + (n - i)"
| "main_left n StartingMetrics = 7 + 2 * n" | "main_left n StartingPoll = 8 + 2 * n" | "main_left n StartingSub = 9 + 2 * n"
| "main_left n StartingRedis = 10 + 2 * n" | "main_left n Entering = 11 + 2 * n"

fun thread_left :: "'a thread_at \<Rightarrow> nat" where
  "thread_left Unborn = 2" | "thread_left Opening = 2" | "thread_left (Going x) = 1" | "thread_left Gone = 0"

text \<open>What a stopped process has left to do, at most.\<close>

definition to_do :: "proxy_process \<Rightarrow> nat" where
  "to_do p = main_left (length (pr_workers p)) (pr_main p) + (\<Sum>t\<leftarrow>pr_workers p. thread_left t) + thread_left (pr_metrics p) +
     thread_left (pr_sub p) + thread_left (pr_poll p)"

text \<open>Who brings it further: the main thread, or the thread for which that waits.\<close>

definition helper :: "proxy_process \<Rightarrow> actor" where
  "helper p = (if main_step p \<noteq> None then Main_thread
     else case pr_main p of Joining i \<Rightarrow> Worker_thread i | JoiningMetrics \<Rightarrow> Metrics_thread | JoiningSub \<Rightarrow> Sub_thread
       | _ \<Rightarrow> Poll_thread)"

definition stopped :: "config \<Rightarrow> proxy_process \<Rightarrow> bool" where
  "stopped cfg p \<longleftrightarrow> staged cfg p \<and> \<not> pr_running p \<and> pr_main p \<noteq> Entering"

definition over :: "proxy_process \<Rightarrow> bool" where
  "over p \<longleftrightarrow> pr_main p = Returned"

lemma sum_put: "i < length ts \<Longrightarrow> (\<Sum>t\<leftarrow>ts[i := u]. thread_left t) + thread_left (ts ! i) = (\<Sum>t\<leftarrow>ts. thread_left t) + thread_left u"
  by (induction ts arbitrary: i) (auto split: nat.split)

lemma to_do_put: "i < length (pr_workers p) \<Longrightarrow> to_do (put_worker i t p) + thread_left (pr_workers p ! i) = to_do p + thread_left t"
  using sum_put [of i "pr_workers p" t] by (simp add: to_do_def put_worker_def)

lemma to_do_server [simp]: "to_do (p\<lparr>pr_server := sv\<rparr>) = to_do p" "helper (p\<lparr>pr_server := sv\<rparr>) = helper p"
proof -
  have "main_step (p\<lparr>pr_server := sv\<rparr>) = map_option (\<lambda>q. q\<lparr>pr_server := sv\<rparr>) (main_step p)"
    by (cases "pr_main p") (simp_all add: main_step_def put_worker_def)
  then show "helper (p\<lparr>pr_server := sv\<rparr>) = helper p" by (simp add: helper_def)
qed (simp add: to_do_def)

lemma main_lowers:
  assumes "main_step p = Some p'" "staged cfg p"
  shows "to_do p' < to_do p \<and> pr_running p' = (pr_main p = Entering \<or> pr_running p) \<and> pr_main p' \<noteq> Entering"
proof (cases "pr_main p")
  case (Spawning i)
  show ?thesis
  proof (cases "i < length (pr_workers p)")
    case True
    with Spawning assms(2) have "pr_workers p ! i = Unborn" by (auto simp: staged_def)
    with sum_put [OF True, of Opening] have "(\<Sum>t\<leftarrow>(pr_workers p)[i := Opening]. thread_left t) = (\<Sum>t\<leftarrow>pr_workers p. thread_left t)"
      by simp
    with True Spawning assms(1) show ?thesis by (auto simp: main_step_def to_do_def put_worker_def)
  qed (use Spawning assms(1) in \<open>auto simp: main_step_def to_do_def\<close>)
qed (use assms in \<open>auto simp: main_step_def to_do_def staged_def split: if_splits\<close>)

lemma other_step:
  assumes "proc_step cfg h srt envs menv a p p'" "a \<noteq> Main_thread" "stopped cfg p"
  shows "to_do p' < to_do p \<or> to_do p' = to_do p \<and> helper p' = helper p" "pr_main p' = pr_main p \<and> \<not> pr_running p'"
proof -
  have "(to_do p' < to_do p \<or> to_do p' = to_do p \<and> helper p' = helper p) \<and> pr_main p' = pr_main p \<and> \<not> pr_running p'"
    using assms(1)
  proof cases
    case (opens i)
    have "thread_left (at_work x) < 2" for x by (simp add: at_work_def split: option.split)
    from this [of "worker_start cfg (envs i)"] to_do_put [OF opens(3), of "at_work (worker_start cfg (envs i))"] opens assms(3)
    show ?thesis by (simp add: stopped_def put_worker_def)
  next
    case (ends i m)
    with to_do_put [OF ends(3), of Gone] assms(3) show ?thesis by (simp add: stopped_def put_worker_def)
  next
    case signal
    have "stop p = p" using assms(3) by (simp add: stopped_def stop_def)
    with signal assms(3) show ?thesis by (simp add: stopped_def)
  qed (use assms(2,3) in \<open>auto simp: stopped_def to_do_def\<close>)
  then show "to_do p' < to_do p \<or> to_do p' = to_do p \<and> helper p' = helper p" "pr_main p' = pr_main p \<and> \<not> pr_running p'" by simp_all
qed

lemma stopped_step:
  assumes "proc_step cfg h srt envs menv a p p'" "stopped cfg p"
  shows "stopped cfg p' \<and> to_do p' \<le> to_do p \<and> (to_do p' = to_do p \<longrightarrow> helper p' = helper p)"
proof (cases "a = Main_thread")
  case True
  with assms(1) have "main_step p = Some p'" by (auto elim: proc_step.cases)
  with main_lowers [OF this, of cfg] staged_main [OF _ this, of cfg] assms(2) show ?thesis by (auto simp: stopped_def)
next
  case False
  from other_step [OF assms(1) False assms(2)] staged_step [OF assms(1)] assms(2) show ?thesis by (auto simp: stopped_def)
qed

lemma helper_lowers:
  assumes "proc_step cfg h srt envs menv (helper p) p p'" "stopped cfg p" "\<not> over p"
  shows "to_do p' < to_do p"
proof (cases "helper p = Main_thread")
  case True
  with assms(1) have "main_step p = Some p'" by (auto elim: proc_step.cases)
  with main_lowers [OF this, of cfg] assms(2) show ?thesis by (simp add: stopped_def)
next
  case False
  with assms(3) have wait: "main_step p = None" "(\<exists>i. pr_main p = Joining i) \<or> pr_main p \<in> {JoiningMetrics, JoiningSub, JoiningPoll}"
    by (cases "pr_main p"; simp add: helper_def main_step_def over_def split: if_splits)+
  from assms(1) show ?thesis
  proof cases
    case (opens i)
    have "thread_left (at_work x) < 2" for x by (simp add: at_work_def split: option.split)
    from this [of "worker_start cfg (envs i)"] to_do_put [OF opens(3), of "at_work (worker_start cfg (envs i))"] opens
    show ?thesis by simp
  next
    case (ends i m)
    with to_do_put [OF ends(3), of Gone] show ?thesis by simp
  next
    case (sub_turns co w)
    with wait assms(2) show ?thesis by (auto simp: helper_def staged_def stopped_def)
  next
    case (poll_turns now co)
    with wait assms(2) show ?thesis by (auto simp: helper_def staged_def stopped_def)
  qed (use wait assms(2) False in \<open>auto simp: helper_def stopped_def to_do_def\<close>)
qed

lemma helper_steps:
  assumes "stopped cfg p" "\<not> over p"
  shows "\<exists>p'. proc_step cfg h srt envs menv (helper p) p p'"
proof (cases "main_step p")
  case (Some p')
  then show ?thesis by (auto simp: helper_def intro: proc_step.main)
next
  case None
  have st: "staged cfg p" "\<not> pr_running p" using assms(1) by (simp_all add: stopped_def)
  from None assms(2) consider (w) i where "pr_main p = Joining i" "i < length (pr_workers p)" "pr_workers p ! i \<noteq> Gone"
    | (m) "pr_main p = JoiningMetrics" "pr_metrics p \<noteq> Gone" | (s) "pr_main p = JoiningSub" "pr_sub p \<noteq> Gone"
    | (q) "pr_main p = JoiningPoll" "pr_poll p \<noteq> Gone"
    by (cases "pr_main p") (auto simp: main_step_def over_def split: if_splits)
  then show ?thesis
  proof cases
    case w
    with st have "pr_workers p ! i \<noteq> Unborn" by (auto simp: staged_def)
    with w st None show ?thesis
      by (cases "pr_workers p ! i") (auto simp: helper_def intro: proc_step.opens proc_step.ends)
  next
    case m
    with st have "pr_metrics p \<noteq> Unborn" by (auto simp: staged_def)
    with m None show ?thesis by (cases "pr_metrics p") (auto simp: helper_def intro: proc_step.metrics_opens proc_step.metrics_ends)
  next
    case s
    with st have "pr_sub p = Going ()" "\<not> pr_coRunning p" by (cases "pr_sub p"; auto simp: staged_def)+
    with s None show ?thesis by (auto simp: helper_def intro: proc_step.sub_ends)
  next
    case q
    with st have "pr_poll p = Going ()" "\<not> pr_coRunning p" by (cases "pr_poll p"; auto simp: staged_def)+
    with q None show ?thesis by (auto simp: helper_def intro: proc_step.poll_ends)
  qed
qed

text \<open>After the end no thread of the process is left, so only a signal can come.\<close>

lemma over_gone:
  assumes "staged cfg p" "over p"
  shows "set (pr_workers p) \<subseteq> {Gone} \<and> pr_metrics p = Gone \<and> pr_sub p = Gone \<and> pr_poll p = Gone"
  using assms by (auto simp: staged_def over_def in_set_conv_nth)

lemma over_step:
  assumes "proc_step cfg h srt envs menv a p p'" "staged cfg p" "over p"
  shows "\<not> own a \<and> over p'"
proof -
  have w: "pr_workers p ! i = Gone" if "i < length (pr_workers p)" for i using over_gone [OF assms(2,3)] nth_mem [OF that] by auto
  from assms(1) show ?thesis
    by cases (use assms(3) over_gone [OF assms(2,3)] w in \<open>auto simp: own_def over_def stop_def main_step_def\<close>)
qed

interpretation stopping: fair_ending "proc_step cfg h srt envs menv" own "stopped cfg" over to_do helper
  for cfg h srt envs menv
proof
  fix p a p'
  assume p: "stopped cfg p" "proc_step cfg h srt envs menv a p p'"
  show "stopped cfg p' \<and> to_do p' \<le> to_do p" using stopped_step [OF p(2,1)] by simp
  show "to_do p' = to_do p \<Longrightarrow> helper p' = helper p" using stopped_step [OF p(2,1)] by simp
  show "over p \<Longrightarrow> \<not> own a \<and> over p'" using over_step [OF p(2)] p(1) by (simp add: stopped_def)
next
  fix p
  assume p: "stopped cfg p" "\<not> over p"
  have "own (helper p)" using p(2) by (cases "pr_main p") (auto simp: own_def helper_def)
  with helper_steps [OF p] show "own (helper p) \<and> (\<exists>p'. proc_step cfg h srt envs menv (helper p) p p')" by blast
  show "to_do p' < to_do p" if "proc_step cfg h srt envs menv (helper p) p p'" for p' using helper_lowers [OF that p] .
qed

lemma proc_reach_run:
  assumes "fair_run (proc_step cfg h srt envs menv) own run act" "proc_reach cfg h srt envs menv (run 0)"
  shows "proc_reach cfg h srt envs menv (run i)"
  by (rule fair_run_keeps [OF assms(1), of "proc_reach cfg h srt envs menv" 0]) (auto intro: proc_reach.goes_on assms(2))

section \<open>What stopping does not do\<close>

text \<open>A signal before the first statement of \<^verbatim>\<open>run\<close> is lost; a process none of whose listeners could be
  made goes on as long as its metrics server does.\<close>

lemma early_stop_is_lost: "pr_main p = Entering \<Longrightarrow> main_step (stop p) = main_step p"
  by (simp add: main_step_def stop_def)

lemma failed_workers_keep_process:
  "pr_main p = JoiningMetrics \<Longrightarrow> set (pr_workers p) \<subseteq> {Gone} \<Longrightarrow> pr_metrics p = Going () \<Longrightarrow> main_step p = None"
  by (simp add: main_step_def)

text \<open>Nothing waits for the detached revalidations: the process may return with all of them pending.\<close>

lemma helper_server:
  assumes "proc_step cfg h srt envs menv (helper p) p p'" "stopped cfg p" "\<not> over p"
  shows "pr_server p' = pr_server p"
proof -
  have own: "own (helper p)" using stopping.helps [OF assms(2,3)] by simp
  have main: "pr_server p' = pr_server p" if "main_step p = Some p'"
    using that by (cases "pr_main p") (auto simp: main_step_def put_worker_def split: if_splits)
  have flag: "pr_main p = JoiningSub \<Longrightarrow> \<not> pr_coRunning p" "pr_main p = JoiningPoll \<Longrightarrow> \<not> pr_coRunning p"
    using assms(2) by (auto simp: stopped_def staged_def)
  have who: "helper p = Sub_thread \<Longrightarrow> pr_main p = JoiningSub" "helper p = Poll_thread \<Longrightarrow> pr_main p = JoiningPoll"
    using assms(3) by (cases "pr_main p"; auto simp: helper_def over_def main_step_def split: if_splits)+
  from assms(1) show ?thesis
    by cases (use main flag who own assms(2) in \<open>auto simp: own_def stopped_def put_worker_def\<close>)
qed

lemma stop_leaves_jobs:
  assumes "proc_reach cfg h srt envs menv p" "stopped cfg p"
  shows "\<exists>p'. proc_reach cfg h srt envs menv p' \<and> over p' \<and> w_jobs (sv_world (pr_server p')) = w_jobs (sv_world (pr_server p))"
proof -
  obtain run act where r: "run 0 = p" "fair_run (proc_step cfg h srt envs menv) own run act"
    "\<forall>i. fair_ending.helped (proc_step cfg h srt envs menv) over helper p (run i)"
    using stopping.fair_run_exists [OF assms(2)] by blast
  obtain j where j: "over (run j)" using stopping.ends [OF r(2), of 0] r(1) assms(2) by auto
  have "pr_server t = pr_server s" if "fair_ending.helped (proc_step cfg h srt envs menv) over helper s t" "stopped cfg s" for s t
    using that
  proof (induction rule: stopping.helped.induct)
    case (further s s' t)
    with helper_server [OF further(2)] stopped_step [OF further(2)] show ?case by simp
  qed simp
  with r(3) assms(2) have "pr_server (run j) = pr_server p" by blast
  with j proc_reach_run [OF r(2)] r(1) assms(1) show ?thesis by metis
qed

section \<open>Properties\<close>



text \<open>A process that has started its threads, whose only worker is at work.\<close>

fun main_run :: "nat \<Rightarrow> proxy_process \<Rightarrow> proxy_process option" where
  "main_run 0 p = Some p"
| "main_run (Suc n) p = (case main_step p of None \<Rightarrow> None | Some p \<Rightarrow> main_run n p)"

lemma main_run_reach: "proc_reach cfg h srt envs menv p \<Longrightarrow> main_run n p = Some p' \<Longrightarrow> proc_reach cfg h srt envs menv p'"
proof (induction n arbitrary: p)
  case (Suc n)
  then obtain q where "main_step p = Some q" "main_run n q = Some p'" by (auto split: option.splits)
  with Suc.IH [OF proc_reach.goes_on [OF Suc.prems(1) proc_step.main]] show ?case by blast
qed simp

definition started :: proxy_process where
  "started = \<lparr>pr_server = server1, pr_workers = [Opening], pr_metrics = Opening, pr_sub = Going (), pr_poll = Going (),
     pr_running = True, pr_coRunning = True, pr_main = Joining 0\<rparr>"

definition at_work1 :: proxy_process where
  "at_work1 = put_worker 0 (Going (\<lambda>fd. None)) started"

lemma at_work1_reach: "proc_reach one_worker quiet_hash by_length (\<lambda>i. (good_env, True)) good_env at_work1"
proof -
  let ?reach = "proc_reach one_worker quiet_hash by_length (\<lambda>i. (good_env, True)) good_env"
  have "?reach (process_begin one_worker server1)"
    unfolding server1_def by (rule proc_reach.begins) (simp add: one_worker_def default_config_def)
  moreover have "main_run 7 (process_begin one_worker server1) = Some started"
    by (simp add: numeral_eq_Suc main_step_def process_begin_def started_def put_worker_def one_worker_def)
  ultimately have s: "?reach started" by (rule main_run_reach)
  have w: "worker_start one_worker (good_env, True) = Some (\<lambda>fd. None)"
    by (simp add: worker_start_def one_worker_def good_env_def createReusePortListener_def setNonBlocking_def
        bind_address_def Let_def default_config_def)
  from proc_reach.goes_on [OF s proc_step.opens [of 0 started]] w show ?thesis
    by (simp add: at_work1_def at_work_def) (simp add: started_def)
qed



end
