(* ===== verification/Reaching.thy ===== *)
theory Reaching
  imports ServerProperties
begin

text \<open>
  What holds in every state the server reaches under further assumptions: \<open>reach_when\<close> is \<open>sv_reach\<close>
  with a condition \<open>E\<close> on what the other threads do while a request waits and a condition \<open>V\<close> on
  each request. An invariant of the world has to be kept by the requests, the revalidations, the
  purges and the sweeps; the locale \<open>world_invariant\<close> is that contract.
\<close>

inductive reach_when :: "config \<Rightarrow> (string \<Rightarrow> u64) \<Rightarrow> (rule list \<Rightarrow> rule list) \<Rightarrow>
    (fetcher \<Rightarrow> (nat \<Rightarrow> world \<Rightarrow> world option) \<Rightarrow> bool) \<Rightarrow> (http_request \<Rightarrow> world \<Rightarrow> bool) \<Rightarrow> server \<Rightarrow> bool"
  for cfg h srt E V where
  started: "(cf_l2Enabled cfg \<Longrightarrow> tame volume l2conn) \<Longrightarrow>
    reach_when cfg h srt E V (new_server cfg sub poll l2conn now clk wall)"
| request: "reach_when cfg h srt E V sv \<Longrightarrow> E fetch wait \<Longrightarrow> V req (sv_world sv) \<Longrightarrow>
    serve cfg fetch wait h req sv = Some (resp, sv') \<Longrightarrow> reach_when cfg h srt E V sv'"
| job: "reach_when cfg h srt E V sv \<Longrightarrow> E fetch wait \<Longrightarrow> w_jobs (sv_world sv) = js @ j # ks \<Longrightarrow>
    revalidate cfg (sv_policy cfg sv) fetch h j ((sv_world sv)\<lparr>w_jobs := js @ ks\<rparr>) = Some w \<Longrightarrow>
    reach_when cfg h srt E V (sv\<lparr>sv_world := w\<rparr>)"
| background: "reach_when cfg h srt E V sv \<Longrightarrow> bg_step cfg srt sv sv' \<Longrightarrow> reach_when cfg h srt E V sv'"

locale world_invariant =
  fixes cfg :: config and h :: "string \<Rightarrow> u64"
    and E :: "fetcher \<Rightarrow> (nat \<Rightarrow> world \<Rightarrow> world option) \<Rightarrow> bool"
    and V :: "http_request \<Rightarrow> world \<Rightarrow> bool" and I :: "world \<Rightarrow> bool"
  assumes env: "E fetch wait \<Longrightarrow> environment h (sv_caps cfg) (cf_l2Enabled cfg) fetch wait"
    and at_start: "I (new_world cfg l2conn clk wall)"
    and by_request: "E fetch wait \<Longrightarrow> sound h (sv_caps cfg) (cf_l2Enabled cfg) w \<Longrightarrow> I w \<Longrightarrow> V req w \<Longrightarrow>
      handle cfg decide fetch wait h req w = Some (resp, w') \<Longrightarrow> I w'"
    and by_job: "E fetch wait \<Longrightarrow> sound h (sv_caps cfg) (cf_l2Enabled cfg) w \<Longrightarrow> I w \<Longrightarrow> w_jobs w = js @ j # ks \<Longrightarrow>
      revalidate cfg decide fetch h j (w\<lparr>w_jobs := js @ ks\<rparr>) = Some w' \<Longrightarrow> I w'"
    and by_purge: "sound h (sv_caps cfg) (cf_l2Enabled cfg) w \<Longrightarrow> I w \<Longrightarrow> I (snd (purgeAllShards p w))"
    and by_sweep: "sound h (sv_caps cfg) (cf_l2Enabled cfg) w \<Longrightarrow> I w \<Longrightarrow>
      I (w\<lparr>w_cache := fst (sharded_sweepExpired (w_cache w) now)\<rparr>)"
    and by_clock: "I w \<Longrightarrow> I (snd (clock w))"
begin

lemma reaches: "reach_when cfg h srt E V sv \<Longrightarrow> sv_reach cfg h srt sv"
proof (induction rule: reach_when.induct)
  case (request sv fetch wait req resp sv')
  from sv_reach.moved [OF request.IH sv_step.request [OF env [OF request.hyps(2)] request.hyps(4)]] show ?case .
next
  case (job sv fetch wait js j ks w)
  from sv_reach.moved [OF job.IH sv_step.job [OF env [OF job.hyps(2)] job.hyps(3,4)]] show ?case .
next
  case (background sv sv')
  then show ?case by (blast intro: sv_reach.moved sv_step.background)
qed (rule sv_reach.started)

lemma by_background:
  assumes "bg_step cfg srt sv sv'" "sound h (sv_caps cfg) (cf_l2Enabled cfg) (sv_world sv)" "I (sv_world sv)"
  shows "I (sv_world sv')"
  using assms(1)
proof cases
  case (message co w)
  with subscriber_effect [OF message(2)] by_purge [OF assms(2,3)] assms(3) show ?thesis by auto
next
  case (tick i)
  have "sound h (sv_caps cfg) (cf_l2Enabled cfg) (snd (clock (sv_world sv)))" "I (snd (clock (sv_world sv)))"
    using assms(2) by_clock [OF assms(3)] by simp_all
  from by_sweep [OF this] this(2) assms(3) tick show ?thesis
    by (simp add: on_tick_def case_prod_beta sweep_tick_def Let_def)
qed (use assms(3) in simp)

lemma holds:
  assumes "sized_config cfg"
  shows "reach_when cfg h srt E V sv \<Longrightarrow> I (sv_world sv)"
proof (induction rule: reach_when.induct)
  case (started l2conn sub poll now clk wall)
  show ?case using at_start by (simp add: new_server_def)
next
  case (request sv fetch wait req resp sv')
  from by_request [OF request.hyps(2) sv_reach_sound [OF assms reaches [OF request.hyps(1)]] request.IH request.hyps(3)]
    request.hyps(4) show ?case by (auto simp: serve_def split: option.splits)
next
  case (job sv fetch wait js j ks w)
  from by_job [OF job.hyps(2) sv_reach_sound [OF assms reaches [OF job.hyps(1)]] job.IH job.hyps(3,4)] show ?case by simp
next
  case (background sv sv')
  from by_background [OF background.hyps(2) sv_reach_sound [OF assms reaches [OF background.hyps(1)]] background.IH]
  show ?case .
qed

end

text \<open>With no further condition these are the states the server reaches.\<close>

interpretation every: world_invariant cfg h "environment h (sv_caps cfg) (cf_l2Enabled cfg)" "\<lambda>req w. True" "\<lambda>w. True"
  for cfg h
  by (rule world_invariant.intro) auto

lemma sv_reach_when:
  "reach_when cfg h srt (environment h (sv_caps cfg) (cf_l2Enabled cfg)) (\<lambda>req w. True) sv \<longleftrightarrow> sv_reach cfg h srt sv"
proof
  assume "sv_reach cfg h srt sv"
  then show "reach_when cfg h srt (environment h (sv_caps cfg) (cf_l2Enabled cfg)) (\<lambda>req w. True) sv"
  proof (induction rule: sv_reach.induct)
    case (moved sv sv')
    from moved(2) show ?case
    proof cases
      case (request fetch wait req resp)
      with reach_when.request [OF moved.IH] show ?thesis by blast
    next
      case (job fetch wait js j ks w)
      with reach_when.job [OF moved.IH] show ?thesis by blast
    next
      case background
      with reach_when.background [OF moved.IH] show ?thesis by blast
    qed
  qed (rule reach_when.started)
qed (rule every.reaches)

section \<open>Another client in the meantime\<close>

text \<open>While a request waits for the origin, another one is answered.\<close>

definition answered_meanwhile :: "config \<Rightarrow> decider \<Rightarrow> (string \<Rightarrow> u64) \<Rightarrow> http_request \<Rightarrow>
    (http_request \<Rightarrow> origin_target \<Rightarrow> origin_result) \<Rightarrow> fetcher" where
  "answered_meanwhile cfg decide h other origin req t w = (origin req t,
     (case handle cfg decide (calm origin) (\<lambda>s. Some) h other w of None \<Rightarrow> w | Some (resp, w') \<Rightarrow> w'))"

lemma answered_environment:
  assumes "modest cfg decide"
  shows "environment h caps tier (answered_meanwhile cfg decide h other (origin_over net)) (\<lambda>s. Some)"
proof
  fix w req t
  assume "sound h caps tier w"
  from http_origin.handle_sound [OF this assms, of net other]
  show "sound h caps tier (snd (answered_meanwhile cfg decide h other (origin_over net) req t w))"
    by (auto simp: answered_meanwhile_def)
qed (auto simp: answered_meanwhile_def slots_grow_def dest: origin_over_good)

end
