(* ===== verification/Provenance.thy ===== *)
theory Provenance
  imports Reaching
begin

text \<open>
  Where an answer comes from. \<open>G k r\<close> says that the origin has given \<open>r\<close> for a request whose cache key
  is \<open>k\<close>. The invariant \<open>honest\<close> says that every cached copy, every published answer and every
  revalidation belongs to its key; the locale \<open>honest_environment\<close> extends \<open>environment\<close> by
  what the other threads keep of it. Every slot has the key it was made for as a ghost (\<open>ks\<close>).
\<close>

section \<open>Answers for a key\<close>

text \<open>The same answer up to the headers the proxy sets itself.\<close>

definition same :: "http_response \<Rightarrow> http_response \<Rightarrow> bool" where
  "same r r' \<longleftrightarrow> resp_status r' = resp_status r \<and> resp_reason r' = resp_reason r \<and> resp_body r' = resp_body r \<and>
     (\<forall>n. \<not> own_header n \<longrightarrow> hfind (resp_headers r') n = hfind (resp_headers r) n)"

definition given :: "(string \<Rightarrow> http_response \<Rightarrow> bool) \<Rightarrow> string \<Rightarrow> http_response \<Rightarrow> bool" where
  "given G k r' \<longleftrightarrow> (\<exists>r. G k r \<and> same r r')"

text \<open>What a request can be told: an answer of the origin, the failure the proxy makes up, or the empty
  answer that a failed revalidation publishes.\<close>

definition good :: "(string \<Rightarrow> http_response \<Rightarrow> bool) \<Rightarrow> string \<Rightarrow> http_response \<Rightarrow> bool" where
  "good G k r \<longleftrightarrow> given G k r \<or> (\<exists>rejected. same (origin_failure rejected) r) \<or> same empty_response r"

lemma same_refl [simp]: "same r r"
  by (simp add: same_def)

lemma same_trans: "same a b \<Longrightarrow> same b c \<Longrightarrow> same a c"
  by (simp add: same_def)

lemma same_decorate: "hinv (resp_headers r) \<Longrightarrow> same r (decorate r x cfg p)"
  using decorate_header(5) [of r] by (simp add: same_def)

lemma same_own: "hinv (resp_headers r) \<Longrightarrow> own_header n \<Longrightarrow> same r (r\<lparr>resp_headers := hset (resp_headers r) n v\<rparr>)"
  by (auto simp: same_def hfind_hset own_header_def)

lemma given_same: "given G k r \<Longrightarrow> same r r' \<Longrightarrow> given G k r'"
  unfolding given_def by (meson same_trans)

lemma good_same: "good G k r \<Longrightarrow> same r r' \<Longrightarrow> good G k r'"
  unfolding good_def by (meson same_trans given_same)

lemma given_good: "given G k r \<Longrightarrow> good G k r"
  by (simp add: good_def)

lemma good_failure: "good G k (origin_failure rejected)" "good G k empty_response"
  unfolding good_def by (blast intro: same_refl)+

lemma entry_response: "same resp (toResponse (entryFrom now resp d))"
  by (simp add: same_def toResponse_def entryFrom_def empty_response_def)

section \<open>The invariant\<close>

definition honest :: "config \<Rightarrow> (string \<Rightarrow> http_response \<Rightarrow> bool) \<Rightarrow> (string \<Rightarrow> u64) \<Rightarrow> string list \<Rightarrow> world \<Rightarrow> bool" where
  "honest cfg G h ks w \<longleftrightarrow> length ks = length (slots_of w) \<and>
     (\<forall>k s. if_table (w_inflight w) k = Some s \<longrightarrow> s < length ks \<and> ks ! s = k) \<and>
     (\<forall>k e. stored h w k = Some e \<longrightarrow> given G k (toResponse e)) \<and>
     (\<forall>s < length ks. good G (ks ! s) (sl_response (slots_of w ! s)) \<and>
       (sl_success (slots_of w ! s) \<longrightarrow> given G (ks ! s) (sl_response (slots_of w ! s)))) \<and>
     (\<forall>job \<in> set (w_jobs w). snd job = request_key cfg (fst job))"

lemma honest_cong:
  "stored h w' = stored h w \<Longrightarrow> w_inflight w' = w_inflight w \<Longrightarrow> w_jobs w' = w_jobs w \<Longrightarrow>
     honest cfg G h ks w' = honest cfg G h ks w"
  by (simp add: honest_def slots_of_def)

lemma honest_frame [simp]:
  "honest cfg G h ks (snd (clock w)) = honest cfg G h ks w"
  "honest cfg G h ks (count_metric f w) = honest cfg G h ks w"
  "honest cfg G h ks (snd (served resp w)) = honest cfg G h ks w"
  "honest cfg G h ks (snd (wall_clock w)) = honest cfg G h ks w"
  "honest cfg G h ks (w\<lparr>w_log := evs\<rparr>) = honest cfg G h ks w"
  "honest cfg G h ks (snd (breaker_op host f' w)) = honest cfg G h ks w"
  by (rule honest_cong; simp add: stored_def)+

lemma honest_stored: "honest cfg G h ks w \<Longrightarrow> stored h w k = Some e \<Longrightarrow> given G k (toResponse e)"
  by (simp add: honest_def)

text \<open>The cache may lose copies and gain one that is given for its key.\<close>

lemma honest_cache:
  assumes "honest cfg G h ks w" "stored h w' \<subseteq>\<^sub>m (stored h w)(key := x)" "\<And>e. x = Some e \<Longrightarrow> given G key (toResponse e)"
    and "w_inflight w' = w_inflight w" "w_jobs w' = w_jobs w"
  shows "honest cfg G h ks w'"
proof -
  have "given G k (toResponse e)" if "stored h w' k = Some e" for k e
  proof -
    have "((stored h w)(key := x)) k = Some e" using that assms(2) by (force simp: map_le_def)
    with assms(1,3) show ?thesis by (auto simp: honest_def split: if_splits)
  qed
  with assms(1,4,5) show ?thesis by (auto simp: honest_def slots_of_def)
qed

lemma honest_maybeStore:
  assumes "sound h caps tier w" "honest cfg G h ks w" "resp_bytes resp < 2 ^ 61" "given G (request_key cfg req) resp"
    and "maybeStore cfg decide h req resp w = Some w'"
  shows "honest cfg G h ks w'"
proof (cases "isCacheableMethod req")
  case True
  have room: "roomy w (entry_of decide req resp w)" using sound_roomy [OF assms(1) entry_small [OF assms(3)]] .
  have "world_ok h w" using assms(1) by (simp add: sound_def)
  from maybeStore_step [of h w req decide resp cfg, OF this True room] assms(5) have
    w': "stored h w' \<subseteq>\<^sub>m (if d_cacheable (decide (req_path req) resp)
      then (stored h w)(request_key cfg req \<mapsto> entry_of decide req resp w) else stored h w)"
    "w_inflight w' = w_inflight w" "w_jobs w' = w_jobs w" by auto
  show ?thesis
  proof (cases "d_cacheable (decide (req_path req) resp)")
    case True
    with w' assms(2,4) show ?thesis
      by (intro honest_cache [of cfg G h ks w w' "request_key cfg req" "Some (entry_of decide req resp w)"])
        (auto simp: entry_of_def intro: given_same entry_response)
  next
    case False
    with w' assms(2) show ?thesis
      by (intro honest_cache [of cfg G h ks w w' "[]" "stored h w []"]) (auto simp: honest_def)
  qed
qed (use assms in \<open>simp add: maybeStore_def\<close>)

lemma honest_acquire:
  assumes "honest cfg G h ks w" "acquire key (w_inflight w) = ((leader, s), st)"
  shows "\<exists>ks'. prefix ks ks' \<and> honest cfg G h ks' (w\<lparr>w_inflight := st\<rparr>) \<and> s < length ks' \<and> ks' ! s = key"
proof (cases "if_table (w_inflight w) key")
  case None
  have "honest cfg G h (ks @ [key]) (w\<lparr>w_inflight := st\<rparr>)"
    using assms None good_failure(2) [of G key]
    by (auto simp: honest_def slots_of_def acquire_def Let_def nth_append new_slot_def stored_def less_Suc_eq split: if_splits)
  moreover have "s = length ks" using assms None by (auto simp: honest_def slots_of_def acquire_def Let_def)
  ultimately show ?thesis by (intro exI [of _ "ks @ [key]"]) simp
next
  case (Some t)
  with assms show ?thesis
    by (intro exI [of _ ks]) (auto simp: honest_def slots_of_def acquire_def stored_def)
qed

lemma honest_publish:
  assumes "honest cfg G h ks w" "good G key resp" "ok \<Longrightarrow> given G key resp"
  shows "honest cfg G h ks (publish_slot key resp ok w)"
proof (cases "if_table (w_inflight w) key")
  case None
  then show ?thesis using assms(1) by (simp add: publish_slot_def publish_def publish_take_def)
next
  case (Some s)
  then have s: "s < length ks" "ks ! s = key" using assms(1) by (auto simp: honest_def)
  with Some assms show ?thesis
    by (auto simp: honest_def slots_of_def stored_def publish_slot_def publish_def publish_take_def publish_set_def
        nth_list_update split: if_splits)
qed

section \<open>The handler\<close>

definition told :: "config \<Rightarrow> (string \<Rightarrow> http_response \<Rightarrow> bool) \<Rightarrow> (string \<Rightarrow> u64) \<Rightarrow> string list \<Rightarrow> string \<Rightarrow>
    (http_response \<times> world) option \<Rightarrow> bool" where
  "told cfg G h ks key r \<longleftrightarrow> (\<forall>resp w. r = Some (resp, w) \<longrightarrow>
     good G key resp \<and> (\<exists>ks'. prefix ks ks' \<and> honest cfg G h ks' w))"

lemma told_served: "told cfg G h ks key (Some (served resp w)) \<longleftrightarrow>
    good G key resp \<and> (\<exists>ks'. prefix ks ks' \<and> honest cfg G h ks' w)"
  by (simp add: told_def served_def)

lemma told_later: "told cfg G h ks' key r \<Longrightarrow> prefix ks ks' \<Longrightarrow> told cfg G h ks key r"
  unfolding told_def using prefix_order.trans [of ks ks'] by fast

lemma good_decorate: "hinv (resp_headers r) \<Longrightarrow> good G k r \<Longrightarrow> good G k (decorate r x cfg p)"
  by (rule good_same [OF _ same_decorate])

lemma given_decorate: "hinv (resp_headers r) \<Longrightarrow> given G k r \<Longrightarrow> given G k (decorate r x cfg p)"
  by (rule given_same [OF _ same_decorate])

text \<open>What the shared tier holds under a key was given for it. Other replicas write it too, so this is
  relied on; \<open>written_vouched\<close> below says that what a replica writes keeps the promise.\<close>

definition vouched :: "config \<Rightarrow> (string \<Rightarrow> http_response \<Rightarrow> bool) \<Rightarrow> string \<Rightarrow> conn option \<Rightarrow> bool" where
  "vouched cfg G key l2 \<longleftrightarrow> (\<forall>c wall now e c'. l2 = Some c \<longrightarrow> l2_get cfg wall now key c = Some (Some e, c') \<longrightarrow>
     given G key (toResponse e))"

lemma vouched_None [simp]: "vouched cfg G key None"
  by (simp add: vouched_def)

text \<open>A replica writes what it was given itself (\<open>writes_given\<close>), and a connection over which Redis
  returns such a blob, at whatever time, is as good.\<close>

lemma writes_given: "given G (request_key cfg req) resp \<Longrightarrow> given G (request_key cfg req) (toResponse (entry_of decide req resp w))"
  unfolding entry_of_def by (rule given_same [OF _ entry_response])

lemma revive_response: "deserialize blob = Some (e, t, ttl) \<Longrightarrow> revive wall now blob = Some e' \<Longrightarrow> toResponse e' = toResponse e"
  by (auto simp: revive_def Let_def toResponse_def split: if_splits)

lemma written_vouched:
  assumes "ensureConnected cfg c = Some (True, c1)" "c_open c1" "c_sends c1 = []"
    and "delivers c1 (wire (bulk (l2_serialize wall0 e)) @ rest)"
    and "int32 (ce_status e)" "hinv (ce_headers e)" "length (l2_serialize wall0 e) < 2 ^ 63" "given G key (toResponse e)"
  shows "vouched cfg G key (Some c)"
  unfolding vouched_def
proof (intro allI impI)
  fix c0 wall now e' c'
  assume "Some c = Some c0" and get: "l2_get cfg wall now key c0 = Some (Some e', c')"
  let ?blob = "l2_serialize wall0 e"
  have "reply_ok (bulk ?blob)" using assms(7) by (simp add: bulk_def)
  from command_delivers [OF assms(2,3) this assms(4)] obtain c2
    where "command [''GET'', keyFor cfg key] c1 = Some (bulk ?blob, c2)" by blast
  with get \<open>Some c = Some c0\<close> assms(1) have "revive wall now ?blob = Some e'"
    by (simp add: l2_get_def bulk_def isError_def split: if_splits)
  from revive_response [OF deserialize_serialize [OF assms(5-7)] this] assms(8)
  show "given G key (toResponse e')" by (simp add: toResponse_def)
qed

lemma l2_lookup_told:
  assumes "vouched cfg G key (w_l2 w)" "l2_lookup cfg key w = Some (e, w')"
  shows "honest cfg G h ks w' = honest cfg G h ks w" "\<And>x. e = Some x \<Longrightarrow> given G key (toResponse x)"
proof -
  have "stored h w' = stored h w \<and> w_inflight w' = w_inflight w \<and> w_jobs w' = w_jobs w"
    using assms(2) by (auto simp: l2_lookup_def Let_def case_prod_beta stored_def split: option.splits bind_splits)
  then show "honest cfg G h ks w' = honest cfg G h ks w" by (intro honest_cong) simp_all
  show "given G key (toResponse x)" if e: "e = Some x" for x
  proof -
    obtain c wall now c' where "w_l2 w = Some c" "l2_get cfg wall now key c = Some (Some x, c')"
      using assms(2) e by (auto simp: l2_lookup_def Let_def case_prod_beta split: option.splits bind_splits)
    with assms(1) show ?thesis unfolding vouched_def by blast
  qed
qed

lemma honest_l2_store:
  assumes "l2_store cfg key e ttl w = Some w'"
  shows "honest cfg G h ks w' = honest cfg G h ks w"
proof -
  have "stored h w' = stored h w \<and> w_inflight w' = w_inflight w \<and> w_jobs w' = w_jobs w"
    using assms by (auto simp: l2_store_def Let_def case_prod_beta stored_def split: option.splits bind_splits)
  then show ?thesis by (intro honest_cong) simp_all
qed

lemma storeTiers_split:
  assumes "storeTiers cfg decide h req resp w = Some w'"
  shows "\<exists>w1. maybeStore cfg decide h req resp w = Some w1 \<and>
    (w' = w1 \<or> l2_store cfg (request_key cfg req) (entry_of decide req resp w) (d_ttl (decide (req_path req) resp)) w1 = Some w')"
  using assms by (auto simp: storeTiers_def maybeStore_def entry_of_def Let_def case_prod_beta clock_def split: if_splits bind_splits)

lemma honest_storeTiers:
  assumes "sound h caps tier w" "honest cfg G h ks w" "resp_bytes resp < 2 ^ 61" "given G (request_key cfg req) resp"
    and "storeTiers cfg decide h req resp w = Some w'"
  shows "honest cfg G h ks w'"
proof -
  obtain w1 where w1: "maybeStore cfg decide h req resp w = Some w1"
    "w' = w1 \<or> l2_store cfg (request_key cfg req) (entry_of decide req resp w) (d_ttl (decide (req_path req) resp)) w1 = Some w'"
    using storeTiers_split [OF assms(5)] by blast
  have "honest cfg G h ks w1" by (rule honest_maybeStore [OF assms(1-4) w1(1)])
  with w1(2) honest_l2_store show ?thesis by blast
qed

lemma honest_put:
  assumes "sound h caps tier w" "honest cfg G h ks w" "unat (sizeBytes e) < 2 ^ 63" "given G key (toResponse e)"
    and "cache_put h key e w = Some w'"
  shows "honest cfg G h ks w'"
proof -
  have ok: "world_ok h w" "roomy w e" using assms(1) sound_roomy [OF assms(1,3)] by (simp_all add: sound_def)
  from cache_put_step [OF ok, of key] assms(5)
  have "stored h w' \<subseteq>\<^sub>m (stored h w)(key \<mapsto> e)" "w_inflight w' = w_inflight w" "w_jobs w' = w_jobs w"
    by (auto simp: cache_put_def split: bind_splits)
  with assms(2,4) show ?thesis by (intro honest_cache [of cfg G h ks w w' key "Some e"]) auto
qed

lemma lead_from_l2_told:
  assumes "sound h caps tier w" "honest cfg G h ks w" "fit e" "given G key (toResponse e)"
  shows "told cfg G h ks key (lead_from_l2 cfg h key e w)"
proof (cases "cache_put h key e w")
  case (Some w1)
  let ?r = "(toResponse e)\<lparr>resp_headers := hset (resp_headers (toResponse e)) ''Age'' ''0''\<rparr>"
  let ?d = "decorate ?r ''HIT'' cfg ''l2''"
  let ?p = "?d\<lparr>resp_headers := hset (resp_headers ?d) ''X-Cache-Tier'' ''L2''\<rparr>"
  have hi: "hinv (resp_headers (toResponse e))" using assms(3) by (simp add: fit_def)
  have "same (toResponse e) ?r" using hi by (intro same_own) (simp_all add: own_header_def)
  moreover have "same ?r ?d" using hi by (intro same_decorate) (simp add: hinv_hset)
  moreover have "same ?d ?p" using hi by (intro same_own) (simp_all add: own_header_def hinv_hset decorate_inv)
  ultimately have "given G key ?p" using assms(4) by (meson given_same)
  moreover have "honest cfg G h ks w1" by (rule honest_put [OF assms(1,2) fit_size [OF assms(3)] assms(4) Some])
  ultimately show ?thesis
    using Some by (auto simp: lead_from_l2_def Let_def told_served intro!: exI [of _ ks] honest_publish intro: given_good)
qed (simp add: lead_from_l2_def told_def)

locale honest_environment = environment h caps tier fetch wait
  for h :: "string \<Rightarrow> u64" and caps :: "u64 list" and tier :: bool and fetch :: fetcher and wait :: "nat \<Rightarrow> world \<Rightarrow> world option" +
  fixes cfg :: config and G :: "string \<Rightarrow> http_response \<Rightarrow> bool"
  assumes fetch_honest: "sound h caps tier w \<Longrightarrow> honest cfg G h ks w \<Longrightarrow>
      \<exists>ks'. prefix ks ks' \<and> honest cfg G h ks' (snd (fetch req t w))"
    and fetch_given: "or_ok (fst (fetch req t w)) \<Longrightarrow> G (request_key cfg req) (or_response (fst (fetch req t w)))"
    and wait_honest: "sound h caps tier w \<Longrightarrow> honest cfg G h ks w \<Longrightarrow> wait s w = Some w' \<Longrightarrow>
      \<exists>ks'. prefix ks ks' \<and> honest cfg G h ks' w'"
begin

lemma guarded_honest:
  assumes "sound h caps tier w" "honest cfg G h ks w" "fetchGuarded fetch req t w = ((r, rejected), w1)"
  shows "\<exists>ks'. prefix ks ks' \<and> honest cfg G h ks' w1" "or_ok r \<Longrightarrow> given G (request_key cfg req) (or_response r)"
proof -
  let ?asked = "snd (clock (snd (breaker_op (ot_host t) (allowRequest (w_clock w (w_reads w))) (snd (clock w)))))"
  have reg: "registry_inv (w_breakers w)" using assms(1) by (rule sound_registry)
  have asked: "sound h caps tier ?asked" "honest cfg G h ks ?asked" using assms(1,2) by (simp_all add: sound_breaker_op)
  have "(\<exists>ks'. prefix ks ks' \<and> honest cfg G h ks' w1) \<and> (or_ok r \<longrightarrow> given G (request_key cfg req) (or_response r))"
  proof (cases "allowed (ot_host t) w")
    case True
    then show ?thesis
      using assms(3) fetch_honest [OF asked, of req t] fetch_given [of req t ?asked]
      by (auto simp: fetchGuarded_asks [OF reg True] case_prod_beta Let_def given_def split: if_splits intro: same_refl)
  next
    case False
    with assms show ?thesis by (auto simp: fetchGuarded_open [OF reg False] no_result_def)
  qed
  then show "\<exists>ks'. prefix ks ks' \<and> honest cfg G h ks' w1" "or_ok r \<Longrightarrow> given G (request_key cfg req) (or_response r)"
    by blast+
qed

lemma lead_from_origin_told:
  assumes "sound h caps tier w" "honest cfg G h ks w" "key = request_key cfg req"
    and "\<And>e. cached = Some e \<Longrightarrow> given G key (toResponse e) \<and> hinv (ce_headers e)"
  shows "told cfg G h ks key (lead_from_origin cfg decide fetch h req key cached now w)"
proof -
  obtain r rejected w1 where f: "fetchGuarded fetch req (targetFor cfg (req_path req)) w = ((r, rejected), w1)"
    by (metis surj_pair)
  have w1: "sound h caps tier w1" "or_ok r \<Longrightarrow> resp_bytes (or_response r) < 2 ^ 61 \<and> hinv (resp_headers (or_response r))"
    using guarded_sound [OF assms(1), of req "targetFor cfg (req_path req)"] f by fastforce+
  obtain ks1 where ks1: "prefix ks ks1" "honest cfg G h ks1 w1" using guarded_honest(1) [OF assms(1,2) f] by blast
  have "told cfg G h ks1 key (lead_from_origin cfg decide fetch h req key cached now w)"
  proof (cases "or_ok r")
    case True
    note g = guarded_honest(2) [OF assms(1,2) f True]
    show ?thesis
    proof (cases "storeTiers cfg decide h req (or_response r) w1")
      case None
      with f True show ?thesis by (simp add: lead_from_origin_def told_def Let_def)
    next
      case (Some w2)
      have "honest cfg G h ks1 w2" using honest_storeTiers [OF w1(1) ks1(2) _ g Some] w1(2) [OF True] by blast
      with f True Some g w1(2) [OF True] assms(3) show ?thesis
        by (auto simp: lead_from_origin_def Let_def told_served intro!: exI [of _ ks1] honest_publish
            intro: given_good given_decorate)
    qed
  next
    case False
    have fail: "good G key (decorate (origin_failure rejected) x cfg p)" for x p
      by (intro good_decorate good_failure failure_inv)
    have stale: "good G key (decorate (toResponse e) x cfg p)" if "cached = Some e" for e x p
      using assms(4) [OF that] by (intro good_decorate given_good) simp_all
    show ?thesis
      using f False ks1 fail stale
      by (auto simp: lead_from_origin_def Let_def told_served intro!: exI [of _ ks1] honest_publish split: option.split)
  qed
  then show ?thesis by (rule told_later [OF _ ks1(1)])
qed

lemma lead_told:
  assumes "sound h caps tier w" "honest cfg G h ks w" "key = request_key cfg req" "vouched cfg G key (w_l2 w)"
    and "\<And>e. cached = Some e \<Longrightarrow> given G key (toResponse e) \<and> hinv (ce_headers e)"
  shows "told cfg G h ks key (lead cfg decide fetch h req key cached now w)"
proof -
  obtain e w1 where w1: "l2_lookup cfg key w = Some (e, w1)" "sound h caps tier w1" "\<forall>x. e = Some x \<longrightarrow> fit x"
    using sound_l2_lookup [OF assms(1)] by blast
  note l = l2_lookup_told [OF assms(4) w1(1)]
  have h1: "honest cfg G h ks w1" using assms(2) l(1) by simp
  show ?thesis
  proof (cases e)
    case None
    then show ?thesis using lead_from_origin_told [OF w1(2) h1 assms(3,5)] w1(1) by (simp add: lead_def)
  next
    case (Some x)
    then show ?thesis using lead_from_l2_told [OF w1(2) h1 _ l(2)] w1(1,3) by (simp add: lead_def)
  qed
qed

lemma follow_told:
  assumes "sound h caps tier w" "honest cfg G h ks w" "s < length ks" "ks ! s = key" "key = request_key cfg req"
  shows "told cfg G h ks key (follow cfg decide wait h req s w)"
proof -
  obtain w1 where w1: "wait s w = Some w1" "sound h caps tier w1" "slots_grow w w1"
    using wait_sound [OF assms(1), of s] by blast
  obtain ks1 where ks1: "prefix ks ks1" "honest cfg G h ks1 w1" using wait_honest [OF assms(1,2) w1(1)] by blast
  have s1: "s < length ks1" "ks1 ! s = key"
    using ks1(1) assms(3,4) by (auto simp: prefix_def nth_append)
  then have sl: "s < length (slots_of w1)" using ks1(2) by (simp add: honest_def)
  obtain resp ok where r: "slot_result s (w_inflight w1) = (resp, ok)" by (cases "slot_result s (w_inflight w1)")
  have g: "good G key resp" "ok \<Longrightarrow> given G key resp"
    using ks1(2) s1 r by (auto simp: honest_def slot_result_def slots_of_def)
  note rs = slot_result_good [OF w1(2) sl, unfolded r fst_conv snd_conv]
  have d: "good G key (decorate resp ''MISS'' cfg ''coalesced'')" using rs(1) g(1) by (rule good_decorate)
  show ?thesis
  proof (cases ok)
    case True
    have "honest cfg G h ks1 w2" if "maybeStore cfg decide h req resp w1 = Some w2" for w2
      using honest_maybeStore [OF w1(2) ks1(2) rs(2) [OF True] _ that] g(2) [OF True] assms(5) by simp
    with w1 r True d ks1(1) show ?thesis
      by (cases "maybeStore cfg decide h req resp w1") (auto simp: follow_def Let_def told_served told_def served_def)
  qed (use w1 r d ks1 in \<open>auto simp: follow_def Let_def told_served\<close>)
qed

lemma serve_miss_told:
  assumes "sound h caps tier w" "honest cfg G h ks w" "key = request_key cfg req" "vouched cfg G key (w_l2 w)"
    and "\<And>e. cached = Some e \<Longrightarrow> given G key (toResponse e) \<and> hinv (ce_headers e)"
  shows "told cfg G h ks key (serve_miss cfg decide fetch wait h req key cached now w)"
proof -
  let ?w = "count_metric recordMiss w"
  obtain leader s st where a: "acquire key (w_inflight ?w) = ((leader, s), st)" by (metis surj_pair)
  have w: "sound h caps tier (?w\<lparr>w_inflight := st\<rparr>)" using sound_acquire [of h caps tier ?w key] assms(1) a by simp
  have "honest cfg G h ks ?w" using assms(2) by simp
  from honest_acquire [OF this a] obtain ks1 where
    ks1: "prefix ks ks1" "honest cfg G h ks1 (?w\<lparr>w_inflight := st\<rparr>)" "s < length ks1" "ks1 ! s = key" by blast
  have "told cfg G h ks1 key (serve_miss cfg decide fetch wait h req key cached now w)"
    using a lead_told [OF w ks1(2) assms(3) _ assms(5)] assms(4) follow_told [OF w ks1(2-4) assms(3)]
    by (simp add: serve_miss_def Let_def)
  then show ?thesis using ks1(1) by (rule told_later)
qed

lemma stale_told:
  assumes "honest cfg G h ks w" "key = request_key cfg req" "given G key (toResponse e)" "hinv (ce_headers e)"
  shows "told cfg G h ks key (Some (serve_stale cfg req key e w))"
proof -
  let ?w = "count_metric recordStaleServed (count_metric recordHit w)"
  obtain leader s st where a: "acquire key (w_inflight ?w) = ((leader, s), st)" by (metis surj_pair)
  have "honest cfg G h ks ?w" using assms(1) by simp
  from honest_acquire [OF this a] obtain ks1 where ks1: "prefix ks ks1" "honest cfg G h ks1 (?w\<lparr>w_inflight := st\<rparr>)" by blast
  then have "honest cfg G h ks1 (triggerRevalidation req key ?w)"
    using assms(2) a by (auto simp: triggerRevalidation_def Let_def honest_def slots_of_def stored_def)
  moreover have "good G key (decorate (toResponse e) ''STALE'' cfg [])"
    using assms(3,4) by (intro good_decorate given_good) simp_all
  ultimately show ?thesis using ks1(1) by (auto simp: serve_stale_def Let_def told_served)
qed

lemma process_told:
  assumes "sound h caps tier w" "honest cfg G h ks w" "vouched cfg G (request_key cfg req) (w_l2 w)"
  shows "told cfg G h ks (request_key cfg req) (process cfg decide fetch wait h req w)"
proof (cases "isCacheableMethod req")
  case False
  let ?w = "count_metric recordMiss w"
  obtain r rejected w1 where f: "fetchGuarded fetch req (targetFor cfg (req_path req)) ?w = ((r, rejected), w1)"
    by (metis surj_pair)
  have "sound h caps tier ?w" "honest cfg G h ks ?w" using assms by simp_all
  note g = guarded_honest [OF this f]
  have "or_ok r \<Longrightarrow> hinv (resp_headers (or_response r))"
    using guarded_sound(2) [of ?w req "targetFor cfg (req_path req)"] f assms(1) by simp
  with g f False show ?thesis
    by (auto simp: process_def pass_through_def Let_def told_served intro: good_decorate given_good good_failure failure_inv)
next
  case True
  let ?key = "request_key cfg req" and ?now = "w_clock w (w_reads w)"
  from sound_lookup [OF assms(1) True, of cfg decide fetch wait] obtain w1 where
    w1: "sound h caps tier w1" "stored h w1 = stored h w" "w_inflight w1 = w_inflight w" "w_jobs w1 = w_jobs w"
    "w_l2 w1 = w_l2 w" and p: "process cfg decide fetch wait h req w =
      (case stored h w ?key of
         Some e \<Rightarrow>
           if isFresh e ?now then Some (serve_fresh cfg e ?now w1)
           else if isServeableStale e ?now then Some (serve_stale cfg req ?key e w1)
           else serve_miss cfg decide fetch wait h req ?key (Some e) ?now w1
       | None \<Rightarrow> serve_miss cfg decide fetch wait h req ?key None ?now w1)" by blast
  have h1: "honest cfg G h ks w1" using assms(2) honest_cong [OF w1(2-4)] by simp
  have v1: "vouched cfg G ?key (w_l2 w1)" using assms(3) w1(5) by simp
  have cached: "given G ?key (toResponse e) \<and> hinv (ce_headers e)" if "stored h w ?key = Some e" for e
    using that honest_stored [OF assms(2)] sound_stored [OF assms(1)] by (simp add: stored_def)
  have fresh: "told cfg G h ks ?key (Some (serve_fresh cfg e ?now w1))" if "stored h w ?key = Some e" for e
  proof -
    let ?r = "(toResponse e)\<lparr>resp_headers := hset (resp_headers (toResponse e)) ''Age'' (show_int (to_seconds (?now - ce_storedAt e)))\<rparr>"
    have "same (toResponse e) ?r" using cached [OF that] by (intro same_own) (simp_all add: own_header_def)
    with cached [OF that] have "given G ?key ?r" by (meson given_same)
    then have "good G ?key (decorate ?r ''HIT'' cfg [])"
      using cached [OF that] by (intro good_decorate given_good) (simp_all add: hinv_hset)
    with h1 show ?thesis by (auto simp: serve_fresh_def Let_def told_served)
  qed
  show ?thesis
    unfolding p using serve_miss_told [OF w1(1) h1 refl v1] stale_told [OF h1 refl] fresh cached by (simp split: option.split)
qed

lemma handle_told:
  assumes "sound h caps tier w" "honest cfg G h ks w" "vouched cfg G (request_key cfg req) (w_l2 w)"
    and "handle cfg decide fetch wait h req w = Some (resp, w')"
  shows "good G (request_key cfg req) resp \<and> (\<exists>ks'. prefix ks ks' \<and> honest cfg G h ks' w')"
proof -
  have "sound h caps tier (snd (clock w))" "honest cfg G h ks (snd (clock w))"
    "vouched cfg G (request_key cfg req) (w_l2 (snd (clock w)))" using assms by simp_all
  note t = process_told [OF this, of decide]
  show ?thesis
  proof (cases "process cfg decide fetch wait h req (snd (clock w))")
    case (Some rw)
    then obtain resp1 w1 where p: "process cfg decide fetch wait h req (snd (clock w)) = Some (resp1, w1)" by (cases rw) simp
    with t have "good G (request_key cfg req) resp1" "\<exists>ks'. prefix ks ks' \<and> honest cfg G h ks' w1" by (auto simp: told_def)
    moreover have "resp = resp1 \<and> (\<exists>evs. w' = w1 \<or> w' = (snd (wall_clock (snd (clock w1))))\<lparr>w_log := evs\<rparr>)"
      using assms(4) p by (cases "w_log w1") (auto simp: handle_def case_prod_beta Let_def)
    ultimately show ?thesis by auto
  qed (use assms(4) in \<open>simp add: handle_def case_prod_beta\<close>)
qed

lemma revalidate_told:
  assumes "sound h caps tier w" "honest cfg G h ks w" "key = request_key cfg req"
    and "revalidate cfg decide fetch h (req, key) w = Some w'"
  shows "\<exists>ks'. honest cfg G h ks' w'"
proof -
  obtain r rejected w1 where f: "fetchGuarded fetch req (targetFor cfg (req_path req)) w = ((r, rejected), w1)"
    by (metis surj_pair)
  have w1: "sound h caps tier w1" "or_ok r \<Longrightarrow> resp_bytes (or_response r) < 2 ^ 61"
    using guarded_sound [OF assms(1), of req "targetFor cfg (req_path req)"] f by fastforce+
  obtain ks1 where ks1: "honest cfg G h ks1 w1" using guarded_honest(1) [OF assms(1,2) f] by blast
  show ?thesis
  proof (cases "or_ok r")
    case True
    note g = guarded_honest(2) [OF assms(1,2) f True]
    from assms(4) f True obtain w2 where w2: "storeTiers cfg decide h req (or_response r) w1 = Some w2"
      "w' = publish_slot key (or_response r) True w2" by (auto simp: revalidate_def split: bind_splits)
    have "honest cfg G h ks1 w2" by (rule honest_storeTiers [OF w1(1) ks1 w1(2) [OF True] g w2(1)])
    then show ?thesis unfolding w2(2) using g assms(3) by (auto intro: honest_publish given_good)
  next
    case False
    with assms(4) f have "w' = publish_slot key empty_response False w1" by (simp add: revalidate_def)
    with honest_publish [OF ks1 good_failure(2), of False] show ?thesis by auto
  qed
qed

end

section \<open>The server\<close>

text \<open>The states the server reaches when the other threads, the origin and the shared tier are honest.\<close>

abbreviation honest_reach :: "config \<Rightarrow> (string \<Rightarrow> u64) \<Rightarrow> (rule list \<Rightarrow> rule list) \<Rightarrow> (string \<Rightarrow> http_response \<Rightarrow> bool) \<Rightarrow> server \<Rightarrow> bool" where
  "honest_reach cfg h srt G \<equiv> reach_when cfg h srt
     (\<lambda>fetch wait. honest_environment h (sv_caps cfg) (cf_l2Enabled cfg) fetch wait cfg G)
     (\<lambda>req w. vouched cfg G (request_key cfg req) (w_l2 w))"

lemma honest_start: "honest cfg G h [] (new_world cfg l2conn clk wall)"
  by (simp add: honest_def new_world_def slots_of_def new_inflight_def stored_def sharded_new_look)

lemma purge_honest:
  assumes "sound h caps tier w" "honest cfg G h ks w"
  shows "honest cfg G h ks (snd (purgeAllShards p w))"
proof (rule honest_cache [OF assms(2), of _ "[]" "stored h w []"])
  show "stored h (snd (purgeAllShards p w)) \<subseteq>\<^sub>m (stored h w)([] := stored h w [])"
    by (auto simp: purge_sound(2) [OF assms(1)] map_le_def split: if_splits)
qed (use assms(2) in \<open>auto simp: purgeAllShards_def Let_def case_prod_beta count_metric_def dest: honest_stored\<close>)

lemma sweep_honest:
  assumes "sound h caps tier w" "honest cfg G h ks w"
  shows "honest cfg G h ks (w\<lparr>w_cache := fst (sharded_sweepExpired (w_cache w) now)\<rparr>)"
proof (rule honest_cache [OF assms(2), of _ "[]" "stored h w []"])
  show "stored h (w\<lparr>w_cache := fst (sharded_sweepExpired (w_cache w) now)\<rparr>) \<subseteq>\<^sub>m (stored h w)([] := stored h w [])"
    by (auto simp: stored_def look_sweep(3) [OF sound_inv [OF assms(1)]] map_le_def split: option.splits if_splits)
qed (use assms(2) in \<open>auto dest: honest_stored\<close>)

interpretation kept_honest: world_invariant cfg h
    "\<lambda>fetch wait. honest_environment h (sv_caps cfg) (cf_l2Enabled cfg) fetch wait cfg G"
    "\<lambda>req w. vouched cfg G (request_key cfg req) (w_l2 w)" "\<lambda>w. \<exists>ks. honest cfg G h ks w"
  for cfg h G
proof (rule world_invariant.intro)
  fix fetch wait w js j ks decide w'
  assume env: "honest_environment h (sv_caps cfg) (cf_l2Enabled cfg) fetch wait cfg G"
    and w: "sound h (sv_caps cfg) (cf_l2Enabled cfg) w" "\<exists>ks. honest cfg G h ks w" "w_jobs w = js @ j # ks"
    and r: "revalidate cfg decide fetch h j (w\<lparr>w_jobs := js @ ks\<rparr>) = Some w'"
  from w obtain ks' where k: "honest cfg G h ks' (w\<lparr>w_jobs := js @ ks\<rparr>)" "snd j = request_key cfg (fst j)"
    by (auto simp: honest_def slots_of_def stored_def)
  have "sound h (sv_caps cfg) (cf_l2Enabled cfg) (w\<lparr>w_jobs := js @ ks\<rparr>)" using w(1) by simp
  from honest_environment.revalidate_told [OF env this k, of decide w'] r show "\<exists>ks. honest cfg G h ks w'" by simp
next
  fix fetch wait w req decide resp w'
  assume env: "honest_environment h (sv_caps cfg) (cf_l2Enabled cfg) fetch wait cfg G"
    and w: "sound h (sv_caps cfg) (cf_l2Enabled cfg) w" "\<exists>ks. honest cfg G h ks w"
    "vouched cfg G (request_key cfg req) (w_l2 w)" "handle cfg decide fetch wait h req w = Some (resp, w')"
  then show "\<exists>ks. honest cfg G h ks w'" using honest_environment.handle_told [OF env w(1) _ w(3,4)] by blast
next
  fix l2conn clk wall
  show "\<exists>ks. honest cfg G h ks (new_world cfg l2conn clk wall)" using honest_start by blast
qed (auto simp: honest_environment_def intro: purge_honest sweep_honest)

section \<open>Properties\<close>

text \<open>C3: nobody is given another page's content: whatever was cached, coalesced, purged or revalidated
  before by any threads, and whatever the shared tier returns as long as it was given for its key, an
  answer is, up to the headers the proxy sets itself, one that the origin gave to a request with the
  same cache key, or the 502 or 503 of the proxy, or the empty answer of a failed revalidation; and
  every cached copy is one that the origin gave for its key.\<close>

theorem answers_come_from_origin:
  assumes "sized_config cfg" "honest_reach cfg h srt G sv"
    and "honest_environment h (sv_caps cfg) (cf_l2Enabled cfg) fetch wait cfg G"
    and "vouched cfg G (request_key cfg req) (w_l2 (sv_world sv))" "serve cfg fetch wait h req sv = Some (resp, sv')"
  shows "((\<exists>r. G (request_key cfg req) r \<and> same r resp) \<or> (\<exists>rejected. same (origin_failure rejected) resp) \<or>
      same empty_response resp) \<and>
    (stored h (sv_world sv') k = Some e \<longrightarrow> (\<exists>r. G k r \<and> same r (toResponse e)))"
proof -
  have s: "sound h (sv_caps cfg) (cf_l2Enabled cfg) (sv_world sv)"
    using sv_reach_sound [OF assms(1) kept_honest.reaches [OF assms(2)]] .
  obtain ks where "honest cfg G h ks (sv_world sv)" using kept_honest.holds [OF assms(1,2)] by blast
  from honest_environment.handle_told [OF assms(3) s this assms(4), of "sv_policy cfg sv" resp "sv_world sv'"] assms(5)
  have "good G (request_key cfg req) resp" "\<exists>ks'. honest cfg G h ks' (sv_world sv')"
    by (auto simp: serve_def split: option.splits)
  then show ?thesis using honest_stored by (auto simp: good_def given_def)
qed

section \<open>Honest environments\<close>

text \<open>The proxy's own client: the origin gives what it answers over the network \<open>net\<close>, or what it has
  given to other replicas (\<open>H\<close>). Alone, and with a purge that runs while a request waits.\<close>

definition origin_gives :: "config \<Rightarrow> (http_request \<Rightarrow> origin_target \<Rightarrow> origin_net) \<Rightarrow> (string \<Rightarrow> http_response \<Rightarrow> bool) \<Rightarrow>
    string \<Rightarrow> http_response \<Rightarrow> bool" where
  "origin_gives cfg net H k r \<longleftrightarrow> H k r \<or>
     (\<exists>req t. request_key cfg req = k \<and> or_ok (origin_over net req t) \<and> r = or_response (origin_over net req t))"

interpretation honest_origin: honest_environment h caps tier "calm (origin_over net)" "\<lambda>s. Some" cfg "origin_gives cfg net H"
  for h caps tier net cfg H
  by unfold_locales (auto simp: calm_def origin_gives_def intro: prefix_order.refl)

interpretation honest_purge: honest_environment h caps tier "purged_meanwhile p (origin_over net)"
    "\<lambda>s w. Some (snd (purgeAllShards p w))" cfg "origin_gives cfg net H"
  for h caps tier p net cfg H
  by unfold_locales (auto simp: purged_meanwhile_def origin_gives_def intro: prefix_order.refl purge_honest)

text \<open>A copy that another replica has written, and a server that will find it in the shared tier; Redis
  hangs up behind it.\<close>

definition copy :: cache_entry where
  "copy = empty_entry\<lparr>ce_status := 200, ce_reason := ''OK'', ce_body := ''hello'', ce_ttl := 60\<rparr>"

definition sharing :: server where
  "sharing = new_server tier_config (chopped []) (chopped []) (broken_off (wire (bulk (l2_serialize 0 copy)))) 0 (\<lambda>n. 0) (\<lambda>n. 0)"

abbreviation page_gives :: "string \<Rightarrow> http_response \<Rightarrow> bool" where
  "page_gives \<equiv> origin_gives tier_config page_net (\<lambda>k r. r = toResponse copy)"

lemma blob_small: "length (wire (bulk (l2_serialize 0 copy))) < 100" "length (l2_serialize 0 copy) < 100"
    "int32 (ce_status copy)" "hinv (ce_headers copy)"
  by code_simp+

lemma sharing_reach: "honest_reach tier_config quiet_hash by_length page_gives sharing"
  unfolding sharing_def
  by (rule reach_when.started)
    (use blob_small(1) in \<open>simp add: tame_def mortal_def live_def broken_off_def unread_def volume_def\<close>)

lemma sharing_vouched: "vouched tier_config page_gives key (w_l2 (sv_world sharing))"
proof -
  let ?blob = "wire (bulk (l2_serialize 0 copy))"
  let ?c = "close_conn (broken_off ?blob)"
  let ?c1 = "?c\<lparr>c_open := True, c_in := [Bytes ?blob, Quiet, Bytes []], c_out := [], c_dials := []\<rparr>"
  have "?blob \<noteq> []" by (simp add: bulk_def)
  then have "delivers ?c1 (?blob @ [])"
    by (intro deliversI [of _ "[Bytes ?blob]" "[Quiet, Bytes []]"]) (simp_all add: close_conn_def)
  moreover have "ensureConnected tier_config ?c = Some (True, ?c1)" "c_open ?c1" "c_sends ?c1 = []"
    by (simp_all add: ensureConnected_def connect_def close_conn_def broken_off_def tier_config_def default_config_def)
  moreover have "w_l2 (sv_world sharing) = Some ?c"
    by (simp add: sharing_def new_server_def new_world_def tier_config_def default_config_def)
  moreover have "given page_gives key (toResponse copy)"
    unfolding given_def origin_gives_def using same_refl by blast
  ultimately show ?thesis
    using written_vouched [of tier_config ?c ?c1 0 copy "[]" page_gives key] blob_small by simp
qed

text \<open>The second of two requests for the same page; and a request where the shared tier has the page.\<close>

theorem answers_come_from_origin_witness:
  "(\<exists>sv resp sv'. honest_reach default_config quiet_hash by_length (origin_gives default_config page_net (\<lambda>k r. False)) sv \<and>
     serve default_config (calm (origin_over page_net)) (\<lambda>s. Some) quiet_hash req0 sv = Some (resp, sv') \<and>
     ((\<exists>r. origin_gives default_config page_net (\<lambda>k r. False) (request_key default_config req0) r \<and> same r resp) \<or>
      (\<exists>rejected. same (origin_failure rejected) resp) \<or> same empty_response resp)) \<and>
   (\<exists>resp sv'. serve tier_config (calm (origin_over page_net)) (\<lambda>s. Some) quiet_hash req0 sharing = Some (resp, sv') \<and>
     ((\<exists>r. page_gives (request_key tier_config req0) r \<and> same r resp) \<or>
      (\<exists>rejected. same (origin_failure rejected) resp) \<or> same empty_response resp))"
proof
  let ?G = "origin_gives default_config page_net (\<lambda>k r. False)" and ?fetch = "calm (origin_over page_net)"
  let ?serve = "serve default_config ?fetch (\<lambda>s. Some) quiet_hash req0"
  have no_tier: "\<not> cf_l2Enabled default_config" by (simp add: default_config_def)
  have env: "environment quiet_hash (sv_caps default_config) (cf_l2Enabled default_config) ?fetch (\<lambda>s. Some)"
    "honest_environment quiet_hash (sv_caps default_config) (cf_l2Enabled default_config) ?fetch (\<lambda>s. Some) default_config ?G"
    by unfold_locales
  have none: "w_l2 (sv_world sv) = None" if "sv_reach default_config quiet_hash by_length sv" for sv
    using sv_reach_sound [OF plain0 that] no_tier by (simp add: sound_def)
  have reach0': "honest_reach default_config quiet_hash by_length ?G server0"
    unfolding server0_def by (rule reach_when.started) (simp add: no_tier)
  obtain resp0 sv where sv: "?serve server0 = Some (resp0, sv)"
    using reach_serves [OF plain0 env(1) reach0, of req0] by blast
  have "vouched default_config ?G (request_key default_config req0) (w_l2 (sv_world server0))" using none [OF reach0] by simp
  note reach = reach_when.request [OF reach0' env(2) this sv]
  note reach1 = kept_honest.reaches [OF reach]
  obtain resp sv' where s: "?serve sv = Some (resp, sv')"
    using reach_serves [OF plain0 env(1) reach1, of req0] by blast
  have "vouched default_config ?G (request_key default_config req0) (w_l2 (sv_world sv))" using none [OF reach1] by simp
  from answers_come_from_origin [OF plain0 reach env(2) this s] reach s
  show "\<exists>sv resp sv'. honest_reach default_config quiet_hash by_length ?G sv \<and> ?serve sv = Some (resp, sv') \<and>
     ((\<exists>r. ?G (request_key default_config req0) r \<and> same r resp) \<or>
      (\<exists>rejected. same (origin_failure rejected) resp) \<or> same empty_response resp)" by blast
next
  let ?fetch = "calm (origin_over page_net)"
  let ?serve = "serve tier_config ?fetch (\<lambda>s. Some) quiet_hash req0"
  have env: "environment quiet_hash (sv_caps tier_config) (cf_l2Enabled tier_config) ?fetch (\<lambda>s. Some)"
    "honest_environment quiet_hash (sv_caps tier_config) (cf_l2Enabled tier_config) ?fetch (\<lambda>s. Some) tier_config page_gives"
    by unfold_locales
  obtain resp sv' where s: "?serve sharing = Some (resp, sv')"
    using reach_serves [OF tier_sized env(1) kept_honest.reaches [OF sharing_reach], of req0] by blast
  from answers_come_from_origin [OF tier_sized sharing_reach env(2) sharing_vouched s] s
  show "\<exists>resp sv'. ?serve sharing = Some (resp, sv') \<and>
     ((\<exists>r. page_gives (request_key tier_config req0) r \<and> same r resp) \<or>
      (\<exists>rejected. same (origin_failure rejected) resp) \<or> same empty_response resp)" by blast
qed

end
