(* ===== verification/Accounting.thy ===== *)
theory Accounting
  imports Reaching
begin

text \<open>
  The counters and the access log tell the same story. A request moves one of the columns below when its
  answer is counted, and an event of the log is due one entry in each; \<open>balance\<close> is the difference.
  Every operation of the handler is shown to move it by what the answer is due, and writing the event
  settles it. A copy from the shared tier is told as a hit but counted as a miss, so the columns of
  hits and misses take the counter of the shared tier in.
\<close>

section \<open>Columns\<close>

datatype column = Answers | Hits | Misses | Stales | Volume

fun counted :: "metrics \<Rightarrow> column \<Rightarrow> u64" where
  "counted m Answers = m_hits m + m_misses m"
| "counted m Hits = m_hits m + m_l2Hits m"
| "counted m Misses = m_misses m - m_l2Hits m"
| "counted m Stales = m_staleServed m"
| "counted m Volume = m_bytesServed m"

fun due :: "string \<Rightarrow> u64 \<Rightarrow> column \<Rightarrow> u64" where
  "due x n Answers = 1"
| "due x n Hits = (if x \<in> {''hit'', ''stale''} then 1 else 0)"
| "due x n Misses = (if x \<in> {''miss'', ''pass''} then 1 else 0)"
| "due x n Stales = (if x = ''stale'' then 1 else 0)"
| "due x n Volume = n"

definition events :: "world \<Rightarrow> log_event list" where
  "events w = (case w_log w of None \<Rightarrow> [] | Some evs \<Rightarrow> evs)"

definition balance :: "world \<Rightarrow> column \<Rightarrow> u64" where
  "balance w col = counted (w_metrics w) col - (\<Sum>ev\<leftarrow>events w. due (ev_result ev) (ev_bytesServed ev) col)"

text \<open>What an answer is due.\<close>

definition owed :: "http_response \<Rightarrow> column \<Rightarrow> u64" where
  "owed resp = due (lower (resp_header resp ''X-Cache'' ''unknown'')) (of_nat (length (resp_body resp)))"

lemma balance_cong: "w_metrics w' = w_metrics w \<Longrightarrow> w_log w' = w_log w \<Longrightarrow> balance w' = balance w"
  by (simp add: balance_def events_def fun_eq_iff)

lemma balance_frame [simp]:
  "balance (snd (clock w)) = balance w" "balance (snd (wall_clock w)) = balance w"
  "balance (snd (breaker_op host f w)) = balance w" "balance (publish_slot k r b w) = balance w"
  "balance (w\<lparr>w_cache := c\<rparr>) = balance w" "balance (w\<lparr>w_inflight := st\<rparr>) = balance w"
  "balance (w\<lparr>w_l2 := l2\<rparr>) = balance w" "balance (w\<lparr>w_jobs := js\<rparr>) = balance w"
  by (rule balance_cong; simp)+

lemma balance_counts [simp]:
  "balance (count_metric recordHit w) col = balance w col + (if col \<in> {Answers, Hits} then 1 else 0)"
  "balance (count_metric recordMiss w) col = balance w col + (if col \<in> {Answers, Misses} then 1 else 0)"
  "balance (count_metric recordStaleServed w) col = balance w col + (if col = Stales then 1 else 0)"
  "balance (count_metric (recordBytesServed n) w) col = balance w col + (if col = Volume then n else 0)"
  "balance (count_metric recordL2Hit w) col = balance w col + (if col = Hits then 1 else if col = Misses then - 1 else 0)"
  "balance (count_metric recordL2Miss w) col = balance w col" "balance (count_metric recordOriginError w) col = balance w col"
  "balance (count_metric recordCircuitReject w) col = balance w col"
  "balance (count_metric recordPurgeMessage w) col = balance w col" "balance (count_metric (addPurgedKeys n) w) col = balance w col"
  "balance (count_metric (observeOriginLatency t) w) col = balance w col"
  by (cases col; simp add: balance_def events_def recordHit_def recordMiss_def recordStaleServed_def recordBytesServed_def
      recordL2Hit_def recordL2Miss_def recordOriginError_def recordCircuitReject_def recordPurgeMessage_def addPurgedKeys_def
      observeOriginLatency_def)+

lemma events_append:
  assumes "w_log w = Some evs"
  shows "balance (w\<lparr>w_log := Some (evs @ [ev])\<rparr>) col = balance w col - due (ev_result ev) (ev_bytesServed ev) col"
  using assms by (simp add: balance_def events_def)

section \<open>What is owed\<close>

text \<open>An operation that ends with an answer moves the balance by what that answer is due (and by \<open>d\<close>, what
  has been counted for it before).\<close>

definition pays :: "(column \<Rightarrow> u64) \<Rightarrow> world \<Rightarrow> (http_response \<times> world) option \<Rightarrow> bool" where
  "pays d w r \<longleftrightarrow> (\<forall>resp w'. r = Some (resp, w') \<longrightarrow> w_log w' \<noteq> None \<and> (\<forall>col. balance w' col + d col = balance w col + owed resp col))"

lemma decorate_owed:
  assumes "hinv (resp_headers r)"
  shows "owed (decorate r x cfg p) = due (lower x) (of_nat (length (resp_body r)))"
  using resp_header_found [OF decorate_header(1) [OF assms]] by (simp add: owed_def)

definition missed :: "column \<Rightarrow> u64" where
  "missed col = (if col \<in> {Answers, Misses} then 1 else 0)"

lemma pays_served:
  "pays d w (Some (served resp w1)) \<longleftrightarrow> w_log w1 \<noteq> None \<and>
     (\<forall>col. balance w1 col + (if col = Volume then of_nat (length (resp_body resp)) else 0) + d col = balance w col + owed resp col)"
  by (simp add: pays_def served_def)

lemma lower_results [simp]:
  "lower ''HIT'' = ''hit''" "lower ''MISS'' = ''miss''" "lower ''STALE'' = ''stale''" "lower ''PASS'' = ''pass''"
  by code_simp+

lemma due_body: "due x n col = due x 0 col + (if col = Volume then n else 0)"
  by (cases col) simp_all

lemma due_results [simp]:
  "due ''hit'' 0 col = (if col \<in> {Answers, Hits} then 1 else 0)" "due ''miss'' 0 col = missed col" "due ''pass'' 0 col = missed col"
  "due ''stale'' 0 col = (if col \<in> {Answers, Hits} then 1 else 0) + (if col = Stales then 1 else 0)"
  by (cases col; simp add: missed_def)+

lemma put_books: "cache_put h key e w = Some w' \<Longrightarrow> balance w' = balance w \<and> w_log w' = w_log w"
  by (auto simp: cache_put_def split: bind_splits)

lemma l2_store_books: "l2_store cfg key e ttl w = Some w' \<Longrightarrow> balance w' = balance w \<and> w_log w' = w_log w"
  by (auto simp: l2_store_def Let_def case_prod_beta split: option.splits bind_splits)

lemma maybeStore_books: "maybeStore cfg decide h req resp w = Some w' \<Longrightarrow> balance w' = balance w \<and> w_log w' = w_log w"
  by (auto simp: maybeStore_def Let_def case_prod_beta split: if_splits dest!: put_books)

lemma storeTiers_books: "storeTiers cfg decide h req resp w = Some w' \<Longrightarrow> balance w' = balance w \<and> w_log w' = w_log w"
  by (auto simp: storeTiers_def Let_def case_prod_beta split: if_splits bind_splits dest!: put_books l2_store_books)

lemma lookup_books:
  assumes "l2_lookup cfg key w = Some (e, w')"
  shows "w_log w' = w_log w" "balance w' col = balance w col + (if e = None then 0 else due ''hit'' 0 col - missed col)"
proof -
  show "w_log w' = w_log w"
    using assms by (auto simp: l2_lookup_def Let_def case_prod_beta split: option.splits bind_splits)
  show "balance w' col = balance w col + (if e = None then 0 else due ''hit'' 0 col - missed col)"
    using assms by (auto simp: l2_lookup_def Let_def case_prod_beta missed_def split: option.splits bind_splits)
qed

lemma fresh_pays:
  assumes "w_log w \<noteq> None" "hinv (ce_headers e)"
  shows "pays (\<lambda>col. 0) w (Some (serve_fresh cfg e now w))"
  using assms
  by (simp add: serve_fresh_def Let_def pays_served decorate_owed hinv_hset due_body [of _ "of_nat n" for n])

lemma stale_pays:
  assumes "w_log w \<noteq> None" "hinv (ce_headers e)"
  shows "pays (\<lambda>col. 0) w (Some (serve_stale cfg req key e w))"
proof -
  have t: "balance (triggerRevalidation req key w) = balance w" "w_log (triggerRevalidation req key w) = w_log w" for w
    by (simp_all add: triggerRevalidation_def Let_def case_prod_beta)
  show ?thesis
    using assms by (simp add: serve_stale_def Let_def pays_served decorate_owed t due_body [of _ "of_nat n" for n])
qed

locale accountable = environment +
  assumes fetch_books: "sound h caps tier w \<Longrightarrow> w_log w \<noteq> None \<Longrightarrow> w_log (snd (fetch req t w)) \<noteq> None \<and> balance (snd (fetch req t w)) = balance w"
    and wait_books: "sound h caps tier w \<Longrightarrow> w_log w \<noteq> None \<Longrightarrow> wait s w = Some w' \<Longrightarrow> w_log w' \<noteq> None \<and> balance w' = balance w"
begin

lemma guarded_books:
  assumes "sound h caps tier w" "w_log w \<noteq> None" "fetchGuarded fetch req t w = (r, w1)"
  shows "w_log w1 \<noteq> None" "balance w1 = balance w"
proof -
  let ?asked = "snd (clock (snd (breaker_op (ot_host t) (allowRequest (w_clock w (w_reads w))) (snd (clock w)))))"
  have "w_log (snd (fetch req t ?asked)) \<noteq> None \<and> balance (snd (fetch req t ?asked)) = balance w"
    using fetch_books [of ?asked req t] assms(1,2) by (simp add: sound_breaker_op)
  then show "w_log w1 \<noteq> None" "balance w1 = balance w"
    using assms by (auto simp: fetchGuarded_def case_prod_beta Let_def fun_eq_iff split: if_splits)
qed

lemma pass_pays:
  assumes "sound h caps tier w" "w_log w \<noteq> None"
  shows "pays (\<lambda>col. 0) w (Some (pass_through cfg fetch req w))"
proof -
  let ?w = "count_metric recordMiss w" and ?t = "targetFor cfg (req_path req)"
  obtain r rejected w1 where f: "fetchGuarded fetch req ?t ?w = ((r, rejected), w1)" by (metis surj_pair)
  have b: "w_log w1 \<noteq> None" "balance w1 = balance ?w" using guarded_books [OF _ _ f] assms by simp_all
  have "or_ok r \<Longrightarrow> hinv (resp_headers (or_response r))" using guarded_sound(2) [of ?w req ?t] f assms(1) by simp
  then show ?thesis
    using f b
    by (simp add: pass_through_def Let_def pays_served decorate_owed failure_inv due_body [of _ "of_nat n" for n] missed_def)
qed

lemma lead_from_origin_pays:
  assumes "sound h caps tier w" "w_log w \<noteq> None" "\<And>e. cached = Some e \<Longrightarrow> \<not> isServeableStale e now"
  shows "pays missed w (lead_from_origin cfg decide fetch h req key cached now w)"
proof -
  let ?t = "targetFor cfg (req_path req)"
  obtain r rejected w1 where f: "fetchGuarded fetch req ?t w = ((r, rejected), w1)" by (metis surj_pair)
  note b = guarded_books [OF assms(1,2) f]
  show ?thesis
  proof (cases "or_ok r")
    case True
    then have hi: "hinv (resp_headers (or_response r))" using guarded_sound(2) [OF assms(1), of req ?t] f by simp
    show ?thesis
    proof (cases "storeTiers cfg decide h req (or_response r) w1")
      case None
      with f True show ?thesis by (simp add: lead_from_origin_def Let_def pays_def)
    next
      case (Some w2)
      with f True b storeTiers_books [OF Some] show ?thesis
        by (simp add: lead_from_origin_def Let_def pays_served decorate_owed [OF hi] due_body [of _ "of_nat n" for n])
    qed
  next
    case False
    with f b assms(3) show ?thesis
      by (simp add: lead_from_origin_def Let_def pays_served decorate_owed failure_inv due_body [of _ "of_nat n" for n]
          split: option.split)
  qed
qed

lemma lead_from_l2_pays:
  assumes "w_log w \<noteq> None" "hinv (ce_headers e)"
  shows "pays (due ''hit'' 0) w (lead_from_l2 cfg h key e w)"
proof (cases "cache_put h key e w")
  case (Some w1)
  let ?r = "(toResponse e)\<lparr>resp_headers := hset (resp_headers (toResponse e)) ''Age'' ''0''\<rparr>"
  let ?d = "decorate ?r ''HIT'' cfg ''l2''"
  let ?p = "?d\<lparr>resp_headers := hset (resp_headers ?d) ''X-Cache-Tier'' ''L2''\<rparr>"
  have hi: "hinv (resp_headers ?r)" using assms(2) by (simp add: hinv_hset)
  have "hfind (resp_headers ?p) ''X-Cache'' = hfind (resp_headers ?d) ''X-Cache''"
    using decorate_inv [OF hi] by (simp add: hfind_hset)
  then have "owed ?p = owed ?d" by (simp add: owed_def resp_header_def header_or_def)
  with Some put_books [OF Some] assms show ?thesis
    by (simp add: lead_from_l2_def Let_def pays_served decorate_owed hinv_hset due_body [of _ "of_nat n" for n])
qed (simp add: lead_from_l2_def pays_def)

lemma lead_pays:
  assumes "sound h caps tier w" "w_log w \<noteq> None" "\<And>e. cached = Some e \<Longrightarrow> \<not> isServeableStale e now"
  shows "pays missed w (lead cfg decide fetch h req key cached now w)"
proof -
  obtain e w1 where w1: "l2_lookup cfg key w = Some (e, w1)" "sound h caps tier w1" "\<forall>x. e = Some x \<longrightarrow> fit x"
    using sound_l2_lookup [OF assms(1)] by blast
  note b = lookup_books [OF w1(1)]
  have log: "w_log w1 \<noteq> None" using assms(2) b(1) by simp
  show ?thesis
  proof (cases e)
    case None
    with lead_from_origin_pays [OF w1(2) log assms(3)] w1(1) b show ?thesis by (simp add: lead_def pays_def)
  next
    case (Some x)
    with w1(3) have "hinv (ce_headers x)" by (simp add: fit_def)
    from lead_from_l2_pays [OF log this, of cfg key] Some w1(1) b show ?thesis
      by (auto simp: lead_def pays_def algebra_simps)
  qed
qed

lemma follow_pays:
  assumes "sound h caps tier w" "w_log w \<noteq> None" "s < length (slots_of w)"
  shows "pays missed w (follow cfg decide wait h req s w)"
proof -
  obtain w1 where w1: "wait s w = Some w1" "sound h caps tier w1" "slots_grow w w1"
    using wait_sound [OF assms(1), of s] by blast
  have b: "w_log w1 \<noteq> None" "balance w1 = balance w" using wait_books [OF assms(1,2) w1(1)] by simp_all
  obtain resp ok where r: "slot_result s (w_inflight w1) = (resp, ok)" by (cases "slot_result s (w_inflight w1)")
  have "s < length (slots_of w1)" using assms(3) w1(3) by (simp add: slots_grow_def)
  from slot_result_good(1) [OF w1(2) this] r have hi: "hinv (resp_headers resp)" by simp
  show ?thesis
  proof (cases "if ok then maybeStore cfg decide h req resp w1 else Some w1")
    case None
    with w1(1) r show ?thesis by (simp add: follow_def pays_def)
  next
    case (Some w2)
    then have "balance w2 = balance w \<and> w_log w2 \<noteq> None" using b by (auto split: if_splits dest!: maybeStore_books)
    with w1(1) r Some show ?thesis
      by (simp add: follow_def pays_served decorate_owed [OF hi] due_body [of _ "of_nat n" for n])
  qed
qed

lemma miss_pays:
  assumes "sound h caps tier w" "w_log w \<noteq> None" "\<And>e. cached = Some e \<Longrightarrow> \<not> isServeableStale e now"
  shows "pays (\<lambda>col. 0) w (serve_miss cfg decide fetch wait h req key cached now w)"
proof -
  let ?w = "count_metric recordMiss w"
  obtain leader s st where a: "acquire key (w_inflight ?w) = ((leader, s), st)" by (metis surj_pair)
  let ?w1 = "?w\<lparr>w_inflight := st\<rparr>"
  have w1: "sound h caps tier ?w1" "w_log ?w1 \<noteq> None"
    using sound_acquire [of h caps tier ?w key] assms(1,2) a by simp_all
  have "s < length (slots_of ?w1)" using acquire_slot [of h caps tier ?w, OF _ a] assms(1) by (simp add: slots_of_def)
  from lead_pays [OF w1 assms(3)] follow_pays [OF w1 this] a
  have "pays missed ?w1 (serve_miss cfg decide fetch wait h req key cached now w)" by (simp add: serve_miss_def Let_def)
  then show ?thesis by (simp add: pays_def missed_def)
qed

lemma process_pays:
  assumes "sound h caps tier w" "w_log w \<noteq> None"
  shows "pays (\<lambda>col. 0) w (process cfg decide fetch wait h req w)"
proof (cases "isCacheableMethod req")
  case False
  then show ?thesis using pass_pays [OF assms] by (simp add: process_def)
next
  case True
  let ?key = "request_key cfg req" and ?now = "w_clock w (w_reads w)"
  from sound_lookup [OF assms(1) True, of cfg decide fetch wait] obtain w1 where w1: "sound h caps tier w1"
    and m: "w_metrics w1 = w_metrics w" and log: "w_log w1 = w_log w"
    and p: "process cfg decide fetch wait h req w =
      (case stored h w ?key of
         Some e \<Rightarrow>
           if isFresh e ?now then Some (serve_fresh cfg e ?now w1)
           else if isServeableStale e ?now then Some (serve_stale cfg req ?key e w1)
           else serve_miss cfg decide fetch wait h req ?key (Some e) ?now w1
       | None \<Rightarrow> serve_miss cfg decide fetch wait h req ?key None ?now w1)" by blast
  have bal: "balance w1 = balance w" using m log by (rule balance_cong)
  have l1: "w_log w1 \<noteq> None" using log assms(2) by simp
  have hi: "hinv (ce_headers e)" if "stored h w ?key = Some e" for e
    using that sound_stored [OF assms(1)] by (simp add: stored_def)
  have miss: "pays (\<lambda>col. 0) w1 (serve_miss cfg decide fetch wait h req ?key c ?now w1)"
    if "c = None \<or> (\<exists>e. c = Some e \<and> \<not> isServeableStale e ?now)" for c
    using that by (intro miss_pays [OF w1 l1]) auto
  have "pays (\<lambda>col. 0) w1 (process cfg decide fetch wait h req w)"
    unfolding p using miss fresh_pays [OF l1 hi] stale_pays [OF l1 hi] by (simp split: option.split)
  then show ?thesis by (simp add: pays_def bal)
qed

lemma handle_settles:
  assumes "sound h caps tier w" "w_log w = Some evs" "handle cfg decide fetch wait h req w = Some (resp, w')"
  shows "balance w' = balance w \<and> (\<exists>evs' ev. w_log w' = Some (evs' @ [ev]) \<and> ev_path ev = req_path req \<and>
    ev_cacheKey ev = request_key cfg req \<and> ev_status ev = resp_status resp \<and> ev_replicaId ev = cf_replicaId cfg \<and>
    ev_result ev = lower (resp_header resp ''X-Cache'' ''unknown'') \<and> ev_bytesServed ev = of_nat (length (resp_body resp)))"
proof -
  have "sound h caps tier (snd (clock w))" "w_log (snd (clock w)) \<noteq> None" using assms(1,2) by simp_all
  note p = process_pays [OF this, of cfg decide req]
  obtain w1 where w1: "process cfg decide fetch wait h req (snd (clock w)) = Some (resp, w1)"
    using assms(3) by (auto simp: handle_def case_prod_beta Let_def split: option.splits bind_splits)
  with p obtain evs1 where b: "w_log w1 = Some evs1" "balance w1 col = balance w col + owed resp col" for col
    by (auto simp: pays_def)
  from assms(3) w1 b(1) obtain ev w2 where w': "w' = w2\<lparr>w_log := Some (evs1 @ [ev])\<rparr>" "w_log w2 = Some evs1" "balance w2 = balance w1"
    and ev: "ev_path ev = req_path req" "ev_cacheKey ev = request_key cfg req" "ev_status ev = resp_status resp"
      "ev_replicaId ev = cf_replicaId cfg" "ev_result ev = lower (resp_header resp ''X-Cache'' ''unknown'')"
      "ev_bytesServed ev = of_nat (length (resp_body resp))"
    by (auto simp: handle_def case_prod_beta Let_def)
  have "balance w' col = balance w col" for col
    using events_append [OF w'(2), of ev col] b(2) [of col] ev(5,6) w'(1,3) by (simp add: owed_def)
  with w'(1) ev show ?thesis by auto
qed

lemma revalidate_books:
  assumes "sound h caps tier w" "w_log w \<noteq> None" "revalidate cfg decide fetch h job w = Some w'"
  shows "balance w' = balance w \<and> w_log w' \<noteq> None"
proof -
  obtain req key where job: "job = (req, key)" by (cases job)
  obtain r rejected w1 where f: "fetchGuarded fetch req (targetFor cfg (req_path req)) w = ((r, rejected), w1)"
    by (metis surj_pair)
  from guarded_books [OF assms(1,2) f] assms(3) f job show ?thesis
    by (auto simp: revalidate_def split: if_splits bind_splits dest!: storeTiers_books)
qed

end

section \<open>Environments that keep the books\<close>

interpretation calm_books: accountable h caps tier "calm (origin_over net)" "\<lambda>s. Some" for h caps tier net
  by unfold_locales (auto simp: calm_def)

lemma answered_accountable:
  assumes "modest cfg decide"
  shows "accountable h caps tier (answered_meanwhile cfg decide h other (origin_over net)) (\<lambda>s. Some)"
proof (rule accountable.intro [OF answered_environment [OF assms]])
  show "accountable_axioms h caps tier (answered_meanwhile cfg decide h other (origin_over net)) (\<lambda>s. Some)"
  proof
    fix w req t
    assume w: "sound h caps tier w" "w_log w \<noteq> None"
    then obtain evs where "w_log w = Some evs" by blast
    with calm_books.handle_settles [OF w(1), of evs cfg decide net other]
    show "w_log (snd (answered_meanwhile cfg decide h other (origin_over net) req t w)) \<noteq> None \<and>
      balance (snd (answered_meanwhile cfg decide h other (origin_over net) req t w)) = balance w"
      by (auto simp: answered_meanwhile_def split: option.split)
  qed auto
qed

section \<open>The server\<close>

definition settled :: "world \<Rightarrow> bool" where
  "settled w \<longleftrightarrow> w_log w \<noteq> None \<and> (\<forall>col. balance w col = 0)"

lemma settled_start: "settled (new_world cfg l2conn clk wall)"
proof -
  have "balance (new_world cfg l2conn clk wall) col = 0" for col
    by (cases col) (simp_all add: balance_def events_def new_world_def new_metrics_def)
  then show ?thesis by (simp add: settled_def new_world_def)
qed

lemma purge_books: "w_log (snd (purgeAllShards p w)) = w_log w" "balance (snd (purgeAllShards p w)) = balance w"
  by (simp_all add: purgeAllShards_def Let_def case_prod_beta fun_eq_iff)

interpretation books: world_invariant cfg h "accountable h (sv_caps cfg) (cf_l2Enabled cfg)" "\<lambda>req w. True" settled for cfg h
proof (rule world_invariant.intro)
  fix fetch wait w req decide resp w'
  assume a: "accountable h (sv_caps cfg) (cf_l2Enabled cfg) fetch wait" "sound h (sv_caps cfg) (cf_l2Enabled cfg) w"
    "settled w" "handle cfg decide fetch wait h req w = Some (resp, w')"
  then show "settled w'" using accountable.handle_settles [OF a(1,2) _ a(4)] by (fastforce simp: settled_def)
next
  fix fetch wait w js j ks decide w'
  assume a: "accountable h (sv_caps cfg) (cf_l2Enabled cfg) fetch wait" "settled w"
    "revalidate cfg decide fetch h j (w\<lparr>w_jobs := js @ ks\<rparr>) = Some w'" and "sound h (sv_caps cfg) (cf_l2Enabled cfg) w"
  then have "sound h (sv_caps cfg) (cf_l2Enabled cfg) (w\<lparr>w_jobs := js @ ks\<rparr>)" by simp
  from accountable.revalidate_books [OF a(1) this _ a(3)] a(2) show "settled w'" by (simp add: settled_def)
next
  fix l2conn clk wall
  show "settled (new_world cfg l2conn clk wall)" by (rule settled_start)
qed (auto simp: accountable_def settled_def purge_books)

section \<open>Properties\<close>



end
