(* ===== verification/Rollup.thy ===== *)
theory Rollup
  imports RequestHandler "HOL-Library.AList"
begin

text \<open>
  \<^verbatim>\<open>analytics-consumer/src/rollup.ts\<close>: what becomes of the events of the access log. Counts per path and
  hour are kept in a \<^verbatim>\<open>Map\<close> (a list of entries in the order of their insertion) and added to the rows
  of a table now and then. A flush waits for the database, so events are added and other flushes
  begin while it is under way: its snapshot is in flight until it ends. Numbers are exact as long as they
  are below $2^{53}$, and are not bounded here. How a date is printed is the argument \<open>shw\<close>.
\<close>

section \<open>State\<close>

record bucket =
  b_hits :: nat
  b_misses :: nat
  b_bytes :: nat

definition empty_bucket :: bucket where
  "empty_bucket = \<lparr>b_hits = 0, b_misses = 0, b_bytes = 0\<rparr>"

definition plus_bucket :: "bucket \<Rightarrow> bucket \<Rightarrow> bucket" where
  "plus_bucket b d = \<lparr>b_hits = b_hits b + b_hits d, b_misses = b_misses b + b_misses d, b_bytes = b_bytes b + b_bytes d\<rparr>"

type_synonym buckets = "(string \<times> bucket) list"

type_synonym rows = "((string \<times> string) \<times> bucket) list"

record consumer =
  ac_buckets :: buckets
  ac_flying :: "buckets list"
  ac_table :: rows

section \<open>Operations\<close>

text \<open>The hour of a time in milliseconds.\<close>

definition hourKey :: "(int \<Rightarrow> string) \<Rightarrow> int \<Rightarrow> string" where
  "hourKey shw ts = shw (ts - ts mod 3600000)"

definition event_key :: "(int \<Rightarrow> string) \<Rightarrow> int \<Rightarrow> log_event \<Rightarrow> string" where
  "event_key shw now ev = ev_path ev @ '' '' @ hourKey shw (if ev_timestampMs ev = 0 then now else ev_timestampMs ev)"

definition rollup_add :: "(int \<Rightarrow> string) \<Rightarrow> int \<Rightarrow> log_event \<Rightarrow> buckets \<Rightarrow> buckets" where
  "rollup_add shw now ev bs =
     (let key = event_key shw now ev;
          b = (case map_of bs key of None \<Rightarrow> empty_bucket | Some b \<Rightarrow> b);
          b = (if ev_result ev = ''hit'' \<or> ev_result ev = ''stale'' then b\<lparr>b_hits := b_hits b + 1\<rparr>
               else b\<lparr>b_misses := b_misses b + 1\<rparr>)
      in AList.update key (b\<lparr>b_bytes := b_bytes b + unat (ev_bytesServed ev)\<rparr>) bs)"

text \<open>One row of the insertion, and one entry of the snapshot that is put back.\<close>

definition add_to :: "'k \<Rightarrow> bucket \<Rightarrow> ('k \<times> bucket) list \<Rightarrow> ('k \<times> bucket) list" where
  "add_to k b xs = AList.update k (case map_of xs k of None \<Rightarrow> b | Some e \<Rightarrow> plus_bucket e b) xs"

text \<open>The first two parts of a key that is split at its spaces.\<close>

definition row_of :: "string \<Rightarrow> string \<times> string" where
  "row_of key = (takeWhile (\<lambda>c. c \<noteq> CHR '' '') key, takeWhile (\<lambda>c. c \<noteq> CHR '' '') (tl (dropWhile (\<lambda>c. c \<noteq> CHR '' '') key)))"

fun insert_rows :: "buckets \<Rightarrow> rows \<Rightarrow> rows" where
  "insert_rows [] t = t"
| "insert_rows ((key, b) # bs) t = insert_rows bs (add_to (row_of key) b t)"

fun put_back :: "buckets \<Rightarrow> buckets \<Rightarrow> buckets" where
  "put_back [] bs = bs"
| "put_back ((key, b) # snap) bs = put_back snap (add_to key b bs)"

definition flush_begin :: "consumer \<Rightarrow> consumer" where
  "flush_begin c = (if ac_buckets c = [] then c
     else c\<lparr>ac_buckets := [], ac_flying := ac_flying c @ [ac_buckets c]\<rparr>)"

text \<open>How the flush with the \<open>i\<close>th snapshot ends: there was no connection, the transaction was rolled
  back, or it was committed (and its caller learns so).\<close>

datatype flush_end = NoClient | RolledBack | Committed

definition flush_finish :: "nat \<Rightarrow> flush_end \<Rightarrow> consumer \<Rightarrow> consumer" where
  "flush_finish i e c = (if length (ac_flying c) \<le> i then c
     else (let snap = ac_flying c ! i; c = c\<lparr>ac_flying := take i (ac_flying c) @ drop (Suc i) (ac_flying c)\<rparr> in
       case e of
         NoClient \<Rightarrow> c
       | RolledBack \<Rightarrow> c\<lparr>ac_buckets := put_back snap (ac_buckets c)\<rparr>
       | Committed \<Rightarrow> c\<lparr>ac_table := insert_rows snap (ac_table c)\<rparr>))"

datatype consumer_action = Consumed int log_event | FlushBegins | FlushEnds nat flush_end

fun consumer_step :: "(int \<Rightarrow> string) \<Rightarrow> consumer_action \<Rightarrow> consumer \<Rightarrow> consumer" where
  "consumer_step shw (Consumed now ev) c = c\<lparr>ac_buckets := rollup_add shw now ev (ac_buckets c)\<rparr>"
| "consumer_step shw FlushBegins c = flush_begin c"
| "consumer_step shw (FlushEnds i e) c = flush_finish i e c"

definition consumer_run :: "(int \<Rightarrow> string) \<Rightarrow> consumer_action list \<Rightarrow> consumer \<Rightarrow> consumer" where
  "consumer_run shw ss c = fold (consumer_step shw) ss c"

definition new_consumer :: consumer where
  "new_consumer = \<lparr>ac_buckets = [], ac_flying = [], ac_table = []\<rparr>"

section \<open>Totals\<close>

text \<open>What is counted under the keys \<open>P\<close>, and what an event is worth.\<close>

definition bucket_sum :: "('k \<Rightarrow> bool) \<Rightarrow> ('k \<times> bucket) list \<Rightarrow> bucket" where
  "bucket_sum P xs = foldr plus_bucket (map snd (filter (P \<circ> fst) xs)) empty_bucket"

definition bucket_of :: "log_event \<Rightarrow> bucket" where
  "bucket_of ev = (let hit = (ev_result ev = ''hit'' \<or> ev_result ev = ''stale'') in
     \<lparr>b_hits = of_bool hit, b_misses = of_bool (\<not> hit), b_bytes = unat (ev_bytesServed ev)\<rparr>)"

interpretation bucket: comm_monoid plus_bucket empty_bucket
  by unfold_locales (simp_all add: plus_bucket_def empty_bucket_def)

lemmas bucket_ac = bucket.assoc bucket.commute bucket.left_commute

lemma bucket_sum_simps [simp]:
  "bucket_sum P [] = empty_bucket"
  "bucket_sum P ((k, b) # xs) = (if P k then plus_bucket b (bucket_sum P xs) else bucket_sum P xs)"
  by (simp_all add: bucket_sum_def)

lemma add_to_Cons: "add_to k b ((k', b') # xs) =
    (if k' = k then (k, plus_bucket b' b) # xs else (k', b') # add_to k b xs)"
  by (simp add: add_to_def split: option.split)

lemma add_to_sum: "bucket_sum P (add_to k b xs) = (if P k then plus_bucket b (bucket_sum P xs) else bucket_sum P xs)"
proof (induction xs)
  case Nil
  then show ?case by (simp add: add_to_def)
next
  case (Cons x xs)
  then show ?case by (cases x) (simp add: add_to_Cons bucket_ac)
qed

lemma bucket_updates [simp]:
  "b\<lparr>b_hits := x, b_bytes := z\<rparr> = \<lparr>b_hits = x, b_misses = b_misses b, b_bytes = z\<rparr>"
  "b\<lparr>b_misses := y, b_bytes := z\<rparr> = \<lparr>b_hits = b_hits b, b_misses = y, b_bytes = z\<rparr>"
  by (cases b; simp)+

lemma rollup_add_to: "rollup_add shw now ev bs = add_to (event_key shw now ev) (bucket_of ev) bs"
  by (simp add: rollup_add_def add_to_def bucket_of_def plus_bucket_def empty_bucket_def Let_def split: option.split)

lemma insert_rows_sum: "bucket_sum Q (insert_rows snap t) = plus_bucket (bucket_sum Q t) (bucket_sum (Q \<circ> row_of) snap)"
  by (induction snap t rule: insert_rows.induct) (simp_all add: add_to_sum bucket_ac)

lemma put_back_sum: "bucket_sum P (put_back snap bs) = plus_bucket (bucket_sum P bs) (bucket_sum P snap)"
  by (induction snap bs rule: put_back.induct) (simp_all add: add_to_sum bucket_ac)

text \<open>All that the consumer has for the rows \<open>Q\<close>, in the table, in flight and in the buckets.\<close>

definition flying_sum :: "(string \<Rightarrow> bool) \<Rightarrow> buckets list \<Rightarrow> bucket" where
  "flying_sum P fs = foldr plus_bucket (map (bucket_sum P) fs) empty_bucket"

definition held :: "(string \<times> string \<Rightarrow> bool) \<Rightarrow> consumer \<Rightarrow> bucket" where
  "held Q c = plus_bucket (bucket_sum Q (ac_table c))
     (plus_bucket (flying_sum (Q \<circ> row_of) (ac_flying c)) (bucket_sum (Q \<circ> row_of) (ac_buckets c)))"

lemma flying_simps [simp]:
  "flying_sum P [] = empty_bucket" "flying_sum P (f # fs) = plus_bucket (bucket_sum P f) (flying_sum P fs)"
  "flying_sum P (fs @ gs) = plus_bucket (flying_sum P fs) (flying_sum P gs)"
  by (induction fs) (simp_all add: flying_sum_def bucket.assoc)

lemma flying_take:
  assumes "i < length fs"
  shows "flying_sum P fs = plus_bucket (bucket_sum P (fs ! i)) (flying_sum P (take i fs @ drop (Suc i) fs))"
  using arg_cong [OF id_take_nth_drop [OF assms], of "flying_sum P"] by (simp add: bucket_ac)

text \<open>The events that were consumed, for the rows \<open>Q\<close>, and what they are worth.\<close>

fun consumed :: "(int \<Rightarrow> string) \<Rightarrow> (string \<times> string \<Rightarrow> bool) \<Rightarrow> consumer_action list \<Rightarrow> log_event list" where
  "consumed shw Q [] = []"
| "consumed shw Q (Consumed now ev # ss) =
     (if Q (row_of (event_key shw now ev)) then ev # consumed shw Q ss else consumed shw Q ss)"
| "consumed shw Q (a # ss) = consumed shw Q ss"

definition worth :: "log_event list \<Rightarrow> bucket" where
  "worth evs = \<lparr>b_hits = length (filter (\<lambda>e. ev_result e \<in> {''hit'', ''stale''}) evs),
     b_misses = length (filter (\<lambda>e. ev_result e \<notin> {''hit'', ''stale''}) evs),
     b_bytes = (\<Sum>e\<leftarrow>evs. unat (ev_bytesServed e))\<rparr>"

lemma worth_simps [simp]: "worth [] = empty_bucket" "worth (ev # evs) = plus_bucket (bucket_of ev) (worth evs)"
  by (simp_all add: worth_def bucket_of_def plus_bucket_def empty_bucket_def Let_def)

lemma finish_held:
  assumes "i < length (ac_flying c)"
  shows "held Q c = plus_bucket (held Q (flush_finish i e c))
    (if e = NoClient then bucket_sum (Q \<circ> row_of) (ac_flying c ! i) else empty_bucket)"
  using assms flying_take [OF assms, of "Q \<circ> row_of"]
  by (cases e) (simp_all add: held_def flush_finish_def Let_def insert_rows_sum put_back_sum bucket_ac)

lemma step_held:
  assumes "\<forall>i. a \<noteq> FlushEnds i NoClient"
  shows "held Q (consumer_step shw a c) = plus_bucket (held Q c) (worth (consumed shw Q [a]))"
proof (cases a)
  case (FlushEnds i e)
  with assms finish_held [of i c Q e] show ?thesis
    by (cases "i < length (ac_flying c)") (auto simp: flush_finish_def)
qed (simp_all add: held_def rollup_add_to add_to_sum flush_begin_def bucket_ac)

lemma run_held:
  "\<forall>i. FlushEnds i NoClient \<notin> set ss \<Longrightarrow>
     held Q (consumer_run shw ss c) = plus_bucket (held Q c) (worth (consumed shw Q ss))"
proof (induction ss arbitrary: c)
  case (Cons a ss)
  have "held Q (consumer_step shw a c) = plus_bucket (held Q c) (worth (consumed shw Q [a]))"
    using Cons.prems by (intro step_held) auto
  moreover have "worth (consumed shw Q (a # ss)) = plus_bucket (worth (consumed shw Q [a])) (worth (consumed shw Q ss))"
    by (cases a) simp_all
  ultimately show ?case using Cons.IH [of "consumer_step shw a c"] Cons.prems by (simp add: consumer_run_def bucket_ac)
qed (simp add: consumer_run_def)

text \<open>One row of the table.\<close>

lemma insert_rows_distinct: "distinct (map fst t) \<Longrightarrow> distinct (map fst (insert_rows snap t))"
  by (induction snap t rule: insert_rows.induct) (simp_all add: add_to_def distinct_update)

lemma run_distinct: "distinct (map fst (ac_table c)) \<Longrightarrow> distinct (map fst (ac_table (consumer_run shw ss c)))"
proof (induction ss arbitrary: c)
  case (Cons a ss)
  have "distinct (map fst (ac_table (consumer_step shw a c)))"
    using Cons.prems
    by (cases a) (auto simp: flush_begin_def flush_finish_def Let_def insert_rows_distinct split: flush_end.split)
  from Cons.IH [OF this] show ?case by (simp add: consumer_run_def)
qed (simp add: consumer_run_def)

lemma bucket_sum_row:
  "distinct (map fst t) \<Longrightarrow> bucket_sum (\<lambda>r. r = row) t = (case map_of t row of None \<Rightarrow> empty_bucket | Some b \<Rightarrow> b)"
proof (induction t)
  case (Cons x t)
  then show ?case by (cases x) (auto split: option.split simp: image_iff dest: map_of_SomeD)
qed simp

lemma row_of_key:
  assumes "CHR '' '' \<notin> set p" "CHR '' '' \<notin> set hr"
  shows "row_of (p @ '' '' @ hr) = (p, hr)"
proof -
  have "takeWhile (\<lambda>c. c \<noteq> CHR '' '') hr = hr" using assms(2) by (auto simp: takeWhile_eq_all_conv)
  moreover have "\<forall>c \<in> set p. c \<noteq> CHR '' ''" using assms(1) by auto
  ultimately show ?thesis by (simp add: row_of_def takeWhile_append2 dropWhile_append2 takeWhile_append1)
qed

text \<open>A flush that gets no connection has taken the buckets already and does not put them back.\<close>

lemma no_client_loses: "consumer_run shw [Consumed now ev, FlushBegins, FlushEnds 0 NoClient] new_consumer = new_consumer"
  by (simp add: consumer_run_def rollup_add_to add_to_def flush_begin_def flush_finish_def new_consumer_def Let_def)

section \<open>Properties\<close>


definition seen :: log_event where
  "seen = \<lparr>ev_timestampMs = 3600005, ev_replicaId = ''r'', ev_path = ''/a'', ev_cacheKey = ''k'', ev_result = ''stale'',
     ev_status = 200, ev_latencyMs = 0, ev_bytesServed = 7\<rparr>"


end
