(* ===== verification/FakeOrigin.thy ===== *)
theory FakeOrigin
  imports Reaching
begin

text \<open>
  \<^verbatim>\<open>origin/FakeOriginClient.h\<close>: the origin client of the tests, which counts its calls and leaves the
  answer to a function. A function that gives answers of a sensible size is an environment of the
  handler like the network client is, so what holds of every server holds of one under test.
\<close>

type_synonym responder = "http_request \<Rightarrow> origin_target \<Rightarrow> origin_result"

record fake_origin =
  fo_responder :: responder
  fo_fetches :: u64

definition new_fake_origin :: "responder \<Rightarrow> fake_origin" where
  "new_fake_origin r = \<lparr>fo_responder = r, fo_fetches = 0\<rparr>"

definition fake_fetch :: "http_request \<Rightarrow> origin_target \<Rightarrow> fake_origin \<Rightarrow> origin_result \<times> fake_origin" where
  "fake_fetch req target fo = (fo_responder fo req target, fo\<lparr>fo_fetches := fo_fetches fo + 1\<rparr>)"

definition fetchCount :: "fake_origin \<Rightarrow> u64" where
  "fetchCount fo = fo_fetches fo"

definition resetCount :: "fake_origin \<Rightarrow> fake_origin" where
  "resetCount fo = fo\<lparr>fo_fetches := 0\<rparr>"

fun fake_fetches :: "(http_request \<times> origin_target) list \<Rightarrow> fake_origin \<Rightarrow> origin_result list \<times> fake_origin" where
  "fake_fetches [] fo = ([], fo)"
| "fake_fetches ((req, t) # qs) fo =
     (let (r, fo) = fake_fetch req t fo; (rs, fo) = fake_fetches qs fo in (r # rs, fo))"

lemma fake_fetches_all:
  "fake_fetches qs fo = (map (\<lambda>(req, t). fo_responder fo req t) qs, fo\<lparr>fo_fetches := fo_fetches fo + of_nat (length qs)\<rparr>)"
proof (induction qs arbitrary: fo)
  case (Cons q qs)
  then show ?case by (cases q) (simp add: fake_fetch_def Let_def algebra_simps)
qed simp

lemma counted_since_reset: "fetchCount (snd (fake_fetches qs (resetCount fo))) = of_nat (length qs)"
  by (simp add: fake_fetches_all fetchCount_def resetCount_def)

text \<open>Answers below $2^{60}$ bytes with a well-formed header table.\<close>

definition sensible :: "responder \<Rightarrow> bool" where
  "sensible r \<longleftrightarrow> (\<forall>req t. or_ok (r req t) \<longrightarrow>
     resp_bytes (or_response (r req t)) < 2 ^ 60 \<and> hinv (resp_headers (or_response (r req t))))"

lemma fake_environment: "sensible r \<Longrightarrow> environment h caps tier (calm r) (\<lambda>s. Some)"
  by unfold_locales (auto simp: sensible_def calm_def slots_grow_def)

lemma fake_server_answers:
  assumes "sized_config cfg" "sensible (fo_responder fo)" "sv_reach cfg h srt sv"
  shows "\<exists>resp sv'. serve cfg (calm (\<lambda>req t. fst (fake_fetch req t fo))) (\<lambda>s. Some) h req sv = Some (resp, sv') \<and>
    sv_reach cfg h srt sv'"
proof -
  have "(\<lambda>req t. fst (fake_fetch req t fo)) = fo_responder fo" by (simp add: fake_fetch_def)
  with reach_serves [OF assms(1) fake_environment [OF assms(2)] assms(3), of req] show ?thesis by auto
qed

end
