(* ===== verification/ControlPlane.thy ===== *)
theory ControlPlane
  imports CacheKey RuleStore "HOL-Library.AList" "HOL-Library.Multiset"
begin

text \<open>
  What the control plane (\<^verbatim>\<open>control-plane/src\<close>) writes to the Redis that the proxies read: the hash of rules
  after each request to its API, the eviction of the shared tier for a purge, and who may ask. Redis is a parameter:
  the commands are the record \<open>redis\<close>, and \<open>redis_ok\<close> says what they are documented to do to the hashes
  (\<open>hv\<close>) and the keys (\<open>kv\<close>). The table of rules is a list of rows in the order of their creation; its
  column of patterns is not unique.
\<close>

section \<open>Redis and the table\<close>

record 's redis =
  rd_hset :: "string \<Rightarrow> string \<Rightarrow> string \<Rightarrow> 's \<Rightarrow> 's"
  rd_hdel :: "string \<Rightarrow> string \<Rightarrow> 's \<Rightarrow> 's"
  rd_del :: "string list \<Rightarrow> 's \<Rightarrow> nat \<times> 's"
  rd_publish :: "string \<Rightarrow> string \<Rightarrow> 's \<Rightarrow> nat \<times> 's"

definition redis_ok :: "'s redis \<Rightarrow> ('s \<Rightarrow> string \<Rightarrow> string \<Rightarrow> string option) \<Rightarrow> ('s \<Rightarrow> string \<Rightarrow> string option) \<Rightarrow> bool" where
  "redis_ok R hv kv \<longleftrightarrow>
     (\<forall>k f v s. hv (rd_hset R k f v s) = (hv s)(k := (hv s k)(f \<mapsto> v)) \<and> kv (rd_hset R k f v s) = kv s) \<and>
     (\<forall>k f s. hv (rd_hdel R k f s) = (hv s)(k := (hv s k)(f := None)) \<and> kv (rd_hdel R k f s) = kv s) \<and>
     (\<forall>ks s. hv (snd (rd_del R ks s)) = (\<lambda>k. if k \<in> set ks then Map.empty else hv s k) \<and>
       kv (snd (rd_del R ks s)) = kv s |` (- set ks)) \<and>
     (\<forall>ch m s. hv (snd (rd_publish R ch m s)) = hv s \<and> kv (snd (rd_publish R ch m s)) = kv s)"

record plane_config =
  pc_rulesHashKey :: string
  pc_purgeChannel :: string
  pc_ruleUpdateChannel :: string
  pc_l2KeyPrefix :: string

type_synonym rule_rows = "(string \<times> rule) list"

record 's plane =
  pl_rules :: rule_rows
  pl_redis :: 's

section \<open>Rules\<close>

definition upsertRule :: "'s redis \<Rightarrow> plane_config \<Rightarrow> rule \<Rightarrow> 's \<Rightarrow> 's" where
  "upsertRule R cfg r s =
     snd (rd_publish R (pc_ruleUpdateChannel cfg) (r_pattern r) (rd_hset R (pc_rulesHashKey cfg) (r_pattern r) (ruleValue r) s))"

definition removeRule :: "'s redis \<Rightarrow> plane_config \<Rightarrow> string \<Rightarrow> 's \<Rightarrow> 's" where
  "removeRule R cfg pat s =
     snd (rd_publish R (pc_ruleUpdateChannel cfg) pat (rd_hdel R (pc_rulesHashKey cfg) pat s))"

definition reconcileAll :: "'s redis \<Rightarrow> plane_config \<Rightarrow> rule list \<Rightarrow> 's \<Rightarrow> 's" where
  "reconcileAll R cfg rs s =
     (let s = snd (rd_del R [pc_rulesHashKey cfg] s);
          s = fold (\<lambda>r s. rd_hset R (pc_rulesHashKey cfg) (r_pattern r) (ruleValue r) s) rs s
      in snd (rd_publish R (pc_ruleUpdateChannel cfg) ''*'' s))"

text \<open>The columns an update changes.\<close>

record rule_patch =
  pt_pattern :: "string option"
  pt_ttl :: "u64 option"
  pt_swr :: "u64 option"
  pt_originId :: "string option"

definition patched :: "rule_patch \<Rightarrow> rule \<Rightarrow> rule" where
  "patched p r =
     \<lparr>r_pattern = (case pt_pattern p of None \<Rightarrow> r_pattern r | Some x \<Rightarrow> x), r_ttl = (case pt_ttl p of None \<Rightarrow> r_ttl r | Some x \<Rightarrow> x),
      r_swr = (case pt_swr p of None \<Rightarrow> r_swr r | Some x \<Rightarrow> x), r_originId = (case pt_originId p of None \<Rightarrow> r_originId r | Some x \<Rightarrow> x)\<rparr>"

text \<open>The API, for a request that was authorised and whose body was accepted, a database that answers and a Redis that takes the command. The
  result is whether the row was found.\<close>

definition post_rule :: "'s redis \<Rightarrow> plane_config \<Rightarrow> string \<Rightarrow> rule \<Rightarrow> 's plane \<Rightarrow> 's plane" where
  "post_rule R cfg i r p = p\<lparr>pl_rules := pl_rules p @ [(i, r)], pl_redis := upsertRule R cfg r (pl_redis p)\<rparr>"

definition put_rule :: "'s redis \<Rightarrow> plane_config \<Rightarrow> string \<Rightarrow> rule_patch \<Rightarrow> 's plane \<Rightarrow> bool \<times> 's plane" where
  "put_rule R cfg i patch p = (case map_of (pl_rules p) i of None \<Rightarrow> (False, p)
     | Some r \<Rightarrow> (let r' = patched patch r in
         (True, p\<lparr>pl_rules := AList.update i r' (pl_rules p), pl_redis := upsertRule R cfg r' (pl_redis p)\<rparr>)))"

definition delete_rule :: "'s redis \<Rightarrow> plane_config \<Rightarrow> string \<Rightarrow> 's plane \<Rightarrow> bool \<times> 's plane" where
  "delete_rule R cfg i p = (case map_of (pl_rules p) i of None \<Rightarrow> (False, p)
     | Some r \<Rightarrow> (True, p\<lparr>pl_rules := AList.delete i (pl_rules p), pl_redis := removeRule R cfg (r_pattern r) (pl_redis p)\<rparr>))"

section \<open>Who may ask\<close>

text \<open>The token of an \<^verbatim>\<open>Authorization\<close> header by the expression \<^verbatim>\<open>/^Bearer\s+(.+)$/i\<close>. A header has no
  line break, so the token is what follows the spaces, or the last of them when nothing follows.\<close>

definition js_space :: "char \<Rightarrow> bool" where
  "js_space c \<longleftrightarrow> c \<in> {CHR 0x09, CHR 0x0A, CHR 0x0B, CHR 0x0C, CHR 0x0D, CHR '' '', CHR 0xA0}"

definition bearer_token :: "string \<Rightarrow> string option" where
  "bearer_token header =
     (let rest = drop 6 header; ws = takeWhile js_space rest; tok = dropWhile js_space rest
      in if lower (take 6 header) \<noteq> ''bearer'' \<or> ws = [] then None
         else if tok \<noteq> [] then Some tok
         else if 2 \<le> length ws then Some [last ws] else None)"

definition requireAdmin :: "string \<Rightarrow> string option \<Rightarrow> bool" where
  "requireAdmin adminApiKey header =
     (case bearer_token (case header of None \<Rightarrow> [] | Some h \<Rightarrow> h) of None \<Rightarrow> False
      | Some tok \<Rightarrow> tok \<noteq> [] \<and> tok = adminApiKey)"

text \<open>Only a header that ends in the whole key passes, so an empty key locks everybody out; and the key as
  clients send it passes.\<close>

lemma admin_has_key:
  assumes "requireAdmin key header"
  shows "key \<noteq> [] \<and> (\<exists>h. header = Some h \<and> suffix key h \<and> 7 \<le> length h)"
proof -
  from assms obtain h where h: "header = Some h" "bearer_token h = Some key" "key \<noteq> []"
    by (cases header) (auto simp: requireAdmin_def bearer_token_def Let_def split: option.splits if_splits)
  let ?rest = "drop 6 h"
  have "?rest \<noteq> []" using h(2) by (auto simp: bearer_token_def Let_def split: if_splits)
  moreover have "suffix key ?rest"
  proof (cases "dropWhile js_space ?rest = []")
    case True
    then have w: "takeWhile js_space ?rest = ?rest" by (metis append_Nil2 takeWhile_dropWhile_id)
    have "key = [last ?rest]" using h(2) unfolding bearer_token_def Let_def True w by (simp split: if_splits)
    with \<open>?rest \<noteq> []\<close> show ?thesis by (metis append_butlast_last_id suffixI)
  next
    case False
    with h(2) show ?thesis by (auto simp: bearer_token_def Let_def suffix_dropWhile split: if_splits)
  qed
  ultimately show ?thesis using h suffix_drop [of 6 h] suffix_order.trans by fastforce
qed

lemma key_is_admitted: "key \<noteq> [] \<Longrightarrow> \<not> js_space (hd key) \<Longrightarrow> requireAdmin key (Some (''Bearer '' @ key))"
proof -
  assume k: "key \<noteq> []" "\<not> js_space (hd key)"
  have "js_space CHR '' ''" "lower ''Bearer'' = ''bearer''" by code_simp+
  moreover have "dropWhile js_space key = key" using k by (cases key) auto
  ultimately show ?thesis using k(1) by (simp add: requireAdmin_def bearer_token_def)
qed

section \<open>Purges\<close>

text \<open>\<open>pages\<close> are the replies to \<^verbatim>\<open>SCAN\<close>: the next cursor and some keys, or a failure, which \<^verbatim>\<open>purgeL2\<close>
  throws. \<open>None\<close> is an iteration that Redis does not finish.\<close>

fun purgeL2_loop :: "'s redis \<Rightarrow> plane_config \<Rightarrow> string \<Rightarrow> (string \<times> string list) option list \<Rightarrow> nat \<Rightarrow> 's \<Rightarrow> (nat option \<times> 's) option" where
  "purgeL2_loop R cfg pattern [] deleted s = None"
| "purgeL2_loop R cfg pattern (None # pages) deleted s = Some (None, s)"
| "purgeL2_loop R cfg pattern (Some (next', ks) # pages) deleted s =
     (let toDelete = filter (\<lambda>k. l2PathMatches (pc_l2KeyPrefix cfg) k pattern) ks;
          (n, s) = (if toDelete \<noteq> [] then rd_del R toDelete s else (0, s))
      in if next' \<noteq> ''0'' then purgeL2_loop R cfg pattern pages (deleted + n) s else Some (Some (deleted + n), s))"

definition purgeL2 :: "'s redis \<Rightarrow> plane_config \<Rightarrow> string \<Rightarrow> (string \<times> string list) option list \<Rightarrow> 's \<Rightarrow> (nat option \<times> 's) option" where
  "purgeL2 R cfg pattern pages s = purgeL2_loop R cfg pattern pages 0 s"

text \<open>The shared tier first, then the fleet, which is told also when the tier could not be cleared.\<close>

definition post_purge :: "'s redis \<Rightarrow> plane_config \<Rightarrow> string \<Rightarrow> (string \<times> string list) option list \<Rightarrow> 's \<Rightarrow> (nat \<times> nat \<times> 's) option" where
  "post_purge R cfg pattern pages s = (case purgeL2 R cfg pattern pages s of None \<Rightarrow> None
     | Some (evicted, s) \<Rightarrow> (let (subscribers, s) = rd_publish R (pc_purgeChannel cfg) pattern s in
         Some (subscribers, (case evicted of None \<Rightarrow> 0 | Some n \<Rightarrow> n), s)))"

section \<open>What a purge leaves in the shared tier\<close>

text \<open>A full iteration: it ends, with the first cursor that is zero, and gives every key that was there all along.\<close>

definition full_scan :: "(string \<times> string list) list \<Rightarrow> string set \<Rightarrow> bool" where
  "full_scan pages ks \<longleftrightarrow> pages \<noteq> [] \<and> fst (last pages) = ''0'' \<and> (\<forall>p \<in> set (butlast pages). fst p \<noteq> ''0'') \<and>
     ks \<subseteq> (\<Union>p \<in> set pages. set (snd p))"

lemma purgeL2_loop_keys:
  assumes "redis_ok R hv kv"
  shows "pages \<noteq> [] \<Longrightarrow> fst (last pages) = ''0'' \<Longrightarrow> (\<forall>p \<in> set (butlast pages). fst p \<noteq> ''0'') \<Longrightarrow>
    \<exists>n s'. purgeL2_loop R cfg pattern (map Some pages) d s = Some (Some n, s') \<and>
      kv s' = kv s |` (- {k \<in> \<Union>p \<in> set pages. set (snd p). l2PathMatches (pc_l2KeyPrefix cfg) k pattern})"
proof (induction pages arbitrary: d s)
  case (Cons page pages)
  obtain nx ks where page: "page = (nx, ks)" by (cases page)
  let ?del = "filter (\<lambda>k. l2PathMatches (pc_l2KeyPrefix cfg) k pattern) ks"
  obtain n s1 where del: "(if ?del \<noteq> [] then rd_del R ?del s else (0, s)) = (n, s1)" by (metis surj_pair)
  have "kv (snd (rd_del R ?del s)) = kv s |` (- set ?del)" using assms by (simp add: redis_ok_def)
  then have s1: "kv s1 = kv s |` (- set ?del)" using del by (cases "?del = []") (auto simp: restrict_map_def split: if_splits)
  show ?case
  proof (cases "nx = ''0''")
    case True
    then have "pages = []" using Cons.prems(3) page by (cases pages) auto
    with True page del s1 show ?thesis by (auto simp: Let_def restrict_map_def fun_eq_iff)
  next
    case False
    then have ne: "pages \<noteq> []" using Cons.prems(2) page by auto
    with Cons.IH [of "d + n" s1] Cons.prems(2,3) page obtain n' s' where
      "purgeL2_loop R cfg pattern (map Some pages) (d + n) s1 = Some (Some n', s')"
      "kv s' = kv s1 |` (- {k \<in> \<Union>p \<in> set pages. set (snd p). l2PathMatches (pc_l2KeyPrefix cfg) k pattern})" by auto
    with False page del s1 show ?thesis by (auto simp: Let_def restrict_map_def fun_eq_iff)
  qed
qed simp

section \<open>The hash mirrors the table\<close>

definition mirrored :: "('s \<Rightarrow> string \<Rightarrow> string \<Rightarrow> string option) \<Rightarrow> plane_config \<Rightarrow> 's plane \<Rightarrow> bool" where
  "mirrored hv cfg p \<longleftrightarrow> distinct (map fst (pl_rules p)) \<and> distinct (map (r_pattern \<circ> snd) (pl_rules p)) \<and>
     hv (pl_redis p) (pc_rulesHashKey cfg) = map_of (map (\<lambda>(i, r). (r_pattern r, ruleValue r)) (pl_rules p))"

lemma upsert_hash: "redis_ok R hv kv \<Longrightarrow> hv (upsertRule R cfg r s) (pc_rulesHashKey cfg) =
    (hv s (pc_rulesHashKey cfg))(r_pattern r \<mapsto> ruleValue r)"
  by (simp add: redis_ok_def upsertRule_def)

lemma remove_hash: "redis_ok R hv kv \<Longrightarrow> hv (removeRule R cfg pat s) (pc_rulesHashKey cfg) =
    (hv s (pc_rulesHashKey cfg))(pat := None)"
  by (simp add: redis_ok_def removeRule_def)

lemma post_mirrored:
  assumes "redis_ok R hv kv" "mirrored hv cfg p" "i \<notin> fst ` set (pl_rules p)" "r_pattern r \<notin> (r_pattern \<circ> snd) ` set (pl_rules p)"
  shows "mirrored hv cfg (post_rule R cfg i r p)"
proof -
  let ?f = "\<lambda>(i, r). (r_pattern r, ruleValue r)"
  have "r_pattern r \<notin> dom (map_of (map ?f (pl_rules p)))"
    using assms(4) by (auto simp: dom_map_of_conv_image_fst image_iff)
  then have "(map_of (map ?f (pl_rules p)))(r_pattern r \<mapsto> ruleValue r) = [r_pattern r \<mapsto> ruleValue r] ++ map_of (map ?f (pl_rules p))"
    by (auto simp: fun_eq_iff map_add_def split: option.split)
  with assms show ?thesis
    by (simp add: mirrored_def post_rule_def upsert_hash map_add_def)
qed

lemma update_rows:
  assumes "map_of rows i = Some r" "r_pattern r' = r_pattern r" "distinct (map (r_pattern \<circ> snd) rows)"
  shows "map (r_pattern \<circ> snd) (AList.update i r' rows) = map (r_pattern \<circ> snd) rows \<and>
    map_of (map (\<lambda>(i, r). (r_pattern r, ruleValue r)) (AList.update i r' rows)) =
      (map_of (map (\<lambda>(i, r). (r_pattern r, ruleValue r)) rows))(r_pattern r \<mapsto> ruleValue r')"
  using assms
proof (induction rows)
  case (Cons x rows)
  obtain j q where x: "x = (j, q)" by (cases x)
  show ?case
  proof (cases "j = i")
    case False
    with Cons.prems x have "map_of rows i = Some r" by simp
    then have "r_pattern r \<in> (r_pattern \<circ> snd) ` set rows" using image_eqI [of _ "r_pattern \<circ> snd"] map_of_SomeD by fastforce
    moreover have "r_pattern q \<notin> (r_pattern \<circ> snd) ` set rows" using Cons.prems(3) x by simp
    ultimately have "r_pattern q \<noteq> r_pattern r" by metis
    with Cons x False show ?thesis by (auto simp: fun_upd_twist)
  qed (use Cons.prems x in \<open>simp add: fun_eq_iff\<close>)
qed simp

lemma put_mirrored:
  assumes "redis_ok R hv kv" "mirrored hv cfg p" "pt_pattern patch = None"
  shows "mirrored hv cfg (snd (put_rule R cfg i patch p))"
proof (cases "map_of (pl_rules p) i")
  case (Some r)
  have same: "r_pattern (patched patch r) = r_pattern r" using assms(3) by (simp add: patched_def)
  note u = update_rows [OF Some same]
  show ?thesis
    using assms Some u same by (simp add: mirrored_def put_rule_def Let_def upsert_hash distinct_update fun_eq_iff)
qed (use assms in \<open>simp add: put_rule_def\<close>)

lemma delete_mirrored:
  assumes "redis_ok R hv kv" "mirrored hv cfg p"
  shows "mirrored hv cfg (snd (delete_rule R cfg i p))"
proof (cases "map_of (pl_rules p) i")
  case (Some r)
  have "map_of (map (\<lambda>(i, r). (r_pattern r, ruleValue r)) (AList.delete i rows)) =
      (map_of (map (\<lambda>(i, r). (r_pattern r, ruleValue r)) rows))(r_pattern r := None) \<and>
      set (map (r_pattern \<circ> snd) (AList.delete i rows)) \<subseteq> set (map (r_pattern \<circ> snd) rows) \<and>
      distinct (map (r_pattern \<circ> snd) (AList.delete i rows))"
    if "map_of rows i = Some r" "distinct (map fst rows)" "distinct (map (r_pattern \<circ> snd) rows)" for rows
    using that
  proof (induction rows)
    case (Cons x rows)
    obtain j q where x: "x = (j, q)" by (cases x)
    show ?case
    proof (cases "j = i")
      case True
      with Cons.prems x have q: "q = r" "i \<notin> fst ` set rows" "r_pattern r \<notin> (r_pattern \<circ> snd) ` set rows" by auto
      then have "AList.delete i rows = rows" by (simp add: delete_conv' delete_idem image_iff)
      moreover have "map_of (map (\<lambda>(i, r). (r_pattern r, ruleValue r)) rows) (r_pattern r) = None"
        using q(3) by (force simp: map_of_eq_None_iff)
      ultimately show ?thesis using Cons.prems True x q by (auto simp: fun_eq_iff)
    next
      case False
      with Cons.prems x have m: "map_of rows i = Some r" by simp
      then have "r_pattern r \<in> (r_pattern \<circ> snd) ` set rows" using image_eqI [of _ "r_pattern \<circ> snd"] map_of_SomeD by fastforce
      moreover have "r_pattern q \<notin> (r_pattern \<circ> snd) ` set rows" using Cons.prems(3) x by simp
      ultimately have "r_pattern q \<noteq> r_pattern r" by metis
      with Cons.IH [OF m] Cons.prems x False show ?thesis by (auto simp: fun_upd_twist)
    qed
  qed simp
  from this [of "pl_rules p"] Some assms show ?thesis
    by (simp add: mirrored_def delete_rule_def remove_hash distinct_delete fun_eq_iff)
qed (use assms in \<open>simp add: delete_rule_def\<close>)

text \<open>When the control plane starts it rebuilds the hash from the rows, in the order in which the database lists
  them: whatever was in the hash, it then mirrors a table without a duplicate pattern.\<close>

lemma hset_all:
  assumes "redis_ok R hv kv"
  shows "hv (fold (\<lambda>r s. rd_hset R k (r_pattern r) (ruleValue r) s) rs s) k =
    hv s k ++ map_of (rev (map (\<lambda>r. (r_pattern r, ruleValue r)) rs))"
proof (induction rs arbitrary: s)
  case (Cons r rs)
  have "hv (rd_hset R k (r_pattern r) (ruleValue r) s) k = (hv s k)(r_pattern r \<mapsto> ruleValue r)" using assms by (simp add: redis_ok_def)
  with Cons show ?case by (simp add: map_add_def fun_eq_iff split: option.split)
qed simp

lemma reconcile_mirrored:
  assumes "redis_ok R hv kv" "distinct (map fst (pl_rules p))" "distinct (map (r_pattern \<circ> snd) (pl_rules p))"
    and "mset rs = mset (map snd (pl_rules p))"
  shows "mirrored hv cfg (p\<lparr>pl_redis := reconcileAll R cfg rs s\<rparr>)"
proof -
  let ?f = "\<lambda>r. (r_pattern r, ruleValue r)" and ?k = "pc_rulesHashKey cfg"
  have ok: "hv (snd (rd_del R ks s)) = (\<lambda>k. if k \<in> set ks then Map.empty else hv s k)" "hv (snd (rd_publish R ch m s)) = hv s" for ks ch m s
    using assms(1) by (simp_all add: redis_ok_def)
  have hash: "hv (reconcileAll R cfg rs s) ?k = map_of (rev (map ?f rs))"
    by (simp add: reconcileAll_def Let_def ok hset_all [OF assms(1)])
  have pats: "mset (map r_pattern rs) = mset (map (r_pattern \<circ> snd) (pl_rules p))" using assms(4) by (metis mset_map map_map)
  then have d: "distinct (map r_pattern rs)" using assms(3) by (metis mset_eq_imp_distinct_iff)
  have "map_of (rev (map ?f rs)) = map_of (map (?f \<circ> snd) (pl_rules p))"
  proof (rule map_of_inject_set [THEN iffD2])
    show "distinct (map fst (rev (map ?f rs)))" using d by (simp add: comp_def rev_map [symmetric])
    show "distinct (map fst (map (?f \<circ> snd) (pl_rules p)))" using assms(3) by (simp add: comp_def)
    have "set rs = set (map snd (pl_rules p))" using assms(4) by (metis set_mset_mset)
    then show "set (rev (map ?f rs)) = set (map (?f \<circ> snd) (pl_rules p))" by (simp add: image_comp)
  qed
  moreover have rows: "(\<lambda>(i, r). ?f r) = ?f \<circ> snd" by (simp add: fun_eq_iff case_prod_beta)
  ultimately show ?thesis using assms(2,3) hash unfolding mirrored_def rows by simp
qed

text \<open>What requests to the API reach that neither give a new rule a pattern in use nor change the pattern of
  a rule, and restarts of the control plane: the hash is the table.\<close>

inductive plane_reach :: "'s redis \<Rightarrow> ('s \<Rightarrow> string \<Rightarrow> string \<Rightarrow> string option) \<Rightarrow> plane_config \<Rightarrow> 's plane \<Rightarrow> bool" for R hv cfg where
  empty: "hv s (pc_rulesHashKey cfg) = Map.empty \<Longrightarrow> plane_reach R hv cfg \<lparr>pl_rules = [], pl_redis = s\<rparr>"
| post: "plane_reach R hv cfg p \<Longrightarrow> i \<notin> fst ` set (pl_rules p) \<Longrightarrow> r_pattern r \<notin> (r_pattern \<circ> snd) ` set (pl_rules p) \<Longrightarrow>
    plane_reach R hv cfg (post_rule R cfg i r p)"
| put: "plane_reach R hv cfg p \<Longrightarrow> pt_pattern patch = None \<Longrightarrow> plane_reach R hv cfg (snd (put_rule R cfg i patch p))"
| delete: "plane_reach R hv cfg p \<Longrightarrow> plane_reach R hv cfg (snd (delete_rule R cfg i p))"
| restart: "plane_reach R hv cfg p \<Longrightarrow> mset rs = mset (map snd (pl_rules p)) \<Longrightarrow>
    plane_reach R hv cfg (p\<lparr>pl_redis := reconcileAll R cfg rs s\<rparr>)"

lemma plane_reach_mirrored: "redis_ok R hv kv \<Longrightarrow> plane_reach R hv cfg p \<Longrightarrow> mirrored hv cfg p"
proof (rotate_tac, induction rule: plane_reach.induct)
  case (empty s)
  then show ?case by (simp add: mirrored_def)
next
  case (restart p rs s)
  then show ?case by (intro reconcile_mirrored) (simp_all add: mirrored_def)
qed (blast intro: post_mirrored put_mirrored delete_mirrored)+

text \<open>A rule that is given another pattern stays in force under the old one: nothing removes its field
  until the control plane starts again.\<close>

lemma renamed_rule_stays:
  assumes "redis_ok R hv kv" "mirrored hv cfg p" "map_of (pl_rules p) i = Some r"
    and "pt_pattern patch = Some pat" "pat \<noteq> r_pattern r"
  shows "hv (pl_redis (snd (put_rule R cfg i patch p))) (pc_rulesHashKey cfg) (r_pattern r) = Some (ruleValue r)"
proof -
  have "map_of (map (\<lambda>(i, r). (r_pattern r, ruleValue r)) (pl_rules p)) (r_pattern r) = Some (ruleValue r)"
    using assms(2) map_of_SomeD [OF assms(3)]
    by (intro map_of_is_SomeI) (force simp: mirrored_def comp_def case_prod_beta)+
  with assms show ?thesis by (simp add: put_rule_def Let_def upsert_hash mirrored_def patched_def)
qed

section \<open>Properties\<close>


text \<open>A Redis in memory, and a purge of a tier with three copies that arrive on two pages, one of them twice.\<close>

definition map_redis :: "((string \<Rightarrow> string \<Rightarrow> string option) \<times> (string \<Rightarrow> string option)) redis" where
  "map_redis = \<lparr>rd_hset = (\<lambda>k f v (hs, ks). (hs(k := (hs k)(f \<mapsto> v)), ks)), rd_hdel = (\<lambda>k f (hs, ks). (hs(k := (hs k)(f := None)), ks)),
     rd_del = (\<lambda>ds (hs, ks). (length ds, (\<lambda>k. if k \<in> set ds then Map.empty else hs k), ks |` (- set ds))),
     rd_publish = (\<lambda>ch m s. (1, s))\<rparr>"

lemma map_redis_ok: "redis_ok map_redis fst snd"
  by (simp add: redis_ok_def map_redis_def case_prod_beta)

definition plane_cfg :: plane_config where
  "plane_cfg = \<lparr>pc_rulesHashKey = ''rules'', pc_purgeChannel = ''purge'', pc_ruleUpdateChannel = ''updated'', pc_l2KeyPrefix = ''l2:''\<rparr>"

definition tier_keys :: "string list" where
  "tier_keys = [''l2:GET|h|/a/1'', ''l2:GET|h|/b'', ''l2:GET|h|/a/2?x=1'']"


end
