(* ===== verification/Fleet.thy ===== *)
theory Fleet
  imports System ControlPlane
begin

text \<open>
  The control plane and a proxy together: from a request to the API of the control plane, through the hash in
  Redis, to the decision about an answer of the proxy.
\<close>

text \<open>What \<^verbatim>\<open>HGETALL\<close> returns of a hash: its fields and their values, in any order.\<close>

definition fields_of :: "(string \<Rightarrow> string option) \<Rightarrow> (string \<times> string) list \<Rightarrow> bool" where
  "fields_of hash fvs \<longleftrightarrow> distinct (map fst fvs) \<and> map_of fvs = hash"

definition hash_reply :: "(string \<times> string) list \<Rightarrow> reply" where
  "hash_reply fvs = bulks (concat (map (\<lambda>(f, v). [f, v]) fvs))"

lemma fields_set: "fields_of hash fvs \<Longrightarrow> fields_of hash gvs \<Longrightarrow> set fvs = set gvs"
  unfolding fields_of_def by (metis map_of_eqI map_of_inject_set)

lemma fields_length:
  assumes "fields_of hash fvs" "fields_of hash gvs"
  shows "length fvs = length gvs"
proof -
  have "distinct fvs" "distinct gvs" using assms by (simp_all add: fields_of_def distinct_map)
  then show ?thesis using fields_set [OF assms] distinct_card by metis
qed

lemma mirrored_reply:
  assumes "mirrored hv pc p" "fields_of (hv (pl_redis p) (pc_rulesHashKey pc)) fvs"
  obtains rs where "hash_reply fvs = rules_hash rs" "set rs = snd ` set (pl_rules p)" "length rs = length (pl_rules p)"
proof -
  let ?f = "\<lambda>r. (r_pattern r, ruleValue r)" and ?R = "snd ` set (pl_rules p)"
  have d: "distinct (map (r_pattern \<circ> snd) (pl_rules p))" using assms(1) by (simp add: mirrored_def)
  have rows: "(\<lambda>(i, r). ?f r) = ?f \<circ> snd" by (simp add: fun_eq_iff case_prod_beta)
  have own: "fields_of (hv (pl_redis p) (pc_rulesHashKey pc)) (map (?f \<circ> snd) (pl_rules p))"
    using assms(1) d unfolding mirrored_def rows fields_of_def by (simp add: comp_def)
  have inj: "inj_on ?f ?R" using d by (auto simp: distinct_map inj_on_def)
  have fvs: "set fvs = ?f ` ?R" using fields_set [OF assms(2) own] by (simp add: image_comp)
  then have "fvs \<in> map ?f ` lists ?R" unfolding lists_image [symmetric] by auto
  then obtain rs where rs: "fvs = map ?f rs" "set rs \<subseteq> ?R" by auto
  have "?f ` set rs = ?f ` ?R" using fvs rs(1) by simp
  with inj rs(2) have set: "set rs = ?R" by (simp add: inj_on_image_eq_iff)
  have "length rs = length (pl_rules p)" using fields_length [OF assms(2) own] unfolding rs(1) by simp
  moreover have "hash_reply fvs = rules_hash rs" unfolding rs(1) by (simp add: hash_reply_def rules_hash_def comp_def)
  ultimately show thesis using that set by blast
qed

section \<open>Properties\<close>



end
