(* ===== verification/Spec2Isabelle.thy ===== *)
theory Spec2Isabelle
  imports Lifecycle Provenance Accounting Rollup FakeOrigin Fleet
begin

text \<open>
  A model of the EdgeCache proxy (\<^verbatim>\<open>src/proxy/src\<close>, C++17) with the theorems that make it correct.

  \<^bold>\<open>The program.\<close> The proxy is an HTTP cache in front of one origin. Each worker thread runs an
  \<^verbatim>\<open>EventLoop\<close>: it accepts connections, parses pipelined requests and hands every complete one to the
  \<^verbatim>\<open>RequestHandler\<close>. The handler looks the request's key up in the \<^verbatim>\<open>ShardedCache\<close>. A fresh copy is
  served; a copy in its stale window is served while a detached thread revalidates it; otherwise the
  \<^verbatim>\<open>InFlightRegistry\<close> makes one request per key the leader, which asks the shared tier
  (\<^verbatim>\<open>RedisL2Cache\<close>) and then the origin (\<^verbatim>\<open>HttpOriginClient\<close>, behind the \<^verbatim>\<open>CircuitBreaker\<close> of its
  host), stores what the \<^verbatim>\<open>RuleOverridePolicy\<close> over the \<^verbatim>\<open>HeaderBasedPolicy\<close> lets it store, and publishes
  the answer to the requests that wait. The \<^verbatim>\<open>RedisCoordinator\<close> has two threads: the subscriber runs
  purges and asks for reloads, the poller pings Redis and installs the rules in the
  \<^verbatim>\<open>RuleStore\<close>. The \<^verbatim>\<open>MetricsServer\<close> serves the text of the \<^verbatim>\<open>MetricsRegistry\<close>, and the
  \<^verbatim>\<open>KafkaAccessLogSink\<close> takes an event per request. \<^verbatim>\<open>ProxyServer\<close> wires them.

  \<^bold>\<open>The theories\<close>, in the order in which they build on each other. State is passed explicitly in records
  with the fields of the C++ classes, \<^verbatim>\<open>uint64_t\<close> and \<^verbatim>\<open>size_t\<close> are 64-bit words, a signed \<^verbatim>\<open>int\<close>
  or \<^verbatim>\<open>long\<close> is an \<open>int\<close> with its range written out, and a failing call returns an option.

    \<^item> \<open>Prelude\<close>: the string functions of the C++ library that the code uses (\<^verbatim>\<open>find\<close>, \<^verbatim>\<open>substr\<close>,
      \<^verbatim>\<open>getline\<close>, \<^verbatim>\<open>>>\<close>, \<^verbatim>\<open>stoull\<close>, \<^verbatim>\<open>stoi\<close>), durations, and lemmas on lists, maps and words.
    \<^item> \<open>OrdMap\<close>: \<^verbatim>\<open>std::map\<close> as a sorted association list over any strict weak order, as a locale
      interpreted for the header table, the breaker registry and the like.
    \<^item> \<open>Http\<close> (\<^verbatim>\<open>http/Http\<close>): messages, \<^verbatim>\<open>HttpResponse::serialize\<close>, the incremental
      \<^verbatim>\<open>RequestParser\<close>. A request on the wire is read back exactly; the parser is incremental.
    \<^item> \<open>CacheKey\<close> (\<^verbatim>\<open>cache/CacheKey\<close>, the matcher of \<^verbatim>\<open>LRUCache.cpp\<close> and its copy in the control plane).
    \<^item> \<open>CacheEntry\<close> (\<^verbatim>\<open>cache/CacheEntry.h\<close>): size and lifetimes at 64 bits.
    \<^item> \<open>CacheStore\<close>: the contract \<open>cache_store\<close> of a cache, a locale that \<open>LRUCache\<close> and
      \<open>ShardedCache\<close> interpret; what a client needs is proved in it once.
    \<^item> \<open>LRUCache\<close> (\<^verbatim>\<open>cache/LRUCache\<close>): list of nodes and index of iterators (a lookup of a dead iterator
      is \<open>None\<close>); it refines a recency list. \<open>ShardedCache\<close> (\<^verbatim>\<open>cache/ShardedCache\<close>) for every hash function.
    \<^item> \<open>RuleStore\<close> (\<^verbatim>\<open>redis/RuleStore\<close>, the JSON scanner of \<^verbatim>\<open>RedisCoordinator.cpp\<close>), \<open>CachePolicy\<close>
      (\<^verbatim>\<open>policy/\<close>), \<open>Config\<close> (\<^verbatim>\<open>config/Config\<close>).
    \<^item> \<open>CircuitBreaker\<close> (\<^verbatim>\<open>origin/CircuitBreaker\<close>, \<^verbatim>\<open>CircuitBreakerRegistry.h\<close>): the state machine, its
      invariant over all runs, and the isolation of hosts.
    \<^item> \<open>InFlight\<close> (\<^verbatim>\<open>coalesce/InFlightRegistry\<close>): the registry and, as an inductive step relation, any number
      of threads that run its protocol, with the two critical sections of \<^verbatim>\<open>publish\<close> apart.
    \<^item> \<open>Metrics\<close>, \<open>MetricsServer\<close> (\<^verbatim>\<open>metrics/\<close>): counters, histogram, page; one client at a time.
    \<^item> \<open>RedisClient\<close> (\<^verbatim>\<open>redis/RedisClient\<close>): RESP encoder and buffered reader. \<open>RedisL2\<close>
      (\<^verbatim>\<open>redis/RedisL2Cache\<close>): the blob format and both operations. \<open>RedisEnds\<close>: every operation on a
      connection that is broken in the end returns, so do the rounds of the coordinator. \<open>SharedTier\<close>: what the
      handler gets from the shared tier, whatever Redis holds.
    \<^item> \<open>RequestHandler\<close> (\<^verbatim>\<open>RequestHandler.cpp\<close>): every branch of \<^verbatim>\<open>process\<close>, \<^verbatim>\<open>handle\<close> and the
      revalidation over the record \<open>world\<close>. \<open>HandlerProperties\<close>: what the handler promises for every
      policy and origin.
    \<^item> \<open>HttpOriginClient\<close> (\<^verbatim>\<open>origin/HttpOriginClient\<close>): connecting, the request text, the receive loop, the
      answer's parser. \<open>Sizes\<close>: how large an answer and the entry made from it can be.
    \<^item> \<open>EventLoop\<close> (\<^verbatim>\<open>net/EventLoop\<close>): \<open>econn\<close> is \<^verbatim>\<open>Conn\<close> with its parser's buffer, and \<open>ec_sent\<close>, which
      only records what the socket took; \<open>el_main\<close> is the whole of \<^verbatim>\<open>run\<close>. \<open>Listener\<close>
      (\<^verbatim>\<open>net/Listener\<close>): making the socket.
    \<^item> \<open>RedisCoordinator\<close> (\<^verbatim>\<open>redis/RedisCoordinator\<close>): a round of each thread as a function, any interleaving
      of rounds, from \<^verbatim>\<open>start\<close> to \<^verbatim>\<open>stop\<close>, as \<open>co_run\<close>. \<open>KafkaAccessLogSink\<close> (\<^verbatim>\<open>analytics/\<close>).
    \<^item> \<open>ProxyServer\<close> (\<^verbatim>\<open>ProxyServer.cpp\<close>): the wiring. \<open>ServerProperties\<close>: the steps of all threads as the
      relation \<open>sv_step\<close>, the states \<open>sv_reach\<close>, the invariant \<open>sound\<close>, and what follows for requests,
      purges, header tables and the size of the cache.
    \<^item> \<open>System\<close> (\<^verbatim>\<open>ProxyServer::run\<close>, \<^verbatim>\<open>main.cpp\<close>): the server together with the connections of all
      workers, the steps of the whole process as \<open>sys_step\<close>, what each client is sent, that no worker gets
      stuck on what a client sends unless it announces a negative body length (\<open>benign\<close>), and the way of a
      rule from the hash in Redis to the next answer.
    \<^item> \<open>Fairness\<close>: runs that pass no thread over for ever, and the locale \<open>fair_ending\<close> of the systems that
      reach an end in each of them. \<open>Lifecycle\<close> (\<^verbatim>\<open>ProxyServer::run\<close> and \<^verbatim>\<open>stop\<close>, the signal handler of
      \<^verbatim>\<open>main.cpp\<close>, \<^verbatim>\<open>start\<close> and \<^verbatim>\<open>stop\<close> of the coordinator): the main thread and the flags around the
      system, as \<open>proc_step\<close>. The process refines the system, and a stop ends it.
    \<^item> \<open>Reaching\<close>: the states reached under further conditions (\<open>reach_when\<close>) and the locale
      \<open>world_invariant\<close>, which \<open>Provenance\<close> and \<open>Accounting\<close> interpret.
    \<^item> \<open>Provenance\<close>: that an answer belongs to the key of its request. The steps are those of
      \<open>ServerProperties\<close> with an origin whose answers are known (\<open>honest_reach\<close>). What other replicas write to the
      shared tier is relied on (\<open>vouched\<close>), what this one writes keeps the same promise (\<open>writes_given\<close>), and
      a blob that was written so is \<open>vouched\<close> when Redis returns it (\<open>written_vouched\<close>).
    \<^item> \<open>Accounting\<close>: the counters of the metrics against the events of the access log, column by column.
    \<^item> \<open>Rollup\<close> (\<^verbatim>\<open>analytics-consumer/src/rollup.ts\<close>): what becomes of the events, with flushes that
      overlap and fail. \<open>FakeOrigin\<close> (\<^verbatim>\<open>origin/FakeOriginClient.h\<close>): the origin client of the tests.
    \<^item> \<open>ControlPlane\<close> (\<^verbatim>\<open>control-plane/src\<close>): what the service that manages the rules writes to Redis. Its hash
      of rules is its table (\<open>mirrored\<close>), and a purge clears the shared tier of what the proxies purge. Redis is
      a parameter whose documented commands are \<open>redis_ok\<close>; \<open>map_redis\<close> is one. \<open>Fleet\<close>: the way of a rule from a
      request to the API to the next answer of a proxy.

  \<^bold>\<open>The environment.\<close> Sockets, name resolution, librdkafka and the clocks are not under
  \<^verbatim>\<open>src/\<close>. A socket is a list of the results its calls will give (bytes in pieces of any size,
  interruptions, pauses, errors), so a theorem about all lists is about all networks. A clock is an
  arbitrary sequence of readings. \<^verbatim>\<open>std::hash\<close>, \<^verbatim>\<open>std::sort\<close> (a permutation sorted by the
  comparator) and the printing of a \<^verbatim>\<open>double\<close> are parameters.

  \<^bold>\<open>Threads.\<close> A call under a mutex is one step. What other threads do while a request waits for the origin
  or for its leader is in the arguments \<open>fetch\<close> and \<open>wait\<close> of the handler; the locale \<open>environment\<close>
  says what is relied on (they keep \<open>sound\<close>, never remove a slot, return, and an answer is below
  $2^{60}$ bytes with a well-formed header table), each operation is shown to keep \<open>sound\<close> in turn, and the locale is interpreted on the
  proxy's own origin client, alone and with a purge that runs during the fetch. Between these points a handler call is
  atomic; in particular the policy is consulted with the rules in force when the request came in. Between two
  requests of one buffer the other threads may take any steps (\<open>worker_fn\<close>).

  \<^bold>\<open>Loops and bounds.\<close> Loops over input recurse on it and need no fuel. The request loop of the
  event loop may not end and is a \<open>partial_function\<close>; one theorem says when it ends and another
  when it does not. The recursion over nested replies of Redis takes fuel, one more than the bytes the
  connection holds or will bring: each level takes a line, and more fuel changes nothing
  (\<open>parse_enough\<close>). The receive loop of the origin client stops above 32 MiB. \<open>sized_config\<close> asks
  for a cache of less than $2^{63}$ bytes and at least one byte per shard. \<^verbatim>\<open>command\<close> sets no timeout, so a
  Redis that accepts a command and never answers blocks its thread for ever: where the shared tier is
  enabled, the theorems about all requests ask that its connections are \<open>tame\<close>, that is, that each
  socket is broken in the end and brings at most $2^{29}$ bytes before.

  \<^bold>\<open>Not modelled.\<close> The log lines other than that of \<^verbatim>\<open>Config::log\<close>, the sleeps of the threads, the purge
  hook of the coordinator (nothing sets it), the configuration and polling of librdkafka, and the tests. Of the
  control plane (TypeScript) what it writes to Redis is modelled, because the proxy depends on it: the rules
  after each request that was accepted and reached the database, purges, and who may ask; not its
  validation of bodies, the SQL of the database behind the table, its statistics and its dashboard. Of the analytics
  consumer the buffer, but not the Kafka client, the timer and the connection pool around it, nor a commit whose
  success its caller does not learn of. The demonstration origin and the deployment files are separate programs.
\<close>

end
